(* ===== verification/Upcall_Prelude.thy ===== *)
theory Upcall_Prelude
  imports Main "HOL-Library.Word" "HOL-Library.Multiset"
begin

text \<open>
  Shared vocabulary of the development: what a C call can end in (a value, a process exit, or
  undefined behaviour), the widths of the C integers that matter, decimal printing as done by
  the printf family, and the generic locale for step systems whose safety is shown by an
  inductive invariant.
\<close>

section \<open>Outcomes of C code\<close>

text \<open>
  Every function of the program that may stop the process or run into undefined behaviour
  returns a sum: \<open>Inl\<close> says why it stopped, \<open>Inr\<close> carries the value.  \<open>Exit n\<close> is a call of
  \<open>exit(n)\<close>; \<open>Fault\<close> is undefined behaviour (a null or wild pointer is dereferenced, an index
  is outside its array, a signed integer overflows).
\<close>

datatype fault = NullDeref | OutOfBounds | IntOverflow | DivByZero

datatype stop = Exit int | Fault fault

type_synonym 'a res = "stop + 'a"

definition rbind :: "'a res \<Rightarrow> ('a \<Rightarrow> 'b res) \<Rightarrow> 'b res" where
  "rbind m f = (case m of Inl e \<Rightarrow> Inl e | Inr x \<Rightarrow> f x)"

lemma rbind_Inl [simp]: "rbind (Inl e) f = Inl e"
  by (simp add: rbind_def)

lemma rbind_Inr [simp]: "rbind (Inr x) f = f x"
  by (simp add: rbind_def)

lemma rbind_eq_Inr_iff: "rbind m f = Inr y \<longleftrightarrow> (\<exists>x. m = Inr x \<and> f x = Inr y)"
  by (cases m) auto

lemma rbind_eq_Inl_iff: "rbind m f = Inl e \<longleftrightarrow> m = Inl e \<or> (\<exists>x. m = Inr x \<and> f x = Inl e)"
  by (cases m) auto

lemma rbind_InrE [elim]:
  assumes "rbind m f = Inr y" obtains x where "m = Inr x" and "f x = Inr y"
  using assms by (auto simp: rbind_eq_Inr_iff)

lemma rbind_cong [fundef_cong]:
  "m = m' \<Longrightarrow> (\<And>x. m' = Inr x \<Longrightarrow> f x = f' x) \<Longrightarrow> rbind m f = rbind m' f'"
  by (cases m') auto

definition ok :: "'a res \<Rightarrow> bool" where
  "ok m = (case m of Inl _ \<Rightarrow> False | Inr _ \<Rightarrow> True)"

lemma ok_simps [simp]: "ok (Inr x)" "\<not> ok (Inl e)"
  by (simp_all add: ok_def)

lemma okE:
  assumes "ok m"
  obtains x where "m = Inr x"
  using assms by (cases m) simp_all

text \<open>A result that is free of undefined behaviour: a value, or an orderly exit.\<close>

definition no_fault :: "'a res \<Rightarrow> bool" where
  "no_fault m = (case m of Inl (Fault _) \<Rightarrow> False | _ \<Rightarrow> True)"

lemma no_fault_simps [simp]:
  "no_fault (Inr x)" "no_fault (Inl (Exit n))" "\<not> no_fault (Inl (Fault e))"
  by (simp_all add: no_fault_def)

lemma no_fault_rbind:
  "no_fault m \<Longrightarrow> (\<And>x. m = Inr x \<Longrightarrow> no_fault (f x)) \<Longrightarrow> no_fault (rbind m f)"
  by (cases m) (auto simp: no_fault_def split: stop.splits)

lemma no_fault_ok: "ok m \<Longrightarrow> no_fault m"
  by (cases m) auto

section \<open>C integers\<close>

definition INT_MAX :: int where
  "INT_MAX = 2147483647"

type_synonym u64 = "64 word"
type_synonym u32 = "32 word"

lemma unat_of_nat64: "n < 2 ^ 64 \<Longrightarrow> unat (word_of_nat n :: u64) = n"
  by (simp add: unsigned_of_nat take_bit_nat_eq_self)

lemma word_of_nat_eq: "a < 2 ^ 64 \<Longrightarrow> b < 2 ^ 64 \<Longrightarrow> (word_of_nat a :: u64) = word_of_nat b \<longleftrightarrow> a = b"
  by (simp add: word_of_nat_eq_iff take_bit_nat_eq_self)

text \<open>The conversion of a \<open>size_t\<close> to \<open>int\<close>, as gcc does it: the low 32 bits, read signed.\<close>

definition int_of_size :: "nat \<Rightarrow> int" where
  "int_of_size n = sint (word_of_nat n :: u32)"

lemma int_of_size_id: "n < 2 ^ 31 \<Longrightarrow> int_of_size n = int n"
  unfolding int_of_size_def by (simp add: sint_uint signed_take_bit_int_eq_self uint_word_of_int take_bit_int_eq_self unsigned_of_nat take_bit_nat_eq_self)

section \<open>Decimal numbers\<close>

definition digit_char :: "nat \<Rightarrow> char" where
  "digit_char d = char_of (48 + d)"

fun show_nat :: "nat \<Rightarrow> string" where
  "show_nat n = (if n < 10 then [digit_char n] else show_nat (n div 10) @ [digit_char (n mod 10)])"

declare show_nat.simps [simp del]

definition show_int :: "int \<Rightarrow> string" where
  "show_int i = (if i < 0 then CHR ''-'' # show_nat (nat (- i)) else show_nat (nat i))"

lemma length_show_nat_pos: "0 < length (show_nat n)"
  by (subst show_nat.simps) simp

lemma length_show_nat: "n < 10 ^ Suc k \<Longrightarrow> length (show_nat n) \<le> Suc k"
proof (induction k arbitrary: n)
  case 0
  then show ?case by (subst show_nat.simps) simp
next
  case (Suc k)
  show ?case
  proof (cases "n < 10")
    case True
    then show ?thesis by (subst show_nat.simps) simp
  next
    case False
    have "n div 10 < 10 ^ Suc k" using Suc.prems by (simp add: less_mult_imp_div_less)
    then have "length (show_nat (n div 10)) \<le> Suc k" by (rule Suc.IH)
    with False show ?thesis by (subst show_nat.simps) simp
  qed
qed

text \<open>What \<open>strtol\<close> and \<open>scanf\<close> read back from a run of digits.\<close>

definition digit_val :: "char \<Rightarrow> nat" where
  "digit_val c = of_char c - 48"

definition read_digits :: "string \<Rightarrow> nat" where
  "read_digits s = foldl (\<lambda>a c. 10 * a + digit_val c) 0 s"

lemma digit_val_digit_char: "d < 10 \<Longrightarrow> digit_val (digit_char d) = d"
  by (simp add: digit_val_def digit_char_def of_char_of take_bit_nat_eq_self)

lemma read_show_nat: "read_digits (show_nat n) = n"
proof (induction n rule: show_nat.induct)
  case (1 n)
  show ?case
  proof (cases "n < 10")
    case True
    then show ?thesis by (subst show_nat.simps) (simp add: read_digits_def digit_val_digit_char)
  next
    case False
    then have "read_digits (show_nat (n div 10)) = n div 10" by (rule 1)
    with False show ?thesis
      by (subst show_nat.simps) (simp add: read_digits_def digit_val_digit_char)
  qed
qed

text \<open>
  \<open>strtol(s, NULL, 10)\<close> and \<open>atol\<close>: leading white space, an optional sign, the longest run of
  digits (0 if there is none), clamped to the range of \<open>long\<close>.
\<close>

definition is_space :: "char \<Rightarrow> bool" where
  "is_space c \<longleftrightarrow> c = CHR '' '' \<or> (9 \<le> (of_char c :: nat) \<and> (of_char c :: nat) \<le> 13)"

definition is_digit :: "char \<Rightarrow> bool" where
  "is_digit c \<longleftrightarrow> 48 \<le> (of_char c :: nat) \<and> (of_char c :: nat) \<le> 57"

definition LONG_MAX :: int where "LONG_MAX = 9223372036854775807"

definition strtol10 :: "string \<Rightarrow> int" where
  "strtol10 s =
     (let t = dropWhile is_space s;
          neg = (t \<noteq> [] \<and> hd t = CHR ''-'');
          u = (if t \<noteq> [] \<and> (hd t = CHR ''-'' \<or> hd t = CHR ''+'') then tl t else t);
          v = int (read_digits (takeWhile is_digit u))
      in if neg then max (- LONG_MAX - 1) (- v) else min LONG_MAX v)"

lemma is_digit_digit_char: "d < 10 \<Longrightarrow> is_digit (digit_char d)"
  by (simp add: is_digit_def digit_char_def of_char_of take_bit_nat_eq_self)

lemma show_nat_digits: "list_all is_digit (show_nat n)"
proof (induction n rule: show_nat.induct)
  case (1 n)
  then show ?case by (subst show_nat.simps) (simp add: is_digit_digit_char)
qed

lemma strtol10_show_nat:
  assumes "int n \<le> LONG_MAX" shows "strtol10 (show_nat n) = int n"
proof -
  obtain c cs where c: "show_nat n = c # cs"
    using length_show_nat_pos[of n] by (cases "show_nat n") auto
  then have d: "is_digit c" using show_nat_digits[of n] by simp
  have ns: "\<not> is_space c" "c \<noteq> CHR ''-''" "c \<noteq> CHR ''+''"
    using d by (auto simp: is_digit_def is_space_def)
  have "takeWhile is_digit (show_nat n) = show_nat n"
    using show_nat_digits[of n] by (simp add: list_all_iff)
  with c ns have "strtol10 (show_nat n) = min LONG_MAX (int (read_digits (show_nat n)))"
    by (simp add: strtol10_def)
  with assms show ?thesis by (simp add: read_show_nat)
qed

text \<open>The C string in a byte array: everything before the first NUL.\<close>

definition c_str :: "string \<Rightarrow> string" where
  "c_str s = takeWhile (\<lambda>c. c \<noteq> CHR 0x00) s"

definition newline :: char where
  "newline = CHR 0x0A"

definition tab :: char where
  "tab = CHR 0x09"

section \<open>Step systems\<close>

inductive reach :: "('s \<Rightarrow> bool) \<Rightarrow> ('s \<Rightarrow> 's \<Rightarrow> bool) \<Rightarrow> 's \<Rightarrow> bool"
  for init :: "'s \<Rightarrow> bool" and step :: "'s \<Rightarrow> 's \<Rightarrow> bool" where
  reach_init: "init s \<Longrightarrow> reach init step s"
| reach_step: "reach init step s \<Longrightarrow> step s t \<Longrightarrow> reach init step t"

lemma reach_mono: "reach i st s \<Longrightarrow> (\<And>x. i x \<Longrightarrow> j x) \<Longrightarrow> reach j st s"
  by (induction rule: reach.induct) (auto intro: reach.intros)

locale step_system =
  fixes init :: "'s \<Rightarrow> bool" and step :: "'s \<Rightarrow> 's \<Rightarrow> bool" and inv :: "'s \<Rightarrow> bool"
  assumes inv_init: "init s \<Longrightarrow> inv s"
    and inv_step: "inv s \<Longrightarrow> step s t \<Longrightarrow> inv t"
begin

lemma reach_inv: "reach init step s \<Longrightarrow> inv s"
  by (induction rule: reach.induct) (auto intro: inv_init inv_step)

end

text \<open>
  A system that cannot run for ever: the steps of the code itself (\<open>own\<close>; the environment may take
  others) make a rank smaller, and only a finished state has none.
\<close>

locale live_system = step_system init step inv
  for init :: "'s \<Rightarrow> bool" and step :: "'s \<Rightarrow> 's \<Rightarrow> bool" and inv :: "'s \<Rightarrow> bool" +
  fixes own :: "'s \<Rightarrow> 's \<Rightarrow> bool" and rank :: "'s \<Rightarrow> nat" and finished :: "'s \<Rightarrow> bool"
  assumes own_step: "own s t \<Longrightarrow> step s t"
    and own_less: "inv s \<Longrightarrow> own s t \<Longrightarrow> rank t < rank s"
    and stuck_finished: "inv s \<Longrightarrow> (\<And>t. \<not> own s t) \<Longrightarrow> finished s"
begin

lemma own_inv: "own\<^sup>*\<^sup>* s t \<Longrightarrow> inv s \<Longrightarrow> inv t"
  by (induction rule: rtranclp_induct) (auto intro: inv_step own_step)

lemma reach_own: "own\<^sup>*\<^sup>* s t \<Longrightarrow> reach init step s \<Longrightarrow> reach init step t"
  by (induction rule: rtranclp_induct) (auto intro: reach_step own_step)

lemma runs_to_end: "inv s \<Longrightarrow> \<exists>t. own\<^sup>*\<^sup>* s t \<and> finished t"
proof (induction "rank s" arbitrary: s rule: less_induct)
  case less
  show ?case
  proof (cases "\<exists>t. own s t")
    case True
    then obtain t where t: "own s t" by blast
    from less.hyps[OF own_less[OF less.prems t] inv_step[OF less.prems own_step[OF t]]] t show ?thesis
      by (meson converse_rtranclp_into_rtranclp)
  next
    case False
    then show ?thesis using stuck_finished[OF less.prems] by blast
  qed
qed

lemma no_endless_run:
  assumes "inv s"
  shows "\<not> (\<exists>f. f 0 = s \<and> (\<forall>k. own (f k) (f (Suc k))))"
proof
  assume "\<exists>f. f 0 = s \<and> (\<forall>k. own (f k) (f (Suc k)))"
  then obtain f where f: "f 0 = s" "\<And>k. own (f k) (f (Suc k))" by blast
  have inv: "inv (f k)" for k by (induction k) (auto simp: f(1) assms intro: inv_step own_step f(2))
  have "rank (f k) + k \<le> rank (f 0)" for k
  proof (induction k)
    case (Suc k)
    then show ?case using own_less[OF inv[of k] f(2)[of k]] by simp
  qed simp
  from this[of "Suc (rank (f 0))"] show False by simp
qed

lemma completes:
  assumes "reach init step s"
  shows "(\<exists>t. own\<^sup>*\<^sup>* s t \<and> finished t) \<and> (\<forall>t. own\<^sup>*\<^sup>* s t \<and> (\<forall>u. \<not> own t u) \<longrightarrow> finished t) \<and>
    \<not> (\<exists>f. f 0 = s \<and> (\<forall>k. own (f k) (f (Suc k))))"
proof -
  have inv: "inv s" by (rule reach_inv[OF assms])
  have "finished t" if "own\<^sup>*\<^sup>* s t" "\<forall>u. \<not> own t u" for t
    using stuck_finished[OF own_inv[OF that(1) inv]] that(2) by blast
  then show ?thesis using runs_to_end[OF inv] no_endless_run[OF inv] by blast
qed

end

section \<open>Threads that count themselves\<close>

lemma card_filter_insert:
  assumes "\<not> P i" "i < n" "\<And>j. Q j \<longleftrightarrow> P j \<or> j = i"
  shows "card {j. j < n \<and> Q j} = Suc (card {j :: nat. j < n \<and> P j})"
proof -
  have "{j. j < n \<and> Q j} = insert i {j. j < n \<and> P j}" using assms(2,3) by auto
  then show ?thesis using assms(1) by simp
qed

lemma card_filter_le: "card {i :: nat. i < n \<and> P i} \<le> n"
  using card_mono[of "{..<n}" "{i. i < n \<and> P i}"] by auto

lemma card_filter_all:
  assumes "card {i :: nat. i < n \<and> P i} = n" "i < n"
  shows "P i"
proof -
  have "{i. i < n \<and> P i} = {..<n}" by (rule card_subset_eq) (use assms(1) in auto)
  then show ?thesis using assms(2) by auto
qed

lemma sum_point:
  fixes f :: "'a \<Rightarrow> nat" and n :: nat
  assumes "i < n"
  shows "(\<Sum>j<n. f (if j = i then p else g j)) + f (g i) = (\<Sum>j<n. f (g j)) + f p"
  using assms by (simp add: sum.remove[of "{..<n}" i])

end
