(* ===== verification/Upcall_Queue.thy ===== *)
theory Upcall_Queue
  imports Upcall_Prelude
begin

text \<open>
  The per-worker submission batch and buffer pool of libupcall (\<open>libupcall/upcall.h\<close> and the
  first half of \<open>libupcall/upcall.c\<close>).  The C thread-locals \<open>work\<close>, \<open>work_cnt\<close>, \<open>work_max\<close>,
  \<open>receive\<close>, \<open>recv_cnt\<close>, \<open>buffers\<close>, \<open>buf_cnt\<close> and \<open>buf_max\<close> are the fields of one record; the
  operations of the library are functions on it.  An array is the list of its cells, so an
  index outside the list is the C index outside the allocation.

  What the allocator does is an argument: \<open>mem_env\<close> says which requests it grants, where it puts
  the blocks, and what a fresh cell holds after \<open>realloc\<close> (which clears nothing).
\<close>

section \<open>Types of upcall.h\<close>

datatype up_action_t = UP_READ | UP_WRITE | UP_ACCEPT | UP_VEC | UP_CLOSE | NR_ACTIONS

text \<open>A pointer is null or an offset into an allocated block.\<close>

datatype ptr = Null | Ptr nat nat

text \<open>
  \<open>struct up_event\<close>; \<open>'f\<close> names the event callbacks, so \<open>ev_fn\<close> is \<open>None\<close> for a null
  \<open>work_fn\<close>.
\<close>

record 'f up_event =
  ev_fd :: int
  ev_result :: int
  ev_buf :: ptr
  ev_len :: nat
  ev_fn :: "'f option"
  ev_type :: up_action_t

record iovec =
  iov_base :: ptr
  iov_len :: nat

text \<open>The all-zero event that \<open>memset\<close> leaves; enumerator 0 is \<open>UP_READ\<close>.\<close>

definition zero_event :: "'f up_event" where
  "zero_event = \<lparr>ev_fd = 0, ev_result = 0, ev_buf = Null, ev_len = 0, ev_fn = None, ev_type = UP_READ\<rparr>"

definition zero_iovec :: iovec where
  "zero_iovec = \<lparr>iov_base = Null, iov_len = 0\<rparr>"

definition sizeof_up_event :: nat where "sizeof_up_event = 40"

definition sizeof_iovec :: nat where "sizeof_iovec = 16"

definition EVTS :: nat where "EVTS = 4"

record 'f worker =
  work :: "'f up_event list"
  work_cnt :: nat
  work_max :: nat
  receive :: "'f up_event list"
  recv_cnt :: nat
  buffers :: "iovec list"
  buffers_at :: nat
  buf_cnt :: nat
  buf_max :: nat

record 'f mem_env =
  mem_ok :: "nat \<Rightarrow> bool"
  mem_block :: nat
  mem_bufs :: "nat \<Rightarrow> nat"
  stale_event :: "nat \<Rightarrow> 'f up_event"
  stale_iovec :: "nat \<Rightarrow> iovec"

section \<open>Operations of upcall.c\<close>

definition expand_queue :: "'f mem_env \<Rightarrow> 'f worker \<Rightarrow> 'f worker res" where
  "expand_queue m w =
     (if int (work_max w + EVTS) > INT_MAX then Inl (Fault IntOverflow)
      else let n = work_max w + EVTS in
        if mem_ok m (n * sizeof_up_event)
        then Inr (w\<lparr>work_max := n,
                    work := take n (work w) @ map (stale_event m) [length (work w)..<n]\<rparr>)
        else Inl (Exit 1))"

text \<open>The guard every \<open>add_\<close> function starts with, and the store into \<open>work[work_cnt]\<close>.\<close>

definition next_slot :: "'f mem_env \<Rightarrow> 'f worker \<Rightarrow> 'f worker res" where
  "next_slot m w = (if work_cnt w = work_max w then expand_queue m w else Inr w)"

definition fill_slot :: "('f up_event \<Rightarrow> 'f up_event) \<Rightarrow> 'f worker \<Rightarrow> 'f worker res" where
  "fill_slot g w =
     (if work_cnt w < length (work w)
      then Inr (w\<lparr>work := (work w)[work_cnt w := g (work w ! work_cnt w)],
                  work_cnt := work_cnt w + 1\<rparr>)
      else Inl (Fault OutOfBounds))"

definition add_buffers :: "'f mem_env \<Rightarrow> ptr \<Rightarrow> nat \<Rightarrow> 'f worker \<Rightarrow> 'f worker res" where
  "add_buffers m bufs cnt w =
     rbind (next_slot m w)
       (fill_slot (\<lambda>_. zero_event\<lparr>ev_type := UP_VEC, ev_buf := bufs, ev_len := cnt\<rparr>))"

definition add_read :: "'f mem_env \<Rightarrow> int \<Rightarrow> 'f option \<Rightarrow> 'f worker \<Rightarrow> 'f worker res" where
  "add_read m fd fn w =
     rbind (next_slot m w)
       (fill_slot (\<lambda>_. zero_event\<lparr>ev_fd := fd, ev_type := UP_READ, ev_fn := fn\<rparr>))"

definition add_write ::
  "'f mem_env \<Rightarrow> int \<Rightarrow> ptr \<Rightarrow> nat \<Rightarrow> 'f option \<Rightarrow> 'f worker \<Rightarrow> 'f worker res" where
  "add_write m fd b n fn w =
     rbind (next_slot m w)
       (fill_slot (\<lambda>_. zero_event\<lparr>ev_fd := fd, ev_buf := b, ev_len := n,
                                  ev_type := UP_WRITE, ev_fn := fn\<rparr>))"

text \<open>\<open>add_accept\<close> and \<open>add_close\<close> do not clear the slot: the other fields keep what was there.\<close>

definition add_accept :: "'f mem_env \<Rightarrow> int \<Rightarrow> 'f option \<Rightarrow> 'f worker \<Rightarrow> 'f worker res" where
  "add_accept m fd fn w =
     rbind (next_slot m w)
       (fill_slot (\<lambda>e. e\<lparr>ev_fd := fd, ev_type := UP_ACCEPT, ev_fn := fn\<rparr>))"

definition add_close :: "'f mem_env \<Rightarrow> int \<Rightarrow> 'f worker \<Rightarrow> 'f worker res" where
  "add_close m fd w =
     rbind (next_slot m w)
       (fill_slot (\<lambda>e. e\<lparr>ev_fd := fd, ev_type := UP_CLOSE, ev_fn := None\<rparr>))"

definition grow_pool :: "'f mem_env \<Rightarrow> 'f worker \<Rightarrow> 'f worker res" where
  "grow_pool m w =
     (let n = buf_max w * 2 in
      if int n > INT_MAX then Inl (Fault IntOverflow)
      else if mem_ok m (n * sizeof_iovec)
      then Inr (w\<lparr>buf_max := n, buffers_at := mem_block m,
                  buffers := take n (buffers w) @ map (stale_iovec m) [length (buffers w)..<n]\<rparr>)
      else Inl (Exit 1))"

definition return_buffer :: "'f mem_env \<Rightarrow> ptr \<Rightarrow> nat \<Rightarrow> 'f worker \<Rightarrow> 'f worker res" where
  "return_buffer m b n w =
     rbind (if buf_cnt w = buf_max w then grow_pool m w else Inr w)
       (\<lambda>w. if buf_cnt w < length (buffers w)
            then Inr (w\<lparr>buffers := (buffers w)[buf_cnt w := \<lparr>iov_base = b, iov_len = n\<rparr>],
                        buf_cnt := buf_cnt w + 1\<rparr>)
            else Inl (Fault OutOfBounds))"

text \<open>The \<open>for\<close> loop of \<open>upcall_worker_setup\<close> that allocates the pool buffers.\<close>

function fill_pool :: "'f mem_env \<Rightarrow> nat \<Rightarrow> 'f worker \<Rightarrow> 'f worker res" where
  "fill_pool m sz w =
     (if buf_cnt w < buf_max w then
        if \<not> mem_ok m sz then Inl (Exit 1)
        else if buf_cnt w < length (buffers w) then
          fill_pool m sz
            (w\<lparr>buffers := (buffers w)[buf_cnt w := \<lparr>iov_base = Ptr (mem_bufs m (buf_cnt w)) 0, iov_len = sz\<rparr>],
               buf_cnt := buf_cnt w + 1\<rparr>)
        else Inl (Fault OutOfBounds)
      else Inr w)"
  by pat_completeness auto
termination
  by (relation "measure (\<lambda>(m, sz, w). buf_max w - buf_cnt w)") auto

declare fill_pool.simps [simp del]

text \<open>
  \<open>upcall_worker_setup\<close>, but for the statistics slot (theory Batch_Stats).  \<open>batch_sz\<close> is a
  \<open>size_t\<close> stored into \<open>int\<close> fields; when the conversion is negative the first \<open>calloc\<close> is asked
  for more than the address space and fails.
\<close>

definition upcall_worker_setup :: "'f mem_env \<Rightarrow> nat \<Rightarrow> nat \<Rightarrow> 'f worker res" where
  "upcall_worker_setup m batch_sz buf_sz =
     (let n = nat (int_of_size batch_sz) in
      if int_of_size batch_sz < 0 \<or> \<not> mem_ok m (n * sizeof_up_event) then Inl (Exit 1)
      else if \<not> mem_ok m (batch_sz * sizeof_iovec) then Inl (Exit 1)
      else rbind (fill_pool m buf_sz
                   \<lparr>work = replicate n zero_event, work_cnt = 0, work_max = n,
                    receive = replicate n zero_event, recv_cnt = n,
                    buffers = replicate batch_sz zero_iovec, buffers_at = mem_block m,
                    buf_cnt = 0, buf_max = n\<rparr>)
        (\<lambda>w. add_buffers m (Ptr (buffers_at w) 0) (buf_max w) (w\<lparr>buf_cnt := 0\<rparr>)))"

section \<open>Well-formed workers, pending requests and the pool\<close>

definition pending :: "'f worker \<Rightarrow> 'f up_event list" where
  "pending w = take (work_cnt w) (work w)"

definition pool :: "'f worker \<Rightarrow> iovec list" where
  "pool w = take (buf_cnt w) (buffers w)"

definition worker_wf :: "'f worker \<Rightarrow> bool" where
  "worker_wf w \<longleftrightarrow>
     length (work w) = work_max w \<and> work_cnt w \<le> work_max w \<and>
     length (receive w) = recv_cnt w \<and>
     buf_cnt w \<le> buf_max w \<and> buf_max w \<le> length (buffers w)"

named_theorems queue_defs

declare expand_queue_def [queue_defs] next_slot_def [queue_defs] fill_slot_def [queue_defs]
  pending_def [queue_defs] pool_def [queue_defs] worker_wf_def [queue_defs]
  add_read_def [queue_defs] add_write_def [queue_defs] add_accept_def [queue_defs]
  add_close_def [queue_defs] add_buffers_def [queue_defs] Let_def [queue_defs]

subsection \<open>One slot\<close>

text \<open>The part of a worker that the batch operations leave alone.\<close>

definition same_pool :: "'f worker \<Rightarrow> 'f worker \<Rightarrow> bool" where
  "same_pool w w' \<longleftrightarrow> receive w' = receive w \<and> recv_cnt w' = recv_cnt w \<and>
     buffers w' = buffers w \<and> buffers_at w' = buffers_at w \<and>
     buf_cnt w' = buf_cnt w \<and> buf_max w' = buf_max w"

definition same_batch :: "'f worker \<Rightarrow> 'f worker \<Rightarrow> bool" where
  "same_batch w w' \<longleftrightarrow> receive w' = receive w \<and> recv_cnt w' = recv_cnt w \<and>
     work w' = work w \<and> work_cnt w' = work_cnt w \<and> work_max w' = work_max w"

lemma next_slot_wf:
  assumes "worker_wf w" "next_slot m w = Inr w'"
  shows "worker_wf w' \<and> work_cnt w' = work_cnt w \<and> work_cnt w' < work_max w'
    \<and> pending w' = pending w \<and> same_pool w w'"
  using assms by (auto simp: queue_defs EVTS_def same_pool_def split: if_splits)

lemma next_slot_safe:
  "worker_wf w \<Longrightarrow> int (work_max w + EVTS) \<le> INT_MAX \<Longrightarrow> no_fault (next_slot m w)"
  by (auto simp: queue_defs)

lemma next_slot_stops: "next_slot m w = Inl e \<Longrightarrow>
  e = Exit 1 \<or> e = Fault IntOverflow \<and> int (work_max w + EVTS) > INT_MAX"
  by (auto simp: queue_defs split: if_splits)

lemma fill_slot_append:
  assumes "worker_wf w" "work_cnt w < work_max w"
  obtains w' where "fill_slot g w = Inr w'" "worker_wf w'"
    "pending w' = pending w @ [g (work w ! work_cnt w)]" "same_pool w w'" "work_max w' = work_max w"
proof
  show "fill_slot g w = Inr (w\<lparr>work := (work w)[work_cnt w := g (work w ! work_cnt w)],
                  work_cnt := work_cnt w + 1\<rparr>)"
    using assms by (simp add: fill_slot_def worker_wf_def)
qed (use assms in \<open>auto simp: worker_wf_def pending_def same_pool_def take_Suc_conv_app_nth\<close>)

text \<open>
  The common shape of the \<open>add_\<close> functions: reserve a slot, overwrite it.  A successful call
  appends exactly one request; a failed one is an exit for lack of memory, or an overflow of the
  \<open>int\<close> capacity.
\<close>

lemma add_slot_Inr:
  assumes "worker_wf w" "rbind (next_slot m w) (fill_slot g) = Inr w'"
  shows "worker_wf w' \<and> (\<exists>old. pending w' = pending w @ [g old]) \<and> same_pool w w'"
proof -
  obtain v where v: "next_slot m w = Inr v" "fill_slot g v = Inr w'"
    using assms(2) by auto
  note nv = next_slot_wf[OF assms(1) v(1)]
  obtain w'' where "fill_slot g v = Inr w''" "worker_wf w''"
    "pending w'' = pending v @ [g (work v ! work_cnt v)]" "same_pool v w''"
    using fill_slot_append[of v g] nv by blast
  with v nv show ?thesis by (auto simp: same_pool_def)
qed

lemma add_slot_stops:
  assumes "worker_wf w" "rbind (next_slot m w) (fill_slot g) = Inl e"
  shows "e = Exit 1 \<or> e = Fault IntOverflow \<and> int (work_max w + EVTS) > INT_MAX"
proof (cases "next_slot m w")
  case (Inl f)
  with assms show ?thesis using next_slot_stops[OF Inl] by simp
next
  case (Inr v)
  have "worker_wf v" "work_cnt v < work_max v" using next_slot_wf[OF assms(1) Inr] by auto
  then obtain w' where "fill_slot g v = Inr w'" by (rule fill_slot_append)
  with assms Inr show ?thesis by simp
qed

section \<open>Requests\<close>

text \<open>
  The four public \<open>add_\<close> functions under one name, and what the queued event must say for each.
  For accept and close only the fields the code assigns are determined.
\<close>

datatype 'f request =
    Read int "'f option"
  | Write int ptr nat "'f option"
  | Accept int "'f option"
  | Close int

definition add_request :: "'f mem_env \<Rightarrow> 'f request \<Rightarrow> 'f worker \<Rightarrow> 'f worker res" where
  "add_request m r w =
     (case r of
        Read fd fn \<Rightarrow> add_read m fd fn w
      | Write fd b n fn \<Rightarrow> add_write m fd b n fn w
      | Accept fd fn \<Rightarrow> add_accept m fd fn w
      | Close fd \<Rightarrow> add_close m fd w)"

fun describes :: "'f up_event \<Rightarrow> 'f request \<Rightarrow> bool" where
  "describes e (Read fd fn) \<longleftrightarrow>
     e = \<lparr>ev_fd = fd, ev_result = 0, ev_buf = Null, ev_len = 0, ev_fn = fn, ev_type = UP_READ\<rparr>"
| "describes e (Write fd b n fn) \<longleftrightarrow>
     e = \<lparr>ev_fd = fd, ev_result = 0, ev_buf = b, ev_len = n, ev_fn = fn, ev_type = UP_WRITE\<rparr>"
| "describes e (Accept fd fn) \<longleftrightarrow> ev_fd e = fd \<and> ev_fn e = fn \<and> ev_type e = UP_ACCEPT"
| "describes e (Close fd) \<longleftrightarrow> ev_fd e = fd \<and> ev_fn e = None \<and> ev_type e = UP_CLOSE"

text \<open>Every request overwrites one reserved slot; \<open>slot_of\<close> is what it makes of the old cell.\<close>

fun slot_of :: "'f request \<Rightarrow> 'f up_event \<Rightarrow> 'f up_event" where
  "slot_of (Read fd fn) = (\<lambda>_. zero_event\<lparr>ev_fd := fd, ev_type := UP_READ, ev_fn := fn\<rparr>)"
| "slot_of (Write fd b n fn) =
     (\<lambda>_. zero_event\<lparr>ev_fd := fd, ev_buf := b, ev_len := n, ev_type := UP_WRITE, ev_fn := fn\<rparr>)"
| "slot_of (Accept fd fn) = (\<lambda>e. e\<lparr>ev_fd := fd, ev_type := UP_ACCEPT, ev_fn := fn\<rparr>)"
| "slot_of (Close fd) = (\<lambda>e. e\<lparr>ev_fd := fd, ev_type := UP_CLOSE, ev_fn := None\<rparr>)"

lemma add_request_slot: "add_request m r w = rbind (next_slot m w) (fill_slot (slot_of r))"
  by (cases r) (simp_all add: add_request_def add_read_def add_write_def add_accept_def add_close_def)

lemma describes_slot_of: "describes (slot_of r old) r"
  by (cases r) (simp_all add: zero_event_def)

lemma add_request_Inr:
  assumes "worker_wf w" "add_request m r w = Inr w'"
  shows "worker_wf w' \<and> (\<exists>e. pending w' = pending w @ [e] \<and> describes e r) \<and> same_pool w w'"
  using add_slot_Inr[OF assms(1), of m "slot_of r" w'] assms(2) describes_slot_of[of r]
  by (auto simp: add_request_slot)

lemma add_request_stops:
  assumes "worker_wf w" "add_request m r w = Inl e"
  shows "e = Exit 1 \<or> e = Fault IntOverflow \<and> int (work_max w + EVTS) > INT_MAX"
  using add_slot_stops[OF assms(1), of m "slot_of r" e] assms(2) by (simp add: add_request_slot)

lemma add_request_ok:
  assumes "worker_wf w" "int (work_max w + EVTS) \<le> INT_MAX" "mem_ok m = (\<lambda>_. True)"
  shows "\<exists>w'. add_request m r w = Inr w'"
proof -
  have "\<exists>v. next_slot m w = Inr v"
    using assms by (auto simp: next_slot_def expand_queue_def Let_def)
  then obtain v where v: "next_slot m w = Inr v" by blast
  have "worker_wf v" "work_cnt v < work_max v" using next_slot_wf[OF assms(1) v] by auto
  then obtain w' where "fill_slot (slot_of r) v = Inr w'" by (rule fill_slot_append)
  with v show ?thesis by (simp add: add_request_slot)
qed

section \<open>The submission queue as an interface\<close>

text \<open>
  What a client of the batch relies on: a request that is accepted is appended to the pending
  ones and nothing queued before is disturbed.  \<open>add_list\<close> issues a list of requests, each under
  its own allocator.
\<close>

fun add_list :: "('m \<Rightarrow> 'r \<Rightarrow> 'w \<Rightarrow> 'w res) \<Rightarrow> ('m \<times> 'r) list \<Rightarrow> 'w \<Rightarrow> 'w res" where
  "add_list add [] w = Inr w"
| "add_list add ((m, r) # rs) w = rbind (add m r w) (add_list add rs)"

locale submission_queue =
  fixes add :: "'m \<Rightarrow> 'r \<Rightarrow> 'w \<Rightarrow> 'w res"
    and inv :: "'w \<Rightarrow> bool"
    and queued :: "'w \<Rightarrow> 'e list"
    and says :: "'e \<Rightarrow> 'r \<Rightarrow> bool"
    and kept :: "'w \<Rightarrow> 'p"
  assumes add_inv: "inv w \<Longrightarrow> add m r w = Inr w' \<Longrightarrow> inv w'"
    and add_appends: "inv w \<Longrightarrow> add m r w = Inr w' \<Longrightarrow> \<exists>e. queued w' = queued w @ [e] \<and> says e r"
    and add_keeps: "inv w \<Longrightarrow> add m r w = Inr w' \<Longrightarrow> kept w' = kept w"
begin

lemma add_list_inv: "inv w \<Longrightarrow> add_list add rs w = Inr w' \<Longrightarrow> inv w'"
proof (induction rs arbitrary: w)
  case (Cons x rs)
  obtain m r where x: "x = (m, r)" by (cases x)
  from Cons.prems(2) obtain v where v: "add m r w = Inr v" "add_list add rs v = Inr w'"
    by (auto simp: x)
  show ?case by (rule Cons.IH[OF add_inv[OF Cons.prems(1) v(1)] v(2)])
qed simp

lemma add_list_keeps: "inv w \<Longrightarrow> add_list add rs w = Inr w' \<Longrightarrow> kept w' = kept w"
proof (induction rs arbitrary: w)
  case (Cons x rs)
  obtain m r where x: "x = (m, r)" by (cases x)
  from Cons.prems(2) obtain v where v: "add m r w = Inr v" "add_list add rs v = Inr w'"
    by (auto simp: x)
  show ?case
    using Cons.IH[OF add_inv[OF Cons.prems(1) v(1)] v(2)] add_keeps[OF Cons.prems(1) v(1)] by simp
qed simp

lemma add_list_appends:
  "inv w \<Longrightarrow> add_list add rs w = Inr w' \<Longrightarrow>
     \<exists>es. queued w' = queued w @ es \<and> list_all2 says es (map snd rs)"
proof (induction rs arbitrary: w)
  case Nil
  then show ?case by simp
next
  case (Cons x rs)
  obtain m r where x: "x = (m, r)" by (cases x)
  from Cons.prems(2) obtain v where v: "add m r w = Inr v" "add_list add rs v = Inr w'"
    by (auto simp: x)
  obtain e where e: "queued v = queued w @ [e]" "says e r"
    using add_appends[OF Cons.prems(1) v(1)] by blast
  obtain es where "queued w' = queued v @ es" "list_all2 says es (map snd rs)"
    using Cons.IH[OF add_inv[OF Cons.prems(1) v(1)] v(2)] by blast
  with e show ?case by (intro exI[of _ "e # es"]) (simp add: x)
qed

end

interpretation batch: submission_queue
  "add_request :: 'f mem_env \<Rightarrow> 'f request \<Rightarrow> 'f worker \<Rightarrow> 'f worker res"
  worker_wf pending describes "\<lambda>w. (pool w, receive w, buf_max w)"
proof unfold_locales
  fix w w' :: "'f worker" and m r
  assume a: "worker_wf w" "add_request m r w = Inr w'"
  note add_request_Inr[OF a]
  then show "worker_wf w'" "\<exists>e. pending w' = pending w @ [e] \<and> describes e r"
    "(pool w', receive w', buf_max w') = (pool w, receive w, buf_max w)"
    by (auto simp: same_pool_def pool_def)
qed

section \<open>The buffer pool\<close>

lemma grow_pool_Inr:
  assumes "worker_wf w" "0 < buf_max w" "buf_cnt w = buf_max w" "grow_pool m w = Inr w'"
  shows "worker_wf w' \<and> buf_cnt w' = buf_cnt w \<and> buf_cnt w' < length (buffers w') \<and>
    buf_cnt w' < buf_max w' \<and> pool w' = pool w \<and> same_batch w w'"
  using assms by (auto simp: grow_pool_def worker_wf_def pool_def same_batch_def Let_def split: if_splits)

lemma return_buffer_Inr:
  assumes "worker_wf w" "0 < buf_max w" "return_buffer m b n w = Inr w'"
  shows "worker_wf w' \<and> pool w' = pool w @ [\<lparr>iov_base = b, iov_len = n\<rparr>] \<and> same_batch w w' \<and> 0 < buf_max w'"
proof -
  from assms(3) obtain v where v: "(if buf_cnt w = buf_max w then grow_pool m w else Inr w) = Inr v"
    and w': "buf_cnt v < length (buffers v)"
      "w' = v\<lparr>buffers := (buffers v)[buf_cnt v := \<lparr>iov_base = b, iov_len = n\<rparr>], buf_cnt := buf_cnt v + 1\<rparr>"
    by (auto simp: return_buffer_def split: if_splits)
  have "worker_wf v \<and> buf_cnt v < length (buffers v) \<and> buf_cnt v < buf_max v \<and> pool v = pool w \<and> same_batch w v"
    using assms v grow_pool_Inr[of w m v]
    by (auto simp: worker_wf_def same_batch_def split: if_splits)
  with w' show ?thesis
    by (auto simp: worker_wf_def pool_def same_batch_def take_Suc_conv_app_nth)
qed

lemma return_buffer_stops:
  assumes "worker_wf w" "0 < buf_max w" "return_buffer m b n w = Inl e"
  shows "e = Exit 1 \<or> e = Fault IntOverflow \<and> int (buf_max w * 2) > INT_MAX"
  using assms by (auto simp: return_buffer_def grow_pool_def worker_wf_def Let_def split: if_splits)

lemma same_batch_pending: "same_batch w w' \<Longrightarrow> pending w' = pending w"
  by (simp add: same_batch_def pending_def)

lemma same_pool_pool: "same_pool w w' \<Longrightarrow> pool w' = pool w"
  by (simp add: same_pool_def pool_def)

section \<open>Worker setup\<close>

lemma fill_pool_Inr:
  "fill_pool m sz w = Inr w' \<Longrightarrow> buf_cnt w \<le> buf_max w \<Longrightarrow> buf_max w \<le> length (buffers w) \<Longrightarrow>
     same_batch w w' \<and> buffers_at w' = buffers_at w \<and> buf_max w' = buf_max w \<and>
     buf_cnt w' = buf_max w \<and> length (buffers w') = length (buffers w) \<and>
     pool w' = pool w @ map (\<lambda>i. \<lparr>iov_base = Ptr (mem_bufs m i) 0, iov_len = sz\<rparr>) [buf_cnt w..<buf_max w]"
proof (induction m sz w rule: fill_pool.induct)
  case (1 m sz w)
  let ?io = "\<lparr>iov_base = Ptr (mem_bufs m (buf_cnt w)) 0, iov_len = sz\<rparr>"
  let ?v = "w\<lparr>buffers := (buffers w)[buf_cnt w := ?io], buf_cnt := buf_cnt w + 1\<rparr>"
  show ?case
  proof (cases "buf_cnt w < buf_max w")
    case True
    with 1(2,4) have ok: "mem_ok m sz" "buf_cnt w < length (buffers w)" "fill_pool m sz ?v = Inr w'"
      by (subst (asm) (1) fill_pool.simps; simp split: if_splits)+
    have "same_batch ?v w' \<and> buffers_at w' = buffers_at ?v \<and> buf_max w' = buf_max ?v \<and>
      buf_cnt w' = buf_max ?v \<and> length (buffers w') = length (buffers ?v) \<and>
      pool w' = pool ?v @ map (\<lambda>i. \<lparr>iov_base = Ptr (mem_bufs m i) 0, iov_len = sz\<rparr>) [buf_cnt ?v..<buf_max ?v]"
      using 1(1)[OF True _ ok(2) ok(3)] ok(1) True 1(4) by simp
    moreover have "pool ?v = pool w @ [?io]"
      using ok(2) by (simp add: pool_def take_Suc_conv_app_nth)
    ultimately show ?thesis using True by (simp add: upt_conv_Cons same_batch_def)
  next
    case False
    with 1(2,3) have "w' = w" "buf_cnt w = buf_max w"
      by (auto simp: fill_pool.simps[of m sz w])
    then show ?thesis by (simp add: same_batch_def)
  qed
qed

text \<open>What the kernel finds behind an \<open>UP_VEC\<close> request: the first \<open>len\<close> cells of \<open>buffers\<close>.\<close>

definition vec_of :: "'f worker \<Rightarrow> 'f up_event \<Rightarrow> iovec list" where
  "vec_of w e = (if ev_type e = UP_VEC \<and> ev_buf e = Ptr (buffers_at w) 0
                 then take (ev_len e) (buffers w) else [])"

definition vecs :: "'f worker \<Rightarrow> iovec list" where
  "vecs w = concat (map (vec_of w) (pending w))"

lemma add_buffers_Inr:
  assumes "worker_wf w" "add_buffers m b n w = Inr w'"
  shows "worker_wf w' \<and>
    pending w' = pending w @ [zero_event\<lparr>ev_type := UP_VEC, ev_buf := b, ev_len := n\<rparr>] \<and> same_pool w w'"
  using add_slot_Inr[OF assms(1) assms(2)[unfolded add_buffers_def]] by auto

lemma add_buffers_stops:
  assumes "worker_wf w" "add_buffers m b n w = Inl e"
  shows "e = Exit 1 \<or> e = Fault IntOverflow \<and> int (work_max w + EVTS) > INT_MAX"
  using add_slot_stops[OF assms(1) assms(2)[unfolded add_buffers_def]] .

lemma upcall_worker_setup_Inr:
  assumes "upcall_worker_setup m n sz = Inr w" "n < 2 ^ 31"
  shows "worker_wf w \<and> pool w = [] \<and> buf_max w = n \<and> recv_cnt w = n \<and>
    pending w = [zero_event\<lparr>ev_type := UP_VEC, ev_buf := Ptr (buffers_at w) 0, ev_len := n\<rparr>] \<and>
    buffers w = map (\<lambda>i. \<lparr>iov_base = Ptr (mem_bufs m i) 0, iov_len = sz\<rparr>) [0..<n]"
proof -
  let ?w0 = "\<lparr>work = replicate n zero_event, work_cnt = 0, work_max = n,
              receive = replicate n zero_event, recv_cnt = n,
              buffers = replicate n zero_iovec, buffers_at = mem_block m, buf_cnt = 0, buf_max = n\<rparr>"
  have n: "int_of_size n = int n" using assms(2) by (rule int_of_size_id)
  from assms(1) n obtain v where v: "fill_pool m sz ?w0 = Inr v"
    and w: "add_buffers m (Ptr (buffers_at v) 0) (buf_max v) (v\<lparr>buf_cnt := 0\<rparr>) = Inr w"
    by (auto simp: upcall_worker_setup_def Let_def split: if_splits)
  have fv: "same_batch ?w0 v" "buffers_at v = mem_block m" "buf_max v = n" "buf_cnt v = n"
    "length (buffers v) = n"
    "pool v = map (\<lambda>i. \<lparr>iov_base = Ptr (mem_bufs m i) 0, iov_len = sz\<rparr>) [0..<n]"
    using fill_pool_Inr[OF v] by (auto simp: pool_def)
  have wf: "worker_wf (v\<lparr>buf_cnt := 0\<rparr>)"
    using fv by (simp add: worker_wf_def same_batch_def)
  have "buffers v = pool v" using fv by (simp add: pool_def)
  moreover have "pending v = []" using fv(1) by (simp add: same_batch_def pending_def)
  ultimately show ?thesis using add_buffers_Inr[OF wf w] fv
    by (auto simp: pending_def pool_def same_pool_def same_batch_def)
qed

section \<open>Properties\<close>

text \<open>
  C23: Issuing any list of requests (reads, writes, accepts, closes) on a well-formed worker, each
  call under its own allocator, leaves the worker well-formed, appends exactly one event per
  request in program order behind those already pending (which are untouched, across any number
  of queue growths), each event saying what its request asked for, and does not touch the buffer
  pool or the receive array.
\<close>

theorem batch_keeps_program_order:
  assumes "worker_wf w" and "add_list add_request rs w = Inr w'"
  shows "worker_wf w' \<and> pool w' = pool w \<and> receive w' = receive w \<and>
    (\<exists>es. pending w' = pending w @ es \<and> list_all2 describes es (map snd rs))"
  using batch.add_list_inv[OF assms] batch.add_list_appends[OF assms] batch.add_list_keeps[OF assms]
  by simp

text \<open>An allocator that grants everything, for the witnesses.\<close>

definition roomy :: "'f mem_env" where
  "roomy = \<lparr>mem_ok = (\<lambda>_. True), mem_block = 7, mem_bufs = (\<lambda>i. 100 + i),
            stale_event = (\<lambda>i. zero_event\<lparr>ev_len := i\<rparr>), stale_iovec = (\<lambda>_. zero_iovec)\<rparr>"

definition small_worker :: "nat worker" where
  "small_worker =
     \<lparr>work = [zero_event\<lparr>ev_fd := 3\<rparr>], work_cnt = 1, work_max = 1,
      receive = [zero_event], recv_cnt = 1,
      buffers = [zero_iovec], buffers_at = 7, buf_cnt = 1, buf_max = 1\<rparr>"

lemma small_worker_wf: "worker_wf small_worker"
  by (simp add: worker_wf_def small_worker_def)

theorem batch_keeps_program_order_witness:
  "\<exists>w'. add_list add_request [(roomy, Read 5 (Some 1)), (roomy, Close 5)] small_worker = Inr w' \<and>
    worker_wf w' \<and> pool w' = pool small_worker \<and> receive w' = receive small_worker \<and>
    (\<exists>es. pending w' = pending small_worker @ es \<and>
       list_all2 describes es [Read 5 (Some 1), Close 5])"
proof -
  have "\<exists>w'. add_list add_request [(roomy, Read 5 (Some 1)), (roomy, Close 5)] small_worker = Inr w'"
    by (simp add: add_request_def add_read_def add_close_def next_slot_def fill_slot_def
        expand_queue_def small_worker_def roomy_def EVTS_def INT_MAX_def sizeof_up_event_def Let_def)
  then obtain w' where w': "add_list add_request [(roomy, Read 5 (Some 1)), (roomy, Close 5)] small_worker = Inr w'"
    by blast
  then show ?thesis using batch_keeps_program_order[OF small_worker_wf w'] by auto
qed

text \<open>
  Queueing a request never runs into undefined behaviour while the capacity fits an \<open>int\<close>:
  it either succeeds or ends in the \<open>exit(1)\<close> taken when \<open>realloc\<close> fails, and with memory
  available it succeeds.
\<close>

theorem add_request_outcomes:
  assumes "worker_wf w" and "int (work_max w + EVTS) \<le> INT_MAX"
  shows "(case add_request m r w of Inr w' \<Rightarrow> worker_wf w' | Inl e \<Rightarrow> e = Exit 1 \<and> work_cnt w = work_max w)
    \<and> (mem_ok m = (\<lambda>_. True) \<longrightarrow> (\<exists>w'. add_request m r w = Inr w'))"
proof -
  have "work_cnt w < work_max w \<Longrightarrow> \<exists>w'. add_request m r w = Inr w'"
    using fill_slot_append[OF assms(1), of "slot_of r"]
    by (auto simp: add_request_slot next_slot_def)
  then show ?thesis
    using assms add_request_stops[OF assms(1), of m r] add_request_Inr[OF assms(1), of m r]
      add_request_ok[OF assms, of m r]
    by (cases "add_request m r w") (fastforce simp: worker_wf_def)+
qed

theorem add_request_outcomes_witness:
  "\<exists>w'. add_request roomy (Accept 4 (Some 2)) small_worker = Inr w' \<and> worker_wf w'"
proof -
  have "int (work_max small_worker + EVTS) \<le> INT_MAX"
    by (simp add: small_worker_def EVTS_def INT_MAX_def)
  from add_request_outcomes[OF small_worker_wf this, of roomy "Accept 4 (Some 2)"]
  show ?thesis by (auto simp: roomy_def)
qed

text \<open>
  After \<open>upcall_worker_setup\<close> with a batch size that fits an \<open>int\<close>, the only pending request
  is one \<open>UP_VEC\<close>, the kernel finds behind it every one of the freshly allocated pool buffers
  exactly once and in order, and the pool the first event-loop round would hand over is empty: no
  buffer is submitted twice.
\<close>

theorem setup_hands_each_buffer_once:
  assumes "upcall_worker_setup m n sz = Inr w" and "n < 2 ^ 31"
  shows "worker_wf w \<and> recv_cnt w = n \<and> pool w = [] \<and> length (pending w) = 1 \<and>
    vecs w = map (\<lambda>i. \<lparr>iov_base = Ptr (mem_bufs m i) 0, iov_len = sz\<rparr>) [0..<n]"
  using upcall_worker_setup_Inr[OF assms] by (simp add: vecs_def vec_of_def)

theorem setup_hands_each_buffer_once_witness:
  "\<exists>w. upcall_worker_setup (roomy :: nat mem_env) 2 32 = Inr w \<and>
     vecs w = [\<lparr>iov_base = Ptr 100 0, iov_len = 32\<rparr>, \<lparr>iov_base = Ptr 101 0, iov_len = 32\<rparr>] \<and> pool w = []"
proof -
  have two: "(2::nat) < 2 ^ 31" by simp
  have two': "int_of_size 2 = 2" by (simp add: int_of_size_id)
  have "\<exists>w. upcall_worker_setup (roomy :: nat mem_env) 2 32 = Inr w"
    by (simp add: upcall_worker_setup_def two' fill_pool.simps roomy_def add_buffers_def next_slot_def
        fill_slot_def Let_def)
  then obtain w where w: "upcall_worker_setup (roomy :: nat mem_env) 2 32 = Inr w" by blast
  then show ?thesis using setup_hands_each_buffer_once[OF w two]
    by (simp add: roomy_def numeral_2_eq_2)
qed

text \<open>
  \<open>return_buffer\<close> on a pool of positive capacity appends exactly the returned buffer to the
  pool (doubling the array when it is full), keeps every buffer already there, and leaves the
  pending batch alone; it can only stop by the \<open>exit(1)\<close> of a failed \<open>realloc\<close> or by overflowing
  the \<open>int\<close> capacity.
\<close>

theorem return_buffer_appends:
  assumes "worker_wf w" and "0 < buf_max w"
  shows "case return_buffer m b n w of
      Inr w' \<Rightarrow> worker_wf w' \<and> pool w' = pool w @ [\<lparr>iov_base = b, iov_len = n\<rparr>] \<and>
                pending w' = pending w
    | Inl e \<Rightarrow> buf_cnt w = buf_max w \<and> (e = Exit 1 \<or> e = Fault IntOverflow \<and> int (buf_max w * 2) > INT_MAX)"
proof (cases "return_buffer m b n w")
  case (Inl e)
  then have "buf_cnt w = buf_max w"
    using assms by (auto simp: return_buffer_def worker_wf_def split: if_splits)
  with Inl return_buffer_stops[OF assms Inl] show ?thesis by simp
next
  case (Inr w')
  with return_buffer_Inr[OF assms Inr] show ?thesis by (simp add: same_batch_pending)
qed

theorem return_buffer_appends_witness:
  "\<exists>w'. return_buffer roomy (Ptr 55 0) 32 small_worker = Inr w' \<and>
     pool w' = [zero_iovec, \<lparr>iov_base = Ptr 55 0, iov_len = 32\<rparr>]"
proof -
  have "0 < buf_max small_worker" by (simp add: small_worker_def)
  moreover have "\<exists>w'. return_buffer roomy (Ptr 55 0) 32 small_worker = Inr w'"
    by (simp add: return_buffer_def grow_pool_def small_worker_def roomy_def INT_MAX_def Let_def)
  ultimately show ?thesis
    using return_buffer_appends[OF small_worker_wf, where m = roomy and b = "Ptr 55 0" and n = 32]
    by (auto simp: small_worker_def pool_def)
qed

end
