(* ===== verification/Batch_Stats.thy ===== *)
theory Batch_Stats
  imports Upcall_Prelude "HOL-Library.Signed_Division"
begin

text \<open>
  The opt-in statistics of libupcall (\<open>libupcall/upcall.c\<close>): the per-worker counter slots, the
  log2 bucketing of times, the CSV monitor and the control file.  \<open>g_batch_stats\<close> is one list of
  64-bit counters, \<open>n\<close> slots of \<open>stride\<close> cells; a worker's slot is
  [submits] [batch-size histogram] [user-time histogram] [kernel-time histogram] [padding].
\<close>

unbundle bit_operations_syntax

section \<open>Buckets\<close>

text \<open>\<open>__builtin_clzll\<close>: the number of leading zero bits (undefined for 0, which is guarded).\<close>

definition clz64 :: "u64 \<Rightarrow> nat" where
  "clz64 d = length (takeWhile Not (map (bit d) (rev [0..<64])))"

definition log2_bucket :: "u64 \<Rightarrow> int" where
  "log2_bucket d = (if d \<noteq> 0 then 63 - int (clz64 d) else 0)"

definition now_ns :: "nat \<Rightarrow> nat \<Rightarrow> u64" where
  "now_ns sec nsec = word_of_nat sec * 1000000000 + word_of_nat nsec"

record stats_cfg =
  batch_hist_len :: nat
  time_hist_len :: nat
  batch_stride :: nat

text \<open>The clamp applied to both time buckets.\<close>

definition time_bucket :: "stats_cfg \<Rightarrow> u64 \<Rightarrow> int" where
  "time_bucket c d =
     (if log2_bucket d \<ge> int_of_size (time_hist_len c)
      then int_of_size (time_hist_len c) - 1 else log2_bucket d)"

definition UPCALL_TIME_BUCKETS :: nat where "UPCALL_TIME_BUCKETS = 40"

definition UPCALL_CACHELINE :: nat where "UPCALL_CACHELINE = 64"

text \<open>The sizes \<open>upcall_init\<close> computes when \<open>UPCALL_BATCH_STATS\<close> is set; \<open>per_line\<close> is 8.\<close>

definition stride_of :: "u64 \<Rightarrow> u64" where
  "stride_of batch_sz =
     (let per_line = word_of_nat (UPCALL_CACHELINE div 8) :: u64;
          hist = batch_sz + 1; times = word_of_nat UPCALL_TIME_BUCKETS
      in ((1 + hist + 2 * times) + (per_line - 1)) AND NOT (per_line - 1))"

definition stats_cfg_of :: "nat \<Rightarrow> stats_cfg" where
  "stats_cfg_of batch_sz =
     \<lparr>batch_hist_len = unat (word_of_nat batch_sz + 1 :: u64),
      time_hist_len = UPCALL_TIME_BUCKETS,
      batch_stride = unat (stride_of (word_of_nat batch_sz))\<rparr>"

section \<open>A worker's slot\<close>

text \<open>\<open>my_batch_slot\<close> (\<open>None\<close> when the statistics are off) and the static \<open>proc_start\<close>.\<close>

record stats_tls =
  batch_slot :: "u64 list option"
  proc_start :: u64

definition incr :: "nat \<Rightarrow> u64 list \<Rightarrow> u64 list" where
  "incr i s = s[i := s ! i + 1]"

definition bump :: "int \<Rightarrow> u64 list \<Rightarrow> u64 list res" where
  "bump i s = (if 0 \<le> i \<and> i < int (length s) then Inr (incr (nat i) s)
               else Inl (Fault OutOfBounds))"

text \<open>
  The two instrumented spots of \<open>run_event_loop\<close>: before the submit (\<open>t0\<close> is the time read
  there) and after it (\<open>t1\<close>; \<open>ret\<close> is the number of completed events).
\<close>

definition note_utime :: "stats_cfg \<Rightarrow> u64 \<Rightarrow> stats_tls \<Rightarrow> stats_tls res" where
  "note_utime c t0 s =
     (case batch_slot s of
        None \<Rightarrow> Inr s
      | Some sl \<Rightarrow>
          if proc_start s = 0 then Inr s
          else rbind (bump (1 + int (batch_hist_len c) + time_bucket c (t0 - proc_start s)) sl)
                 (\<lambda>sl'. Inr (s\<lparr>batch_slot := Some sl'\<rparr>)))"

definition note_submit :: "stats_cfg \<Rightarrow> u64 \<Rightarrow> u64 \<Rightarrow> nat \<Rightarrow> stats_tls \<Rightarrow> stats_tls res" where
  "note_submit c t0 t1 ret s =
     (case batch_slot s of
        None \<Rightarrow> Inr s
      | Some sl \<Rightarrow>
          rbind (bump (1 + int (batch_hist_len c) + int (time_hist_len c) + time_bucket c (t1 - t0)) sl)
            (\<lambda>sl1. rbind (bump 0 sl1)
              (\<lambda>sl2. rbind (bump (1 + (if ret \<ge> batch_hist_len c then int (batch_hist_len c) - 1
                                       else int ret)) sl2)
                (\<lambda>sl3. Inr (s\<lparr>batch_slot := Some sl3, proc_start := t1\<rparr>)))))"

subsection \<open>Bucket bounds\<close>

lemma takeWhile_upt_rev:
  "takeWhile Not (map P (rev [0..<n])) = replicate (length (takeWhile Not (map P (rev [0..<n])))) False"
  by (metis (mono_tags, lifting) replicate_length_same set_takeWhileD)

lemma clz_prefix:
  assumes "k = length (takeWhile Not (map P (rev [0..<n])))"
  shows "k \<le> n \<and> (\<forall>i. n - k \<le> i \<and> i < n \<longrightarrow> \<not> P i) \<and> (k < n \<longrightarrow> P (n - Suc k))"
  using assms
proof (induction n arbitrary: k)
  case 0
  then show ?case by simp
next
  case (Suc n)
  show ?case
  proof (cases "P n")
    case True
    then show ?thesis using Suc.prems by auto
  next
    case False
    then obtain j where k: "k = Suc j" and j: "j = length (takeWhile Not (map P (rev [0..<n])))"
      using Suc.prems by simp
    show ?thesis using Suc.IH[OF j] False k by (auto simp: less_Suc_eq)
  qed
qed

lemma word_lt_if_high_bits_clear:
  fixes d :: u64
  assumes "\<And>i. m \<le> i \<Longrightarrow> i < 64 \<Longrightarrow> \<not> bit d i"
  shows "unat d < 2 ^ m"
proof -
  have "take_bit m d = d"
  proof (rule bit_word_eqI)
    fix n assume "n < LENGTH(64)"
    then show "bit (take_bit m d) n \<longleftrightarrow> bit d n"
      using assms[of n] by (cases "n < m") (auto simp: bit_take_bit_iff)
  qed
  then have "unat d = take_bit m (unat d)" by (metis unsigned_take_bit_eq)
  then show ?thesis by (metis take_bit_nat_less_exp)
qed

lemma word_ge_if_bit:
  fixes d :: u64
  assumes "bit d i" shows "2 ^ i \<le> unat d"
proof (rule ccontr)
  assume "\<not> 2 ^ i \<le> unat d"
  then have "unat d div 2 ^ i = 0" by simp
  moreover have "bit (unat d) i" using assms by (simp add: bit_unsigned_iff)
  ultimately show False by (simp add: bit_iff_odd)
qed

lemma clz64_bounds:
  assumes "d \<noteq> 0"
  shows "clz64 d < 64 \<and> 2 ^ (63 - clz64 d) \<le> unat d \<and> unat d < 2 ^ (64 - clz64 d)"
proof -
  have p: "clz64 d \<le> 64" "\<And>i. 64 - clz64 d \<le> i \<Longrightarrow> i < 64 \<Longrightarrow> \<not> bit d i"
    "clz64 d < 64 \<Longrightarrow> bit d (64 - Suc (clz64 d))"
    using clz_prefix[of "clz64 d" "bit d" 64] by (auto simp: clz64_def)
  have up: "unat d < 2 ^ (64 - clz64 d)" by (rule word_lt_if_high_bits_clear) (rule p(2))
  have "clz64 d \<noteq> 64"
  proof
    assume "clz64 d = 64"
    with up assms show False by (simp add: unat_eq_0)
  qed
  with p(1) have lt: "clz64 d < 64" by simp
  have "2 ^ (64 - Suc (clz64 d)) \<le> unat d" by (rule word_ge_if_bit) (rule p(3)[OF lt])
  with up lt show ?thesis by simp
qed

lemma log2_bucket_range: "0 \<le> log2_bucket d \<and> log2_bucket d \<le> 63"
  using clz64_bounds[of d] by (auto simp: log2_bucket_def)

lemma time_bucket_range:
  "0 < time_hist_len c \<Longrightarrow> time_hist_len c < 2 ^ 31 \<Longrightarrow>
     0 \<le> time_bucket c d \<and> time_bucket c d < int (time_hist_len c)"
  using log2_bucket_range[of d] by (auto simp: time_bucket_def int_of_size_id)

subsection \<open>Layout of the slots\<close>

lemma stride_of_unat:
  assumes "n < 2 ^ 62"
  shows "unat (stride_of (word_of_nat n)) = 8 * ((n + 89) div 8)"
proof -
  have x: "(1 + (word_of_nat n + 1) + 2 * word_of_nat UPCALL_TIME_BUCKETS) + (8 - 1 :: u64) = word_of_nat (n + 89)"
    by (simp add: UPCALL_TIME_BUCKETS_def)
  have "stride_of (word_of_nat n) = word_of_nat (n + 89) AND NOT (mask 3)"
    unfolding stride_of_def Let_def UPCALL_CACHELINE_def using x by (simp add: mask_eq_exp_minus_1 add.commute)
  also have "\<dots> = push_bit 3 (drop_bit 3 (word_of_nat (n + 89)))"
    by (rule bit_word_eqI) (auto simp: bit_simps)
  finally have "unat (stride_of (word_of_nat n)) = unat (push_bit 3 (drop_bit 3 (word_of_nat (n + 89) :: u64)))"
    by simp
  also have "\<dots> = 8 * ((n + 89) div 8)"
  proof -
    have lt: "n + 89 < 2 ^ 64" using assms by simp
    have "unat (drop_bit 3 (word_of_nat (n + 89) :: u64)) = (n + 89) div 8"
      using lt by (subst unsigned_drop_bit_eq)
        (simp add: unsigned_of_nat take_bit_nat_eq_self drop_bit_eq_div del: of_nat_add)
    then show ?thesis using assms
      by (simp add: push_bit_eq_mult unat_word_ariths mult.commute del: of_nat_add)
  qed
  finally show ?thesis .
qed

definition slot_size :: "stats_cfg \<Rightarrow> nat" where
  "slot_size c = 1 + batch_hist_len c + 2 * time_hist_len c"

definition cfg_wf :: "stats_cfg \<Rightarrow> bool" where
  "cfg_wf c \<longleftrightarrow> 0 < batch_hist_len c \<and> 0 < time_hist_len c \<and> time_hist_len c < 2 ^ 31 \<and>
     slot_size c \<le> batch_stride c"

lemma stats_cfg_of_simps:
  assumes "n < 2 ^ 62"
  shows "batch_hist_len (stats_cfg_of n) = n + 1" "time_hist_len (stats_cfg_of n) = 40"
    "batch_stride (stats_cfg_of n) = 8 * ((n + 89) div 8)"
proof -
  have "(word_of_nat n + 1 :: u64) = word_of_nat (n + 1)" by simp
  then show "batch_hist_len (stats_cfg_of n) = n + 1"
    using assms by (simp add: stats_cfg_of_def unsigned_of_nat take_bit_nat_eq_self del: of_nat_add of_nat_Suc)
qed (use assms in \<open>simp_all add: stats_cfg_of_def UPCALL_TIME_BUCKETS_def stride_of_unat\<close>)

lemma stats_cfg_of_wf: "n < 2 ^ 62 \<Longrightarrow> cfg_wf (stats_cfg_of n)"
  by (simp add: cfg_wf_def slot_size_def stats_cfg_of_simps)

subsection \<open>Counting\<close>

text \<open>The sum of the \<open>n\<close> counters from cell \<open>lo\<close>.\<close>

definition region :: "nat \<Rightarrow> nat \<Rightarrow> u64 list \<Rightarrow> u64" where
  "region lo n sl = sum_list (take n (drop lo sl))"

lemma sum_list_bump:
  "k < length xs \<Longrightarrow> sum_list (xs[k := xs ! k + 1]) = sum_list xs + (1 :: u64)"
  by (induction xs arbitrary: k) (auto simp: nth_Cons split: nat.splits)

lemma region_bump:
  assumes "i < length sl" "lo + n \<le> length sl"
  shows "region lo n (incr i sl) = region lo n sl + (if lo \<le> i \<and> i < lo + n then 1 else 0)"
proof (cases "lo \<le> i \<and> i < lo + n")
  case True
  then have e: "take n (drop lo sl) ! (i - lo) = sl ! i"
    using assms by auto
  from True have "take n (drop lo (sl[i := sl ! i + 1])) = (take n (drop lo sl))[i - lo := take n (drop lo sl) ! (i - lo) + 1]"
    unfolding e using assms by (simp add: drop_update_swap take_update_swap)
  moreover have "i - lo < length (take n (drop lo sl))" using True assms by auto
  ultimately show ?thesis using True by (simp only: region_def incr_def sum_list_bump) simp
next
  case False
  then have "take n (drop lo (sl[i := sl ! i + 1])) = take n (drop lo sl)"
    by (cases "i < lo") (auto simp: drop_update_swap take_update_cancel drop_update_cancel)
  with False show ?thesis by (simp only: region_def incr_def if_False) simp
qed

lemma length_incr [simp]: "length (incr i sl) = length sl"
  by (simp add: incr_def)

lemma incr_nth: "k < length sl \<Longrightarrow> incr i sl ! k = (if k = i then sl ! k + 1 else sl ! k)"
  by (auto simp: incr_def nth_list_update)

lemma bump_Inr:
  assumes "0 \<le> i" "i < int (length sl)"
  shows "bump i sl = Inr (incr (nat i) sl)"
  using assms by (simp add: bump_def)

definition submits :: "u64 list \<Rightarrow> u64" where
  "submits sl = sl ! 0"

definition batch_total :: "stats_cfg \<Rightarrow> u64 list \<Rightarrow> u64" where
  "batch_total c = region 1 (batch_hist_len c)"

definition utime_total :: "stats_cfg \<Rightarrow> u64 list \<Rightarrow> u64" where
  "utime_total c = region (1 + batch_hist_len c) (time_hist_len c)"

definition ktime_total :: "stats_cfg \<Rightarrow> u64 list \<Rightarrow> u64" where
  "ktime_total c = region (1 + batch_hist_len c + time_hist_len c) (time_hist_len c)"

lemma note_submit_counts:
  assumes c: "cfg_wf c" "length sl = batch_stride c" and s: "batch_slot s = Some sl"
  obtains sl' where "note_submit c t0 t1 ret s = Inr (s\<lparr>batch_slot := Some sl', proc_start := t1\<rparr>)"
    "length sl' = length sl" "submits sl' = submits sl + 1"
    "batch_total c sl' = batch_total c sl + 1" "ktime_total c sl' = ktime_total c sl + 1"
    "utime_total c sl' = utime_total c sl"
proof -
  have len: "1 + batch_hist_len c + 2 * time_hist_len c \<le> length sl" "0 < batch_hist_len c"
    using c by (auto simp: cfg_wf_def slot_size_def)
  have tb: "0 \<le> time_bucket c d \<and> time_bucket c d < int (time_hist_len c)" for d
    using c time_bucket_range by (auto simp: cfg_wf_def)
  define i where "i = nat (1 + int (batch_hist_len c) + int (time_hist_len c) + time_bucket c (t1 - t0))"
  define j where "j = 1 + (if ret \<ge> batch_hist_len c then batch_hist_len c - 1 else ret)"
  have ei: "1 + int (batch_hist_len c) + int (time_hist_len c) + time_bucket c (t1 - t0) = int i"
    using tb[of "t1 - t0"] by (simp add: i_def)
  have ej: "1 + (if ret \<ge> batch_hist_len c then int (batch_hist_len c) - 1 else int ret) = int j"
    using len by (simp add: j_def)
  have i: "1 + batch_hist_len c + time_hist_len c \<le> i" "i < 1 + batch_hist_len c + 2 * time_hist_len c"
    "i < length sl" using tb[of "t1 - t0"] ei len by linarith+
  have j: "1 \<le> j" "j < 1 + batch_hist_len c" "j < length sl" using len by (auto simp: j_def)
  have ne: "sl \<noteq> []" using i by auto
  let ?d = "incr j (incr 0 (incr i sl))"
  have "note_submit c t0 t1 ret s = Inr (s\<lparr>batch_slot := Some ?d, proc_start := t1\<rparr>)"
    unfolding note_submit_def s option.case ei ej using i j len ne by (simp add: bump_Inr)
  moreover have "submits ?d = submits sl + 1"
    using i j len ne by (auto simp: submits_def incr_nth)
  moreover have "batch_total c ?d = batch_total c sl + 1"
    unfolding batch_total_def using i j len ne by (simp add: region_bump)
  moreover have "ktime_total c ?d = ktime_total c sl + 1" "utime_total c ?d = utime_total c sl"
    unfolding ktime_total_def utime_total_def
    using i j len ne by (simp_all add: region_bump)
  ultimately show thesis by (intro that[of ?d]) auto
qed

lemma note_utime_counts:
  assumes c: "cfg_wf c" "length sl = batch_stride c" and s: "batch_slot s = Some sl"
  obtains sl' where "note_utime c t0 s = Inr (s\<lparr>batch_slot := Some sl'\<rparr>)"
    "length sl' = length sl" "submits sl' = submits sl" "batch_total c sl' = batch_total c sl"
    "ktime_total c sl' = ktime_total c sl"
    "utime_total c sl' = utime_total c sl + (if proc_start s = 0 then 0 else 1)"
proof (cases "proc_start s = 0")
  case True
  then show thesis using s by (intro that[of sl]) (simp_all add: note_utime_def)
next
  case False
  have len: "1 + batch_hist_len c + 2 * time_hist_len c \<le> length sl"
    using c by (auto simp: cfg_wf_def slot_size_def)
  let ?tb = "time_bucket c (t0 - proc_start s)"
  have tb: "0 \<le> ?tb \<and> ?tb < int (time_hist_len c)"
    using c time_bucket_range by (auto simp: cfg_wf_def)
  define i where "i = nat (1 + int (batch_hist_len c) + ?tb)"
  have ei: "1 + int (batch_hist_len c) + ?tb = int i" using tb by (simp add: i_def)
  have i: "1 + batch_hist_len c \<le> i" "i < 1 + batch_hist_len c + time_hist_len c" "i < length sl"
    using tb ei len by linarith+
  have ne: "sl \<noteq> []" using i by auto
  have "note_utime c t0 s = Inr (s\<lparr>batch_slot := Some (incr i sl)\<rparr>)"
    unfolding note_utime_def s option.case ei using False i by (simp add: bump_Inr)
  moreover have "submits (incr i sl) = submits sl" using i ne by (auto simp: submits_def incr_nth)
  moreover have "batch_total c (incr i sl) = batch_total c sl" "ktime_total c (incr i sl) = ktime_total c sl"
    "utime_total c (incr i sl) = utime_total c sl + 1"
    unfolding batch_total_def ktime_total_def utime_total_def
    using i len by (simp_all add: region_bump)
  ultimately show thesis using False by (intro that[of "incr i sl"]) auto
qed

text \<open>The instrumentation of consecutive loop rounds; a round is \<open>(t0, t1, ret)\<close>.\<close>

definition stats_round :: "stats_cfg \<Rightarrow> u64 \<times> u64 \<times> nat \<Rightarrow> stats_tls \<Rightarrow> stats_tls res" where
  "stats_round c r s = (case r of (t0, t1, ret) \<Rightarrow>
     rbind (note_utime c t0 s) (note_submit c t0 t1 ret))"

fun stats_rounds :: "stats_cfg \<Rightarrow> (u64 \<times> u64 \<times> nat) list \<Rightarrow> stats_tls \<Rightarrow> stats_tls res" where
  "stats_rounds c [] s = Inr s"
| "stats_rounds c (r # rs) s = rbind (stats_round c r s) (stats_rounds c rs)"

lemma stats_round_counts:
  assumes c: "cfg_wf c" "length sl = batch_stride c" and s: "batch_slot s = Some sl"
  obtains sl' where "stats_round c (t0, t1, ret) s = Inr (s\<lparr>batch_slot := Some sl', proc_start := t1\<rparr>)"
    "length sl' = length sl" "submits sl' = submits sl + 1" "batch_total c sl' = batch_total c sl + 1"
    "ktime_total c sl' = ktime_total c sl + 1"
    "utime_total c sl' = utime_total c sl + (if proc_start s = 0 then 0 else 1)"
proof -
  obtain sl1 where 1: "note_utime c t0 s = Inr (s\<lparr>batch_slot := Some sl1\<rparr>)" "length sl1 = length sl"
    "submits sl1 = submits sl" "batch_total c sl1 = batch_total c sl" "ktime_total c sl1 = ktime_total c sl"
    "utime_total c sl1 = utime_total c sl + (if proc_start s = 0 then 0 else 1)"
    by (rule note_utime_counts[OF c s])
  have p: "length sl1 = batch_stride c" "batch_slot (s\<lparr>batch_slot := Some sl1\<rparr>) = Some sl1"
    using c 1 by simp_all
  have "\<exists>sl2. note_submit c t0 t1 ret (s\<lparr>batch_slot := Some sl1\<rparr>) =
      Inr (s\<lparr>batch_slot := Some sl2, proc_start := t1\<rparr>) \<and> length sl2 = length sl1 \<and>
    submits sl2 = submits sl1 + 1 \<and> batch_total c sl2 = batch_total c sl1 + 1 \<and>
    ktime_total c sl2 = ktime_total c sl1 + 1 \<and> utime_total c sl2 = utime_total c sl1"
    by (rule note_submit_counts[OF c(1) p, of t0 t1 ret]) auto
  then obtain sl2 where 2: "note_submit c t0 t1 ret (s\<lparr>batch_slot := Some sl1\<rparr>) =
      Inr (s\<lparr>batch_slot := Some sl2, proc_start := t1\<rparr>)" "length sl2 = length sl1"
    "submits sl2 = submits sl1 + 1" "batch_total c sl2 = batch_total c sl1 + 1"
    "ktime_total c sl2 = ktime_total c sl1 + 1" "utime_total c sl2 = utime_total c sl1" by blast
  show thesis by (rule that[of sl2]) (use 1 2 in \<open>simp_all add: stats_round_def\<close>)
qed

lemma stats_rounds_counts:
  assumes "cfg_wf c" "length sl = batch_stride c" "batch_slot s = Some sl"
    "\<forall>(t0, t1, ret) \<in> set rs. t1 \<noteq> 0"
  shows "\<exists>s' sl'. stats_rounds c rs s = Inr s' \<and> batch_slot s' = Some sl' \<and> length sl' = length sl \<and>
    submits sl' = submits sl + word_of_nat (length rs) \<and>
    batch_total c sl' = batch_total c sl + word_of_nat (length rs) \<and>
    ktime_total c sl' = ktime_total c sl + word_of_nat (length rs) \<and>
    utime_total c sl' = utime_total c sl +
      word_of_nat (if proc_start s = 0 then length rs - 1 else length rs)"
  using assms
proof (induction rs arbitrary: s sl)
  case Nil
  then show ?case by simp
next
  case (Cons r rs)
  obtain t0 t1 ret where r: "r = (t0, t1, ret)" by (cases r)
  obtain sl1 where 1: "stats_round c (t0, t1, ret) s = Inr (s\<lparr>batch_slot := Some sl1, proc_start := t1\<rparr>)"
    "length sl1 = length sl" "submits sl1 = submits sl + 1" "batch_total c sl1 = batch_total c sl + 1"
    "ktime_total c sl1 = ktime_total c sl + 1"
    "utime_total c sl1 = utime_total c sl + (if proc_start s = 0 then 0 else 1)"
    by (rule stats_round_counts[OF Cons.prems(1-3)])
  have t1: "t1 \<noteq> 0" using Cons.prems(4) by (simp add: r)
  have "length sl1 = batch_stride c" "\<forall>(t0, t1, ret) \<in> set rs. t1 \<noteq> 0"
    using 1 Cons.prems by simp_all
  from Cons.IH[OF Cons.prems(1) this(1) _ this(2), of "s\<lparr>batch_slot := Some sl1, proc_start := t1\<rparr>"] t1 1
  show ?case by (auto simp: r algebra_simps)
qed

section \<open>The control file\<close>

text \<open>\<open>sscanf(s, "%<k>s", path)\<close>: the next word, at most \<open>k\<close> characters of it.\<close>

definition scan_word :: "nat \<Rightarrow> string \<Rightarrow> string option" where
  "scan_word k s =
     (let t = dropWhile is_space s in
      if t = [] then None else Some (take k (takeWhile (\<lambda>c. \<not> is_space c) t)))"

text \<open>One counter summed over the slots of all workers.\<close>

definition col_sum :: "nat \<Rightarrow> nat \<Rightarrow> nat \<Rightarrow> u64 list \<Rightarrow> u64" where
  "col_sum n stride i stats = sum_list (map (\<lambda>w. stats ! (w * stride + i)) [0..<n])"

definition dump_line :: "nat \<Rightarrow> u64 \<Rightarrow> string" where
  "dump_line k c = (if c \<noteq> 0 then show_nat k @ '' '' @ show_nat (unat c) @ [newline] else [])"

definition dump_text :: "stats_cfg \<Rightarrow> nat \<Rightarrow> u64 list \<Rightarrow> string" where
  "dump_text c n stats =
     (let h = batch_hist_len c; t = time_hist_len c; col = (\<lambda>i. col_sum n (batch_stride c) i stats);
          upper = (\<lambda>b. unat (push_bit (b + 1) 1 :: u64))
      in ''=utime upper_ns count'' @ [newline]
         @ concat (map (\<lambda>b. dump_line (upper b) (col (1 + h + b))) [0..<t])
         @ ''=ktime upper_ns count'' @ [newline]
         @ concat (map (\<lambda>b. dump_line (upper b) (col (1 + h + t + b))) [0..<t])
         @ ''=batch size count'' @ [newline]
         @ concat (map (\<lambda>b. dump_line b (col (1 + b))) [0..<h]))"

text \<open>
  \<open>batch_ctl_poll\<close>: \<open>ctl_last\<close> is the C string in the static \<open>last\<close>; \<open>file\<close> is what the control
  file holds (\<open>None\<close> when it cannot be opened) and \<open>can_open\<close> says which dump paths can be
  created.  The last result is the file written, if any.
\<close>

record ctl_state =
  ctl_last :: string
  ctl_stats :: "u64 list"
  ctl_prev :: "u64 list"

definition zero_cells :: "nat \<Rightarrow> u64 list \<Rightarrow> u64 list" where
  "zero_cells k xs = replicate k 0 @ drop k xs"

definition batch_ctl_poll ::
  "stats_cfg \<Rightarrow> nat \<Rightarrow> string option \<Rightarrow> (string \<Rightarrow> bool) \<Rightarrow> ctl_state \<Rightarrow> ctl_state \<times> (string \<times> string) option"
where
  "batch_ctl_poll c n file can_open s =
     (case file of
        None \<Rightarrow> (s, None)
      | Some content \<Rightarrow>
          let cmd = c_str (take 255 content) in
          if cmd = ctl_last s then (s, None)
          else let s = s\<lparr>ctl_last := cmd\<rparr> in
            if take 5 cmd = ''reset''
            then (s\<lparr>ctl_stats := zero_cells (n * batch_stride c) (ctl_stats s),
                    ctl_prev := zero_cells (n * batch_stride c) (ctl_prev s)\<rparr>, None)
            else if take 5 cmd = ''dump '' then
              (case scan_word 199 (drop 5 cmd) of
                 None \<Rightarrow> (s, None)
               | Some path \<Rightarrow> if can_open path
                               then (s, Some (path, dump_text c n (ctl_stats s))) else (s, None))
            else (s, None))"

section \<open>The CSV monitor\<close>

definition monitor_interval :: "string option \<Rightarrow> int" where
  "monitor_interval iv =
     (case iv of None \<Rightarrow> 100 | Some v \<Rightarrow> if strtol10 v > 0 then strtol10 v else 100)"

text \<open>The \<open>struct timespec\<close> slept for: seconds and nanoseconds.\<close>

definition sleep_request :: "int \<Rightarrow> int \<times> int" where
  "sleep_request ms = (ms sdiv 1000, (ms smod 1000) * 1000000)"

definition elapsed_ms :: "int \<times> int \<Rightarrow> int \<times> int \<Rightarrow> int" where
  "elapsed_ms start now =
     (fst now - fst start) * 1000 + (snd now - snd start) sdiv 1000000"

definition monitor_header :: "stats_cfg \<Rightarrow> string" where
  "monitor_header c =
     ''time_ms,worker,submits''
     @ concat (map (\<lambda>b. '',h'' @ show_nat b) [0..<batch_hist_len c])
     @ concat (map (\<lambda>b. '',t'' @ show_nat b) [0..<time_hist_len c])
     @ concat (map (\<lambda>b. '',k'' @ show_nat b) [0..<time_hist_len c]) @ [newline]"

text \<open>The deltas of one worker, in the order they are printed.\<close>

definition row_counts :: "stats_cfg \<Rightarrow> u64 list \<Rightarrow> u64 list \<Rightarrow> u64 list" where
  "row_counts c cur pv =
     (cur ! 0 - pv ! 0)
     # map (\<lambda>b. cur ! (1 + b) - pv ! (1 + b)) [0..<batch_hist_len c]
     @ map (\<lambda>b. let i = 1 + batch_hist_len c + b in cur ! i - pv ! i) [0..<time_hist_len c]
     @ map (\<lambda>b. let i = 1 + batch_hist_len c + time_hist_len c + b in cur ! i - pv ! i)
         [0..<time_hist_len c]"

definition monitor_row :: "int \<Rightarrow> nat \<Rightarrow> u64 list \<Rightarrow> string" where
  "monitor_row tms w counts =
     show_int tms @ '','' @ show_nat w @ concat (map (\<lambda>v. '','' @ show_nat (unat v)) counts) @ [newline]"

text \<open>The slot of worker \<open>w\<close> in the array of all slots.\<close>

definition worker_slot :: "stats_cfg \<Rightarrow> nat \<Rightarrow> 'a list \<Rightarrow> 'a list" where
  "worker_slot c w stats = take (batch_stride c) (drop (w * batch_stride c) stats)"

text \<open>
  One round of the monitor loop.  The counters are read twice, once when the row is printed
  (\<open>seen\<close>) and once when the baseline is saved (\<open>saved\<close>); the workers keep counting in between.
\<close>

definition monitor_tick ::
  "stats_cfg \<Rightarrow> nat \<Rightarrow> int \<Rightarrow> u64 list \<Rightarrow> u64 list \<Rightarrow> u64 list \<Rightarrow> string \<times> u64 list" where
  "monitor_tick c n tms seen saved prev =
     (concat (map (\<lambda>w. monitor_row tms w (row_counts c (worker_slot c w seen) (worker_slot c w prev))) [0..<n]),
      map (\<lambda>i. saved ! i) [0..<n * batch_stride c])"

text \<open>The counts that successive ticks print for one worker.\<close>

fun ticks_counts ::
  "stats_cfg \<Rightarrow> nat \<Rightarrow> nat \<Rightarrow> (int \<times> u64 list \<times> u64 list) list \<Rightarrow> u64 list \<Rightarrow> u64 list list" where
  "ticks_counts c n w [] prev = []"
| "ticks_counts c n w ((tms, seen, saved) # ts) prev =
     row_counts c (worker_slot c w seen) (worker_slot c w prev)
     # ticks_counts c n w ts (snd (monitor_tick c n tms seen saved prev))"

lemma length_row_counts [simp]: "length (row_counts c cur pv) = slot_size c"
  by (simp add: row_counts_def slot_size_def)

lemma row_counts_nth:
  assumes "k < slot_size c"
  shows "row_counts c cur pv ! k = cur ! k - pv ! k"
proof -
  consider "k = 0" | "1 \<le> k" "k < 1 + batch_hist_len c"
    | "1 + batch_hist_len c \<le> k" "k < 1 + batch_hist_len c + time_hist_len c"
    | "1 + batch_hist_len c + time_hist_len c \<le> k"
    by linarith
  then show ?thesis
  proof cases
    case 1
    then show ?thesis by (simp add: row_counts_def)
  next
    case 2
    then have "k - 1 < batch_hist_len c" by linarith
    with 2 show ?thesis by (simp add: row_counts_def nth_Cons' nth_append)
  next
    case 3
    then have "k - 1 - batch_hist_len c < time_hist_len c" "\<not> k - 1 < batch_hist_len c" by linarith+
    with 3 show ?thesis by (simp add: row_counts_def nth_Cons' nth_append Let_def)
  next
    case 4
    then have "k - 1 - batch_hist_len c - time_hist_len c < time_hist_len c" "\<not> k - 1 < batch_hist_len c"
      "\<not> k - 1 - batch_hist_len c < time_hist_len c" using assms by (auto simp: slot_size_def)
    with 4 show ?thesis by (simp add: row_counts_def nth_Cons' nth_append Let_def)
  qed
qed

lemma worker_slot_nth:
  assumes "length stats = n * batch_stride c" "w < n" "k < batch_stride c"
  shows "worker_slot c w stats ! k = stats ! (w * batch_stride c + k)"
proof -
  have "Suc w * batch_stride c \<le> n * batch_stride c" using assms(2) by (intro mult_le_mono1) simp
  then show ?thesis using assms by (simp add: worker_slot_def)
qed

text \<open>Commas separate the columns.\<close>

definition commas :: "string \<Rightarrow> nat" where
  "commas s = length (filter (\<lambda>c. c = CHR '','') s)"

lemma commas_append [simp]: "commas (s @ t) = commas s + commas t"
  by (simp add: commas_def)

lemma commas_show_nat [simp]: "commas (show_nat n) = 0"
proof -
  have "\<forall>c \<in> set (show_nat n). is_digit c" using show_nat_digits[of n] by (simp add: list_all_iff)
  then have "\<forall>c \<in> set (show_nat n). c \<noteq> CHR '',''" by (auto simp: is_digit_def)
  then show ?thesis by (simp add: commas_def filter_empty_conv)
qed

lemma commas_Cons [simp]: "commas (x # s) = (if x = CHR '','' then 1 else 0) + commas s"
  by (simp add: commas_def)

lemma commas_Nil [simp]: "commas [] = 0"
  by (simp add: commas_def)

lemma commas_show_int [simp]: "commas (show_int i) = 0"
  by (simp add: show_int_def)

lemma commas_columns:
  "x \<noteq> CHR '','' \<Longrightarrow> commas (concat (map (\<lambda>b. CHR '','' # x # show_nat (f b)) bs)) = length bs"
  by (induction bs) simp_all

lemma commas_cells: "commas (concat (map (\<lambda>v. CHR '','' # show_nat (f v)) vs)) = length vs"
  by (induction vs) simp_all

section \<open>Properties\<close>

text \<open>
  The buckets are what the comments say, log2 of the nanoseconds: a nonzero time in bucket
  \<open>b\<close> lies in [2^b, 2^(b+1)), and the clamp only moves times of 2^40 ns and more into the last of
  the 40 buckets.
\<close>

theorem time_bucket_is_log2:
  assumes "d \<noteq> 0" and "time_hist_len c = UPCALL_TIME_BUCKETS"
  shows "\<exists>b. log2_bucket d = int b \<and> 2 ^ b \<le> unat d \<and> unat d < 2 ^ (b + 1) \<and>
     time_bucket c d = int (min b 39)"
proof -
  let ?b = "63 - clz64 d"
  have b: "clz64 d < 64" "2 ^ ?b \<le> unat d" "unat d < 2 ^ (64 - clz64 d)"
    using clz64_bounds[OF assms(1)] by auto
  then have e: "64 - clz64 d = ?b + 1" by simp
  have "log2_bucket d = int ?b" using assms(1) b(1) by (simp add: log2_bucket_def of_nat_diff)
  moreover have "int_of_size 40 = 40" using int_of_size_id[of 40] by simp
  ultimately show ?thesis using b assms(2) unfolding e
    by (intro exI[of _ ?b]) (auto simp: time_bucket_def UPCALL_TIME_BUCKETS_def)
qed

theorem time_bucket_is_log2_witness:
  "\<exists>b. log2_bucket 1000 = int b \<and> 2 ^ b \<le> unat (1000 :: u64) \<and> unat (1000 :: u64) < 2 ^ (b + 1) \<and>
     time_bucket (stats_cfg_of 32) 1000 = int (min b 39)"
  by (rule time_bucket_is_log2) (simp_all add: stats_cfg_of_def)

text \<open>
  The slots \<open>upcall_init\<close> lays out fit the counters and never share a cache line: the stride
  is a multiple of 8 counters (64 bytes), holds 1 + (batch_sz + 1) + 2 * 40 of them with less than
  a cache line of padding, and the cells of two different workers are disjoint.
\<close>

theorem stats_slots_padded:
  assumes "n < 2 ^ 62"
  shows "cfg_wf (stats_cfg_of n) \<and> batch_stride (stats_cfg_of n) mod 8 = 0 \<and>
     slot_size (stats_cfg_of n) = n + 82 \<and> batch_stride (stats_cfg_of n) < slot_size (stats_cfg_of n) + 8 \<and>
     (\<forall>v w i j. v \<noteq> w \<longrightarrow> i < batch_stride (stats_cfg_of n) \<longrightarrow> j < batch_stride (stats_cfg_of n) \<longrightarrow>
        v * batch_stride (stats_cfg_of n) + i \<noteq> w * batch_stride (stats_cfg_of n) + j)"
proof -
  let ?s = "batch_stride (stats_cfg_of n)"
  have disj: "v * ?s + i \<noteq> w * ?s + j" if "v \<noteq> w" "i < ?s" "j < ?s" for v w i j
    using that by (metis div_mult_self3 div_less add.right_neutral less_nat_zero_code)
  have sz: "slot_size (stats_cfg_of n) = n + 82" "?s = 8 * ((n + 89) div 8)"
    using stats_cfg_of_simps[OF assms] by (simp_all add: slot_size_def)
  have "?s mod 8 = 0" using sz(2) by simp
  moreover have "?s < slot_size (stats_cfg_of n) + 8"
    using sz by linarith
  ultimately show ?thesis using stats_cfg_of_wf[OF assms] disj sz by blast
qed

theorem stats_slots_padded_witness:
  "slot_size (stats_cfg_of 32) = 114 \<and> batch_stride (stats_cfg_of 32) mod 8 = 0"
  using stats_slots_padded[of 32] by simp

text \<open>
  C29: After any sequence of instrumented loop rounds on a cleared slot, whatever the clock and the
  kernel returned, no counter outside the slot was touched and the statistics agree with each
  other: the submit counter, the sum of the batch-size histogram and the sum of the kernel-time
  histogram all equal the number of rounds, and the user-time histogram has one entry less (the
  first round has no previous one to time).
\<close>

theorem stats_histograms_agree:
  assumes "n < 2 ^ 62" and "\<forall>(t0, t1, ret) \<in> set rs. t1 \<noteq> 0"
  shows "\<exists>s sl. stats_rounds (stats_cfg_of n) rs
        \<lparr>batch_slot = Some (replicate (batch_stride (stats_cfg_of n)) 0), proc_start = 0\<rparr> = Inr s \<and>
      batch_slot s = Some sl \<and> length sl = batch_stride (stats_cfg_of n) \<and>
      submits sl = word_of_nat (length rs) \<and>
      batch_total (stats_cfg_of n) sl = word_of_nat (length rs) \<and>
      ktime_total (stats_cfg_of n) sl = word_of_nat (length rs) \<and>
      utime_total (stats_cfg_of n) sl = word_of_nat (length rs - 1)"
proof -
  let ?c = "stats_cfg_of n"
  let ?z = "replicate (batch_stride ?c) (0 :: u64)"
  have wf: "cfg_wf ?c" using assms(1) by (rule stats_cfg_of_wf)
  then have "0 < batch_stride ?c" by (simp add: cfg_wf_def slot_size_def)
  then have z: "submits ?z = 0" "batch_total ?c ?z = 0" "ktime_total ?c ?z = 0" "utime_total ?c ?z = 0"
    by (simp_all add: submits_def batch_total_def ktime_total_def utime_total_def region_def sum_list_replicate)
  show ?thesis
    using stats_rounds_counts[OF wf _ _ assms(2), of ?z "\<lparr>batch_slot = Some ?z, proc_start = 0\<rparr>"] z
    by simp
qed

theorem stats_histograms_agree_witness:
  "\<exists>s sl. stats_rounds (stats_cfg_of 32) [(5, 9, 3), (20, 30, 40)]
        \<lparr>batch_slot = Some (replicate (batch_stride (stats_cfg_of 32)) 0), proc_start = 0\<rparr> = Inr s \<and>
      batch_slot s = Some sl \<and> submits sl = 2 \<and> batch_total (stats_cfg_of 32) sl = 2 \<and>
      utime_total (stats_cfg_of 32) sl = 1"
proof -
  have "(32::nat) < 2 ^ 62" "\<forall>(t0, t1, ret) \<in> set [(5 :: u64, 9 :: u64, 3 :: nat), (20, 30, 40)]. t1 \<noteq> 0"
    by simp_all
  from stats_histograms_agree[OF this] show ?thesis by auto
qed

text \<open>
  A control command acts once: polling again while the control file is unchanged does nothing,
  and a \<open>reset\<close> clears every counter together with the monitor's baseline, so the next deltas
  count from the reset and cannot underflow.
\<close>

theorem ctl_poll_once:
  assumes "length (ctl_stats s) = n * batch_stride c" and "length (ctl_prev s) = n * batch_stride c"
    and "batch_ctl_poll c n (Some file) can_open s = (s', out)"
  shows "batch_ctl_poll c n (Some file) can_open' s' = (s', None) \<and>
     length (ctl_stats s') = n * batch_stride c \<and>
     (s' \<noteq> s \<and> take 5 (c_str (take 255 file)) = ''reset'' \<longrightarrow>
        ctl_stats s' = replicate (n * batch_stride c) 0 \<and> ctl_prev s' = ctl_stats s' \<and> out = None) \<and>
     (\<forall>path text. out = Some (path, text) \<longrightarrow> length path \<le> 199 \<and> text = dump_text c n (ctl_stats s))"
proof -
  have "length path \<le> 199" if "scan_word 199 t = Some path" for t path
    using that by (auto simp: scan_word_def Let_def split: if_splits)
  then show ?thesis using assms
    by (auto simp: batch_ctl_poll_def zero_cells_def Let_def split: if_splits option.splits)
qed

theorem ctl_poll_once_witness:
  "batch_ctl_poll (stats_cfg_of 2) 1 (Some ''reset a'') (\<lambda>_. True)
     \<lparr>ctl_last = ''reset a'', ctl_stats = replicate 88 0, ctl_prev = replicate 88 0\<rparr> =
     (\<lparr>ctl_last = ''reset a'', ctl_stats = replicate 88 0, ctl_prev = replicate 88 0\<rparr>, None)"
proof -
  let ?s = "\<lparr>ctl_last = [], ctl_stats = replicate 88 7, ctl_prev = replicate 88 3\<rparr>"
  let ?t = "\<lparr>ctl_last = ''reset a'', ctl_stats = replicate 88 0, ctl_prev = replicate 88 0\<rparr>"
  have st: "batch_stride (stats_cfg_of 2) = 88" using stats_cfg_of_simps(3)[of 2] by simp
  have "batch_ctl_poll (stats_cfg_of 2) 1 (Some ''reset a'') (\<lambda>_. True) ?s = (?t, None)"
    by (simp add: batch_ctl_poll_def st zero_cells_def c_str_def Let_def)
  from ctl_poll_once[OF _ _ this] show ?thesis by (simp add: st)
qed

text \<open>
  The CSV is rectangular: every row the monitor prints has as many columns as the header,
  namely 3 + (batch_sz + 1) + 2 * 40, whatever the counters are.
\<close>

theorem monitor_csv_rectangular:
  "commas (monitor_row tms w (row_counts c cur pv)) = commas (monitor_header c) \<and>
   commas (monitor_header c) = 2 + batch_hist_len c + 2 * time_hist_len c"
  by (simp add: monitor_row_def monitor_header_def commas_columns commas_cells slot_size_def newline_def)

lemma ticks_counts_sum:
  assumes "w < n" "k < slot_size c" "slot_size c \<le> batch_stride c"
    and "\<forall>(tms, seen, saved) \<in> set ts. length seen = n * batch_stride c \<and> length saved = n * batch_stride c"
    and "length prev = n * batch_stride c" and i: "i = w * batch_stride c + k"
  shows "sum_list (map (\<lambda>row. row ! k) (ticks_counts c n w ts prev)) =
    (if ts = [] then 0 else snd (snd (last ts)) ! i - prev ! i)
    - (\<Sum>(tms, seen, saved) \<leftarrow> ts. saved ! i - seen ! i)"
  using assms(4,5)
proof (induction ts arbitrary: prev)
  case Nil
  then show ?case by simp
next
  case (Cons t ts)
  obtain tms seen saved where t: "t = (tms, seen, saved)" by (cases t)
  have len: "length seen = n * batch_stride c" "length saved = n * batch_stride c"
    using Cons.prems(1) by (auto simp: t)
  have kb: "k < batch_stride c" using assms(2,3) by simp
  have prev': "map ((!) saved) [0..<n * batch_stride c] = saved"
    using len(2) map_nth[of saved] by simp
  have rest: "\<forall>(tms, seen, saved) \<in> set ts. length seen = n * batch_stride c \<and> length saved = n * batch_stride c"
    using Cons.prems(1) by simp
  have row: "row_counts c (worker_slot c w seen) (worker_slot c w prev) ! k = seen ! i - prev ! i"
    using worker_slot_nth[OF len(1) assms(1) kb] worker_slot_nth[OF Cons.prems(2) assms(1) kb]
    by (simp add: row_counts_nth[OF assms(2)] i)
  show ?case
  proof (cases "ts = []")
    case True
    then show ?thesis by (simp add: t row)
  next
    case False
    then show ?thesis by (simp add: t monitor_tick_def prev' row Cons.IH[OF rest len(2)])
  qed
qed

text \<open>
  C30: Over any run of the monitor, for every worker and every counter, the deltas printed to the
  CSV add up (mod 2^64) to the last saved value less the first baseline, minus what the worker
  counted between the moment a row was printed and the moment the baseline was saved: the deltas
  are exact when nothing is counted in that window, and the increments made in it are lost.
\<close>

theorem monitor_deltas_telescope:
  assumes "cfg_wf c" and "w < n" and "k < slot_size c"
    and "\<forall>(tms, seen, saved) \<in> set ts. length seen = n * batch_stride c \<and> length saved = n * batch_stride c"
    and "length prev = n * batch_stride c" and "ts \<noteq> []"
  shows "sum_list (map (\<lambda>row. row ! k) (ticks_counts c n w ts prev)) =
    snd (snd (last ts)) ! (w * batch_stride c + k) - prev ! (w * batch_stride c + k)
    - (\<Sum>(tms, seen, saved) \<leftarrow> ts. saved ! (w * batch_stride c + k) - seen ! (w * batch_stride c + k))"
  using ticks_counts_sum[OF assms(2,3) _ assms(4,5) refl] assms(1,6) by (simp add: cfg_wf_def)

theorem monitor_deltas_telescope_witness:
  "sum_list (map (\<lambda>row. row ! 0) (ticks_counts (stats_cfg_of 2) 1 0
      [(100, replicate 88 5, replicate 88 6), (200, replicate 88 9, replicate 88 9)] (replicate 88 0))) =
    (9 - 0) - ((6 - 5) + (9 - 9))"
proof -
  have st: "batch_stride (stats_cfg_of 2) = 88" "slot_size (stats_cfg_of 2) = 84"
    using stats_cfg_of_simps[of 2] by (simp_all add: slot_size_def)
  have wf: "cfg_wf (stats_cfg_of 2)" by (rule stats_cfg_of_wf) simp
  have z: "(0::nat) < slot_size (stats_cfg_of 2)" by (simp add: st)
  show ?thesis
    using monitor_deltas_telescope[OF wf _ z, of 0 1
        "[(100, replicate 88 5, replicate 88 6), (200, replicate 88 9, replicate 88 9)]" "replicate 88 0"]
    by (simp add: st)
qed

end
