(* ===== verification/Event_Loop.thy ===== *)
theory Event_Loop
  imports Upcall_Queue Batch_Stats
begin

text \<open>
  The event loop of libupcall (\<open>run_event_loop\<close> and the loop of \<open>upcall_worker_fn\<close> in
  \<open>libupcall/upcall.c\<close>).  The system call \<open>upcall_submit\<close> is kernel code and stays an argument:
  a function from the kernel's state, the submitted events, the buffers behind the \<open>UP_VEC\<close> ones
  and the room for completions to the completions (\<open>None\<close> for a negative return value) and its new
  state.  The callbacks are an argument too; a client of the library instantiates it with its own.

  The main result is a ledger: over a round no pool buffer is lost or handed out twice, provided
  the kernel and the callbacks keep the contract stated in the two locales.
\<close>

section \<open>The loop\<close>

type_synonym ('f, 'a) handler = "'f \<Rightarrow> 'f up_event \<Rightarrow> 'a \<times> 'f worker \<Rightarrow> ('a \<times> 'f worker) res"

type_synonym ('f, 'k) kernel =
  "'k \<Rightarrow> 'f up_event list \<Rightarrow> iovec list \<Rightarrow> nat \<Rightarrow> 'f up_event list option \<times> 'k"

text \<open>An event without a callback is skipped: a failed \<open>UP_CLOSE\<close> comes back with none.\<close>

definition dispatch1 :: "('f, 'a) handler \<Rightarrow> 'f up_event \<Rightarrow> 'a \<times> 'f worker \<Rightarrow> ('a \<times> 'f worker) res" where
  "dispatch1 h e s = (case ev_fn e of None \<Rightarrow> Inr s | Some f \<Rightarrow> h f e s)"

fun dispatch_all :: "('f, 'a) handler \<Rightarrow> 'f up_event list \<Rightarrow> 'a \<times> 'f worker \<Rightarrow> ('a \<times> 'f worker) res" where
  "dispatch_all h [] s = Inr s"
| "dispatch_all h (e # es) s = rbind (dispatch1 h e s) (dispatch_all h es)"

record ('f, 'a, 'k) loop_state =
  lp_kernel :: 'k
  lp_stats :: stats_tls
  lp_app :: 'a
  lp_worker :: "'f worker"

text \<open>
  \<open>run_event_loop(upfd, false)\<close>, the only way the library calls it; \<open>clk\<close> holds the two readings
  of the clock.  Completions beyond \<open>recv_cnt\<close> would overrun the \<open>receive\<close> array.
\<close>

definition hand_over :: "'f mem_env \<Rightarrow> 'f worker \<Rightarrow> 'f worker res" where
  "hand_over m w =
     (if buf_cnt w > 0 then add_buffers m (Ptr (buffers_at w) 0) (buf_cnt w) w else Inr w)"

definition after_submit :: "'f up_event list \<Rightarrow> 'f worker \<Rightarrow> 'f worker" where
  "after_submit outs w =
     w\<lparr>receive := outs @ drop (length outs) (receive w), buf_cnt := 0, work_cnt := 0\<rparr>"

definition run_event_loop ::
  "'f mem_env \<Rightarrow> stats_cfg \<Rightarrow> u64 \<times> u64 \<Rightarrow> ('f, 'k) kernel \<Rightarrow> ('f, 'a) handler \<Rightarrow>
   ('f, 'a, 'k) loop_state \<Rightarrow> ('f, 'a, 'k) loop_state res" where
  "run_event_loop m c clk submit h s =
     rbind (hand_over m (lp_worker s)) (\<lambda>w.
     rbind (note_utime c (fst clk) (lp_stats s)) (\<lambda>st.
       case submit (lp_kernel s) (pending w) (vecs w) (recv_cnt w) of
         (None, k) \<Rightarrow> Inl (Exit 1)
       | (Some outs, k) \<Rightarrow>
           if recv_cnt w < length outs then Inl (Fault OutOfBounds)
           else rbind (note_submit c (fst clk) (snd clk) (length outs) st) (\<lambda>st'.
             rbind (dispatch_all h outs (lp_app s, after_submit outs w)) (\<lambda>(a, w'').
               Inr \<lparr>lp_kernel = k, lp_stats = st', lp_app = a,
                    lp_worker = w''\<lparr>receive := replicate (recv_cnt w'') zero_event\<rparr>\<rparr>))))"

text \<open>
  The endless loop of \<open>upcall_worker_fn\<close>, its first rounds: each round has its own allocator,
  clock readings, kernel and callbacks (which see the memory of that round), and is followed by
  the optional \<open>loop_fn\<close>.
\<close>

fun worker_rounds ::
  "stats_cfg \<Rightarrow> ('a \<times> 'f worker \<Rightarrow> ('a \<times> 'f worker) res) option \<Rightarrow>
   ('f mem_env \<times> (u64 \<times> u64) \<times> ('f, 'k) kernel \<times> ('f, 'a) handler) list \<Rightarrow>
   ('f, 'a, 'k) loop_state \<Rightarrow> ('f, 'a, 'k) loop_state res" where
  "worker_rounds c loop_fn [] s = Inr s"
| "worker_rounds c loop_fn ((m, clk, submit, h) # rs) s =
     rbind (run_event_loop m c clk submit h s) (\<lambda>s'.
     rbind (case loop_fn of None \<Rightarrow> Inr s'
            | Some g \<Rightarrow> rbind (g (lp_app s', lp_worker s')) (\<lambda>(a, w).
                Inr (s'\<lparr>lp_app := a, lp_worker := w\<rparr>)))
       (worker_rounds c loop_fn rs))"

section \<open>The buffer ledger\<close>

definition bases :: "iovec list \<Rightarrow> ptr multiset" where
  "bases io = mset (map iov_base io)"

lemma bases_append [simp]: "bases (x @ y) = bases x + bases y"
  by (simp add: bases_def)

lemma bases_Nil [simp]: "bases [] = {#}"
  by (simp add: bases_def)

lemma bases_Cons [simp]: "bases (x # xs) = add_mset (iov_base x) (bases xs)"
  by (simp add: bases_def)

definition no_vec :: "'f worker \<Rightarrow> bool" where
  "no_vec w \<longleftrightarrow> (\<forall>e \<in> set (pending w). ev_type e \<noteq> UP_VEC)"

text \<open>Between two rounds: an \<open>UP_VEC\<close> is pending only while the returned pool is empty.\<close>

definition loop_ready :: "'f worker \<Rightarrow> bool" where
  "loop_ready w \<longleftrightarrow> worker_wf w \<and> 0 < buf_max w \<and> (buf_cnt w = 0 \<or> no_vec w)"

definition handler_ready :: "'f worker \<Rightarrow> bool" where
  "handler_ready w \<longleftrightarrow> worker_wf w \<and> 0 < buf_max w \<and> no_vec w"

lemma handler_ready_loop_ready: "handler_ready w \<Longrightarrow> loop_ready w"
  by (simp add: handler_ready_def loop_ready_def)

lemma vecs_no_vec: "no_vec w \<Longrightarrow> vecs w = []"
  by (auto simp: no_vec_def vecs_def vec_of_def)

lemma describes_not_vec: "describes e r \<Longrightarrow> ev_type e \<noteq> UP_VEC"
  by (cases r) auto

lemma handler_ready_add_request:
  assumes "handler_ready w" "add_request m r w = Inr w'"
  shows "handler_ready w' \<and> pool w' = pool w \<and> recv_cnt w' = recv_cnt w \<and>
    (\<exists>e. pending w' = pending w @ [e] \<and> describes e r)"
  using add_request_Inr[of w m r w'] assms
  by (auto simp: handler_ready_def no_vec_def same_pool_def pool_def describes_not_vec)

lemma handler_ready_return_buffer:
  assumes "handler_ready w" "return_buffer m b n w = Inr w'"
  shows "handler_ready w' \<and> pool w' = pool w @ [\<lparr>iov_base = b, iov_len = n\<rparr>] \<and>
    recv_cnt w' = recv_cnt w \<and> pending w' = pending w"
  using return_buffer_Inr[of w m b n w'] assms
  by (auto simp: handler_ready_def no_vec_def same_batch_def pending_def)

lemma hand_over_Inr:
  assumes "loop_ready w" "hand_over m w = Inr w'"
  shows "worker_wf w' \<and> 0 < buf_max w' \<and> recv_cnt w' = recv_cnt w \<and>
    bases (vecs w') = bases (pool w) + bases (vecs w)"
proof (cases "buf_cnt w > 0")
  case False
  with assms show ?thesis by (auto simp: hand_over_def loop_ready_def pool_def)
next
  case True
  let ?e = "zero_event\<lparr>ev_type := UP_VEC, ev_buf := Ptr (buffers_at w) 0, ev_len := buf_cnt w\<rparr>"
  have wf: "worker_wf w" and nv: "no_vec w" using assms True by (auto simp: loop_ready_def)
  have "worker_wf w'" and p: "pending w' = pending w @ [?e]" and sp: "same_pool w w'"
    using add_buffers_Inr[OF wf, of m "Ptr (buffers_at w) 0" "buf_cnt w" w'] assms(2) True
    by (auto simp: hand_over_def)
  moreover have "vec_of w' e = []" if "e \<in> set (pending w)" for e
    using that nv by (simp add: no_vec_def vec_of_def)
  then have "vecs w' = vec_of w' ?e" by (simp add: vecs_def p)
  moreover have "vec_of w' ?e = pool w" using sp by (simp add: vec_of_def same_pool_def pool_def)
  ultimately show ?thesis using assms(1) vecs_no_vec[OF nv]
    by (simp add: loop_ready_def same_pool_def)
qed

text \<open>Each event is one the application expects in the state it is dispatched in.\<close>

fun all_expected ::
  "('a \<times> 'f worker \<Rightarrow> 'f up_event \<Rightarrow> bool) \<Rightarrow> ('f, 'a) handler \<Rightarrow> 'f up_event list \<Rightarrow>
   'a \<times> 'f worker \<Rightarrow> bool" where
  "all_expected P h [] s = True"
| "all_expected P h (e # es) s \<longleftrightarrow>
     P s e \<and> (case dispatch1 h e s of Inl _ \<Rightarrow> True | Inr s' \<Rightarrow> all_expected P h es s')"

text \<open>What the application must be able to expect of a submit's completions.\<close>

definition expected_round ::
  "('a \<times> 'f worker \<Rightarrow> bool) \<Rightarrow> ('a \<times> 'f worker \<Rightarrow> 'f up_event \<Rightarrow> bool) \<Rightarrow> 'f mem_env \<Rightarrow>
   ('f, 'k) kernel \<Rightarrow> ('f, 'a) handler \<Rightarrow> ('f, 'a, 'k) loop_state \<Rightarrow> bool" where
  "expected_round I P m submit h s \<longleftrightarrow>
     (case hand_over m (lp_worker s) of
        Inl _ \<Rightarrow> True
      | Inr w \<Rightarrow>
          (case submit (lp_kernel s) (pending w) (vecs w) (recv_cnt w) of
             (None, _) \<Rightarrow> True
           | (Some outs, _) \<Rightarrow> I (lp_app s, after_submit outs w) \<and>
                               all_expected P h outs (lp_app s, after_submit outs w)))"

text \<open>Every buffer of the system: with the kernel, the application, the pool, or a pending \<open>UP_VEC\<close>.\<close>

definition ledger ::
  "('k \<Rightarrow> ptr multiset) \<Rightarrow> ('a \<Rightarrow> ptr multiset) \<Rightarrow> ('f, 'a, 'k) loop_state \<Rightarrow> ptr multiset" where
  "ledger held app_held s = held (lp_kernel s) + app_held (lp_app s)
              + bases (pool (lp_worker s)) + bases (vecs (lp_worker s))"

lemma run_event_loop_Inr:
  assumes "run_event_loop m c clk submit h s = Inr s'"
  obtains w st outs k st' a w3 where
    "hand_over m (lp_worker s) = Inr w" "note_utime c (fst clk) (lp_stats s) = Inr st"
    "submit (lp_kernel s) (pending w) (vecs w) (recv_cnt w) = (Some outs, k)"
    "length outs \<le> recv_cnt w" "note_submit c (fst clk) (snd clk) (length outs) st = Inr st'"
    "dispatch_all h outs (lp_app s, after_submit outs w) = Inr (a, w3)"
    "s' = \<lparr>lp_kernel = k, lp_stats = st', lp_app = a,
           lp_worker = w3\<lparr>receive := replicate (recv_cnt w3) zero_event\<rparr>\<rparr>"
proof -
  from assms obtain w where w: "hand_over m (lp_worker s) = Inr w"
    by (auto simp: run_event_loop_def)
  with assms obtain st where st: "note_utime c (fst clk) (lp_stats s) = Inr st"
    by (auto simp: run_event_loop_def)
  obtain r k where rk: "submit (lp_kernel s) (pending w) (vecs w) (recv_cnt w) = (r, k)"
    by (cases "submit (lp_kernel s) (pending w) (vecs w) (recv_cnt w)")
  with assms w st obtain outs where o: "r = Some outs" "length outs \<le> recv_cnt w"
    by (auto simp: run_event_loop_def not_less split: option.splits if_splits)
  with assms w st rk obtain st' where st': "note_submit c (fst clk) (snd clk) (length outs) st = Inr st'"
    by (auto simp: run_event_loop_def)
  with assms w st rk o obtain a w3 where
    "dispatch_all h outs (lp_app s, after_submit outs w) = Inr (a, w3)"
    by (auto simp: run_event_loop_def)
  with assms w st rk o st' show thesis
    by (intro that[of w st outs k st' a w3]) (auto simp: run_event_loop_def)
qed

text \<open>
  The kernel's side of the contract: it completes at most as many events as there is room for, and
  every buffer it was given it either still holds or hands back with exactly one completion
  (\<open>carries\<close> says which buffer an event brings).
\<close>

locale upcall_kernel =
  fixes submit :: "('f, 'k) kernel"
    and held :: "'k \<Rightarrow> ptr multiset"
    and carries :: "'f up_event \<Rightarrow> ptr multiset"
  assumes submit_room: "submit k evs io n = (Some outs, k') \<Longrightarrow> length outs \<le> n"
    and submit_conserves: "submit k evs io n = (Some outs, k') \<Longrightarrow>
      held k' + (\<Sum>e \<in># mset outs. carries e) = held k + bases io"

text \<open>
  The callbacks' side: run in a state that satisfies the application's invariant, on an event the
  application can expect there, a callback keeps the invariant and gives the buffer of the event
  back to the pool or keeps it on its own account.
\<close>

locale upcall_app =
  fixes handler :: "('f, 'a) handler"
    and app_inv :: "'a \<times> 'f worker \<Rightarrow> bool"
    and expects :: "'a \<times> 'f worker \<Rightarrow> 'f up_event \<Rightarrow> bool"
    and app_held :: "'a \<Rightarrow> ptr multiset"
    and carries :: "'f up_event \<Rightarrow> ptr multiset"
  assumes inv_ready: "app_inv (a, w) \<Longrightarrow> handler_ready w"
    and inv_receive: "app_inv (a, w) \<Longrightarrow> length xs = recv_cnt w \<Longrightarrow> app_inv (a, w\<lparr>receive := xs\<rparr>)"
    and no_callback: "expects s e \<Longrightarrow> ev_fn e = None \<Longrightarrow> carries e = {#}"
    and handler_conserves: "app_inv (a, w) \<Longrightarrow> expects (a, w) e \<Longrightarrow> ev_fn e = Some f \<Longrightarrow>
      handler f e (a, w) = Inr (a', w') \<Longrightarrow>
      app_inv (a', w') \<and> app_held a' + bases (pool w') = app_held a + bases (pool w) + carries e"
begin

lemma dispatch1_conserves:
  assumes "app_inv (a, w)" "expects (a, w) e" "dispatch1 handler e (a, w) = Inr (a', w')"
  shows "app_inv (a', w') \<and> app_held a' + bases (pool w') = app_held a + bases (pool w) + carries e"
  using assms handler_conserves no_callback
  by (cases "ev_fn e") (fastforce simp: dispatch1_def)+

lemma dispatch_all_conserves:
  "app_inv (a, w) \<Longrightarrow> all_expected expects handler es (a, w) \<Longrightarrow> dispatch_all handler es (a, w) = Inr (a', w') \<Longrightarrow>
     app_inv (a', w') \<and>
     app_held a' + bases (pool w') = app_held a + bases (pool w) + (\<Sum>e \<in># mset es. carries e)"
proof (induction es arbitrary: a w)
  case Nil
  then show ?case by simp
next
  case (Cons e es)
  from Cons.prems(3) obtain s where s: "dispatch1 handler e (a, w) = Inr s"
    "dispatch_all handler es s = Inr (a', w')" by auto
  obtain b v where bv: "s = (b, v)" by (cases s)
  have d: "app_inv (b, v) \<and> app_held b + bases (pool v) = app_held a + bases (pool w) + carries e"
    using dispatch1_conserves[OF Cons.prems(1), of e b v] Cons.prems(2) s bv by simp
  moreover have "all_expected expects handler es (b, v)" using Cons.prems(2) s bv by simp
  ultimately show ?case using Cons.IH[of b v] s bv by (simp add: ac_simps)
qed

end

locale upcall_system =
  upcall_kernel submit held carries + upcall_app handler app_inv expects app_held carries
  for submit :: "('f, 'k) kernel" and held carries and handler :: "('f, 'a) handler"
    and app_inv expects app_held
begin

lemma run_event_loop_ledger:
  assumes ready: "loop_ready (lp_worker s)" and expd: "expected_round app_inv expects m submit handler s"
    and run: "run_event_loop m c clk submit handler s = Inr s'"
  shows "ledger held app_held s' = ledger held app_held s \<and> app_inv (lp_app s', lp_worker s') \<and>
    loop_ready (lp_worker s')"
proof -
  from run obtain w st outs k st' a w3 where
    w: "hand_over m (lp_worker s) = Inr w"
    and sub: "submit (lp_kernel s) (pending w) (vecs w) (recv_cnt w) = (Some outs, k)"
    and disp: "dispatch_all handler outs (lp_app s, after_submit outs w) = Inr (a, w3)"
    and s': "s' = \<lparr>lp_kernel = k, lp_stats = st', lp_app = a,
                   lp_worker = w3\<lparr>receive := replicate (recv_cnt w3) zero_event\<rparr>\<rparr>"
    by (rule run_event_loop_Inr)
  let ?v = "w3\<lparr>receive := replicate (recv_cnt w3) zero_event\<rparr>"
  have inv: "app_inv (lp_app s, after_submit outs w)" "all_expected expects handler outs (lp_app s, after_submit outs w)"
    using expd w sub by (auto simp: expected_round_def)
  note d = dispatch_all_conserves[OF inv disp]
  have inv3: "app_inv (a, ?v)" using d inv_receive by simp
  then have ready3: "handler_ready ?v" by (rule inv_ready)
  have "bases (pool (after_submit outs w)) = {#}" "pool ?v = pool w3"
    by (simp_all add: pool_def after_submit_def)
  moreover have "vecs ?v = []" using ready3 by (intro vecs_no_vec) (simp add: handler_ready_def)
  moreover have "held k + (\<Sum>e \<in># mset outs. carries e) = held (lp_kernel s) + bases (vecs w)"
    by (rule submit_conserves[OF sub])
  ultimately have "ledger held app_held s' = ledger held app_held s"
    using d hand_over_Inr[OF ready w]
    by (simp add: ledger_def s') (metis (no_types, lifting) add.assoc add.commute)
  then show ?thesis using inv3 handler_ready_loop_ready[OF ready3] by (simp add: s')
qed

end

end
