(* ===== verification/Worker_Barrier.thy ===== *)
theory Worker_Barrier
  imports Upcall_Prelude
begin

text \<open>
  Starting and releasing the workers of libupcall (\<open>upcall_init\<close>, the first part of
  \<open>upcall_worker_fn\<close>, and \<open>upcall_workers_go\<close> in \<open>libupcall/upcall.c\<close>): the error results of
  \<open>upcall_init\<close>, and the two condition variables under \<open>g_init_lock\<close> as an interleaving of the main
  thread and the workers.
\<close>

section \<open>Error results of upcall_init\<close>

text \<open>
  The results of the calls it makes: \<open>upcall_create\<close> (with \<open>errno\<close>), \<open>pthread_attr_init\<close>, and for
  each worker \<open>pthread_attr_setaffinity_np\<close> and \<open>pthread_create\<close>.  The histogram set-up in between
  (theory Batch_Stats) has no error result.
\<close>

record init_env =
  ie_create :: int
  ie_errno :: int
  ie_attr :: int
  ie_affinity :: "nat \<Rightarrow> int"
  ie_thread :: "nat \<Rightarrow> int"

text \<open>The loop over the workers, from worker \<open>i\<close>: the result and how many threads were created.\<close>

function spawn_workers :: "init_env \<Rightarrow> nat \<Rightarrow> nat \<Rightarrow> int \<times> nat" where
  "spawn_workers v nr i =
     (if i < nr then
        if ie_affinity v i \<noteq> 0 then (- ie_affinity v i, i)
        else if ie_thread v i \<noteq> 0 then (- ie_thread v i, i)
        else spawn_workers v nr (i + 1)
      else (0, i))"
  by pat_completeness auto
termination
  by (relation "measure (\<lambda>(v, nr, i). nr - i)") auto

declare spawn_workers.simps [simp del]

text \<open>What \<open>upcall_init\<close> returns (once all workers are set up, if it gets that far).\<close>

definition upcall_init :: "init_env \<Rightarrow> nat \<Rightarrow> int \<times> nat" where
  "upcall_init v nr =
     (if ie_create v < 0 then (- ie_errno v, 0)
      else if ie_attr v \<noteq> 0 then (- ie_attr v, 0)
      else spawn_workers v nr 0)"

text \<open>\<open>init_threads\<close> of \<open>event-tester/upcall.c\<close>.\<close>

definition init_threads :: "init_env \<Rightarrow> nat \<Rightarrow> unit res" where
  "init_threads v nr = (if fst (upcall_init v nr) \<noteq> 0 then Inl (Exit 1) else Inr ())"

lemma spawn_workers_cases:
  "i \<le> nr \<Longrightarrow>
   (spawn_workers v nr i = (0, nr) \<and> (\<forall>j. i \<le> j \<longrightarrow> j < nr \<longrightarrow> ie_affinity v j = 0 \<and> ie_thread v j = 0)) \<or>
   (\<exists>k. i \<le> k \<and> k < nr \<and> (\<forall>j. i \<le> j \<longrightarrow> j < k \<longrightarrow> ie_affinity v j = 0 \<and> ie_thread v j = 0) \<and>
      (ie_affinity v k \<noteq> 0 \<or> ie_thread v k \<noteq> 0) \<and>
      spawn_workers v nr i = (if ie_affinity v k \<noteq> 0 then - ie_affinity v k else - ie_thread v k, k))"
proof (induction v nr i rule: spawn_workers.induct)
  case (1 v nr i)
  show ?case
  proof (cases "i < nr \<and> ie_affinity v i = 0 \<and> ie_thread v i = 0")
    case True
    then have eq: "spawn_workers v nr i = spawn_workers v nr (i + 1)" by (subst spawn_workers.simps) simp
    have le: "i \<le> j \<longleftrightarrow> j = i \<or> i + 1 \<le> j" for j by auto
    from 1(1) True have "(spawn_workers v nr (i + 1) = (0, nr) \<and> (\<forall>j. i + 1 \<le> j \<longrightarrow> j < nr \<longrightarrow> ie_affinity v j = 0 \<and> ie_thread v j = 0)) \<or>
      (\<exists>k. i + 1 \<le> k \<and> k < nr \<and> (\<forall>j. i + 1 \<le> j \<longrightarrow> j < k \<longrightarrow> ie_affinity v j = 0 \<and> ie_thread v j = 0) \<and>
      (ie_affinity v k \<noteq> 0 \<or> ie_thread v k \<noteq> 0) \<and>
      spawn_workers v nr (i + 1) = (if ie_affinity v k \<noteq> 0 then - ie_affinity v k else - ie_thread v k, k))" by auto
    then show ?thesis
    proof
      assume "\<exists>k. i + 1 \<le> k \<and> k < nr \<and> (\<forall>j. i + 1 \<le> j \<longrightarrow> j < k \<longrightarrow> ie_affinity v j = 0 \<and> ie_thread v j = 0) \<and>
      (ie_affinity v k \<noteq> 0 \<or> ie_thread v k \<noteq> 0) \<and>
      spawn_workers v nr (i + 1) = (if ie_affinity v k \<noteq> 0 then - ie_affinity v k else - ie_thread v k, k)"
      then obtain k where "i + 1 \<le> k \<and> k < nr \<and> (\<forall>j. i + 1 \<le> j \<longrightarrow> j < k \<longrightarrow> ie_affinity v j = 0 \<and> ie_thread v j = 0) \<and>
        (ie_affinity v k \<noteq> 0 \<or> ie_thread v k \<noteq> 0) \<and>
        spawn_workers v nr (i + 1) = (if ie_affinity v k \<noteq> 0 then - ie_affinity v k else - ie_thread v k, k)" by blast
      then show ?thesis using True unfolding eq by (intro disjI2 exI[of _ k]) (auto simp: le)
    qed (use True in \<open>auto simp: eq le\<close>)
  next
    case False
    then show ?thesis using 1(2)
      by (subst (1 2) spawn_workers.simps) (auto intro!: exI[of _ i])
  qed
qed

section \<open>The barrier\<close>

datatype thread = Main | Worker nat

text \<open>
  Program points.  \<open>Wait\<close> is asleep in \<open>pthread_cond_wait\<close> (the mutex released), \<open>Woken\<close> is woken
  and about to take the mutex again.
\<close>

datatype main_pc =
    M_Spawn nat | M_Lock | M_Check | M_Wait | M_Woken | M_Unlock
  | M_Ret | M_Set | M_Bcast | M_Go_Unlock | M_Done

datatype worker_pc =
    W_None | W_Setup | W_Lock | W_Inc | W_Signal | W_Check | W_Wait | W_Woken | W_Unlock | W_Loop

record barrier =
  b_lock :: "thread option"
  b_count :: nat
  b_go :: bool
  b_main :: main_pc
  b_pc :: "nat \<Rightarrow> worker_pc"

definition at :: "barrier \<Rightarrow> nat \<Rightarrow> worker_pc \<Rightarrow> barrier" where
  "at s i p = s\<lparr>b_pc := (b_pc s)(i := p)\<rparr>"

text \<open>\<open>pthread_cond_signal(&g_init_cond)\<close>: only the main thread ever sleeps there.\<close>

definition wake_main :: "barrier \<Rightarrow> barrier" where
  "wake_main s = (if b_main s = M_Wait then s\<lparr>b_main := M_Woken\<rparr> else s)"

text \<open>\<open>pthread_cond_broadcast(&g_go_cond)\<close>.\<close>

definition wake_workers :: "barrier \<Rightarrow> barrier" where
  "wake_workers s = s\<lparr>b_pc := (\<lambda>i. if b_pc s i = W_Wait then W_Woken else b_pc s i)\<rparr>"

text \<open>
  \<open>bar_step n\<close>: one step of the main thread in \<open>upcall_init\<close> (with \<open>nr = n\<close>) and then
  \<open>upcall_workers_go\<close>, or of a worker.
\<close>

inductive bar_step :: "nat \<Rightarrow> barrier \<Rightarrow> barrier \<Rightarrow> bool" for n where
  m_spawn: "b_main s = M_Spawn i \<Longrightarrow> i < n \<Longrightarrow> bar_step n s ((at s i W_Setup)\<lparr>b_main := M_Spawn (i + 1)\<rparr>)"
| m_spawned: "b_main s = M_Spawn i \<Longrightarrow> \<not> i < n \<Longrightarrow> bar_step n s (s\<lparr>b_main := M_Lock\<rparr>)"
| m_lock: "b_main s = M_Lock \<Longrightarrow> b_lock s = None \<Longrightarrow> bar_step n s (s\<lparr>b_main := M_Check, b_lock := Some Main\<rparr>)"
| m_sleep: "b_main s = M_Check \<Longrightarrow> b_count s < n \<Longrightarrow> bar_step n s (s\<lparr>b_main := M_Wait, b_lock := None\<rparr>)"
| m_relock: "b_main s = M_Woken \<Longrightarrow> b_lock s = None \<Longrightarrow> bar_step n s (s\<lparr>b_main := M_Check, b_lock := Some Main\<rparr>)"
| m_pass: "b_main s = M_Check \<Longrightarrow> \<not> b_count s < n \<Longrightarrow> bar_step n s (s\<lparr>b_main := M_Unlock\<rparr>)"
| m_unlock: "b_main s = M_Unlock \<Longrightarrow> bar_step n s (s\<lparr>b_main := M_Ret, b_lock := None\<rparr>)"
| m_go_lock: "b_main s = M_Ret \<Longrightarrow> b_lock s = None \<Longrightarrow> bar_step n s (s\<lparr>b_main := M_Set, b_lock := Some Main\<rparr>)"
| m_set: "b_main s = M_Set \<Longrightarrow> bar_step n s (s\<lparr>b_main := M_Bcast, b_go := True\<rparr>)"
| m_bcast: "b_main s = M_Bcast \<Longrightarrow> bar_step n s ((wake_workers s)\<lparr>b_main := M_Go_Unlock\<rparr>)"
| m_go_unlock: "b_main s = M_Go_Unlock \<Longrightarrow> bar_step n s (s\<lparr>b_main := M_Done, b_lock := None\<rparr>)"
| w_setup: "b_pc s i = W_Setup \<Longrightarrow> bar_step n s (at s i W_Lock)"
| w_lock: "b_pc s i = W_Lock \<Longrightarrow> b_lock s = None \<Longrightarrow> bar_step n s ((at s i W_Inc)\<lparr>b_lock := Some (Worker i)\<rparr>)"
| w_inc: "b_pc s i = W_Inc \<Longrightarrow> bar_step n s ((at s i W_Signal)\<lparr>b_count := b_count s + 1\<rparr>)"
| w_signal: "b_pc s i = W_Signal \<Longrightarrow> bar_step n s (wake_main (at s i W_Check))"
| w_sleep: "b_pc s i = W_Check \<Longrightarrow> \<not> b_go s \<Longrightarrow> bar_step n s ((at s i W_Wait)\<lparr>b_lock := None\<rparr>)"
| w_relock: "b_pc s i = W_Woken \<Longrightarrow> b_lock s = None \<Longrightarrow> bar_step n s ((at s i W_Check)\<lparr>b_lock := Some (Worker i)\<rparr>)"
| w_pass: "b_pc s i = W_Check \<Longrightarrow> b_go s \<Longrightarrow> bar_step n s (at s i W_Unlock)"
| w_unlock: "b_pc s i = W_Unlock \<Longrightarrow> bar_step n s ((at s i W_Loop)\<lparr>b_lock := None\<rparr>)"

text \<open>A condition variable may also wake its sleepers for no reason.\<close>

inductive spurious :: "barrier \<Rightarrow> barrier \<Rightarrow> bool" where
  sp_main: "b_main s = M_Wait \<Longrightarrow> spurious s (s\<lparr>b_main := M_Woken\<rparr>)"
| sp_worker: "b_pc s i = W_Wait \<Longrightarrow> spurious s (at s i W_Woken)"

definition bar_any :: "nat \<Rightarrow> barrier \<Rightarrow> barrier \<Rightarrow> bool" where
  "bar_any n s t \<longleftrightarrow> bar_step n s t \<or> spurious s t"

definition bar_init :: "barrier \<Rightarrow> bool" where
  "bar_init s \<longleftrightarrow> s = \<lparr>b_lock = None, b_count = 0, b_go = False, b_main = M_Spawn 0, b_pc = (\<lambda>_. W_None)\<rparr>"

section \<open>Invariant\<close>

fun main_holds :: "main_pc \<Rightarrow> bool" where
  "main_holds p \<longleftrightarrow> p = M_Check \<or> p = M_Unlock \<or> p = M_Set \<or> p = M_Bcast \<or> p = M_Go_Unlock"

fun worker_holds :: "worker_pc \<Rightarrow> bool" where
  "worker_holds p \<longleftrightarrow> p = W_Inc \<or> p = W_Signal \<or> p = W_Check \<or> p = W_Unlock"

definition counted :: "worker_pc \<Rightarrow> bool" where
  "counted p \<longleftrightarrow> p = W_Signal \<or> p = W_Check \<or> p = W_Wait \<or> p = W_Woken \<or> p = W_Unlock \<or> p = W_Loop"

text \<open>Still to signal the main thread.\<close>

definition unsignalled :: "worker_pc \<Rightarrow> bool" where
  "unsignalled p \<longleftrightarrow> p = W_Setup \<or> p = W_Lock \<or> p = W_Inc \<or> p = W_Signal"

definition main_passed :: "main_pc \<Rightarrow> bool" where
  "main_passed p \<longleftrightarrow> p = M_Unlock \<or> p = M_Ret \<or> p = M_Set \<or> p = M_Bcast \<or> p = M_Go_Unlock \<or> p = M_Done"

definition main_gone :: "main_pc \<Rightarrow> bool" where
  "main_gone p \<longleftrightarrow> p = M_Bcast \<or> p = M_Go_Unlock \<or> p = M_Done"

definition spawned :: "nat \<Rightarrow> main_pc \<Rightarrow> nat" where
  "spawned n p = (case p of M_Spawn i \<Rightarrow> i | _ \<Rightarrow> n)"

definition bar_inv :: "nat \<Rightarrow> barrier \<Rightarrow> bool" where
  "bar_inv n s \<longleftrightarrow>
     (b_lock s = Some Main \<longleftrightarrow> main_holds (b_main s)) \<and>
     (\<forall>i. b_lock s = Some (Worker i) \<longleftrightarrow> worker_holds (b_pc s i)) \<and>
     spawned n (b_main s) \<le> n \<and>
     (\<forall>i. b_pc s i = W_None \<longleftrightarrow> spawned n (b_main s) \<le> i) \<and>
     b_count s = card {i. i < n \<and> counted (b_pc s i)} \<and>
     (main_passed (b_main s) \<longrightarrow> b_count s = n) \<and>
     (b_main s = M_Wait \<longrightarrow> (\<exists>i < n. unsignalled (b_pc s i))) \<and>
     (b_go s \<longleftrightarrow> main_gone (b_main s)) \<and>
     (\<forall>i. b_pc s i = W_Wait \<longrightarrow> b_go s \<longrightarrow> b_main s = M_Bcast) \<and>
     (\<forall>i. b_pc s i = W_Unlock \<or> b_pc s i = W_Loop \<longrightarrow> b_go s)"

text \<open>What a step changes, field by field.\<close>

lemma at_simps [simp]:
  "b_pc (at s i p) j = (if j = i then p else b_pc s j)" "b_lock (at s i p) = b_lock s"
  "b_main (at s i p) = b_main s" "b_count (at s i p) = b_count s" "b_go (at s i p) = b_go s"
  by (simp_all add: at_def)

lemma wake_main_simps [simp]:
  "b_pc (wake_main s) = b_pc s" "b_count (wake_main s) = b_count s" "b_lock (wake_main s) = b_lock s"
  "b_go (wake_main s) = b_go s" "b_main (wake_main s) = (if b_main s = M_Wait then M_Woken else b_main s)"
  by (simp_all add: wake_main_def)

lemma wake_workers_simps [simp]:
  "b_pc (wake_workers s) j = (if b_pc s j = W_Wait then W_Woken else b_pc s j)"
  "b_lock (wake_workers s) = b_lock s" "b_count (wake_workers s) = b_count s" "b_go (wake_workers s) = b_go s"
  by (simp_all add: wake_workers_def)

lemma counted_simps [simp]:
  "counted W_Signal" "counted W_Check" "counted W_Wait" "counted W_Woken" "counted W_Unlock" "counted W_Loop"
  "\<not> counted W_None" "\<not> counted W_Setup" "\<not> counted W_Lock" "\<not> counted W_Inc"
  by (simp_all add: counted_def)

lemma bar_any_cases:
  assumes "bar_any n s t" "bar_step n s t \<Longrightarrow> P" "spurious s t \<Longrightarrow> P" shows P
  using assms by (auto simp: bar_any_def)

lemma bar_inv_lock: "bar_inv n s \<Longrightarrow> b_lock s = Some Main \<longleftrightarrow> main_holds (b_main s)"
  and bar_inv_wlock: "bar_inv n s \<Longrightarrow> b_lock s = Some (Worker i) \<longleftrightarrow> worker_holds (b_pc s i)"
  and bar_inv_none: "bar_inv n s \<Longrightarrow> b_pc s i = W_None \<longleftrightarrow> spawned n (b_main s) \<le> i"
  and bar_inv_spawned: "bar_inv n s \<Longrightarrow> spawned n (b_main s) \<le> n"
  and bar_inv_count: "bar_inv n s \<Longrightarrow> b_count s = card {i. i < n \<and> counted (b_pc s i)}"
  and bar_inv_passed: "bar_inv n s \<Longrightarrow> main_passed (b_main s) \<Longrightarrow> b_count s = n"
  and bar_inv_wait: "bar_inv n s \<Longrightarrow> b_main s = M_Wait \<Longrightarrow> \<exists>i < n. unsignalled (b_pc s i)"
  and bar_inv_go: "bar_inv n s \<Longrightarrow> b_go s \<longleftrightarrow> main_gone (b_main s)"
  and bar_inv_asleep: "bar_inv n s \<Longrightarrow> b_pc s i = W_Wait \<Longrightarrow> b_go s \<Longrightarrow> b_main s = M_Bcast"
  and bar_inv_through: "bar_inv n s \<Longrightarrow> b_pc s i = W_Unlock \<or> b_pc s i = W_Loop \<Longrightarrow> b_go s"
  unfolding bar_inv_def by blast+

lemma in_range: "bar_inv n s \<Longrightarrow> b_pc s i \<noteq> W_None \<Longrightarrow> i < n"
  using bar_inv_none[of n s i] bar_inv_spawned[of n s] by linarith

lemma step_lock:
  assumes inv: "bar_inv n s" and st: "bar_any n s t"
  shows "b_lock t = Some Main \<longleftrightarrow> main_holds (b_main t)"
  using st
proof (rule bar_any_cases)
  assume "bar_step n s t"
  then show ?thesis
    by cases (use bar_inv_lock[OF inv] bar_inv_wlock[OF inv] in \<open>force+\<close>)
next
  assume "spurious s t"
  then show ?thesis by cases (use bar_inv_lock[OF inv] in auto)
qed

lemma step_wlock:
  assumes inv: "bar_inv n s" and st: "bar_any n s t"
  shows "b_lock t = Some (Worker j) \<longleftrightarrow> worker_holds (b_pc t j)"
  using st
proof (rule bar_any_cases)
  note m = bar_inv_lock[OF inv] and w = bar_inv_wlock[OF inv]
  assume "bar_step n s t"
  then show ?thesis
  proof cases
    case (m_spawn i)
    then have "b_pc s i = W_None" using bar_inv_none[OF inv, of i] by (simp add: spawned_def)
    then show ?thesis using m_spawn w[of i] w[of j] by auto
  next
    case (w_sleep i)
    then show ?thesis using w[of i] w[of j] by auto
  next
    case (w_unlock i)
    then show ?thesis using w[of i] w[of j] by auto
  next
    case (w_inc i)
    then show ?thesis using w[of i] w[of j] by auto
  next
    case (w_signal i)
    then show ?thesis using w[of i] w[of j] by auto
  next
    case (w_pass i)
    then show ?thesis using w[of i] w[of j] by auto
  next
    case (w_setup i)
    then show ?thesis using w[of i] w[of j] by auto
  qed (use m w[of j] in auto)
next
  assume "spurious s t"
  then show ?thesis by cases (use bar_inv_wlock[OF inv] in auto)
qed

lemma step_none:
  assumes inv: "bar_inv n s" and st: "bar_any n s t"
  shows "spawned n (b_main t) \<le> n \<and> (b_pc t j = W_None \<longleftrightarrow> spawned n (b_main t) \<le> j)"
  using st
proof (rule bar_any_cases)
  note a = bar_inv_none[OF inv] and b = bar_inv_spawned[OF inv]
  assume "bar_step n s t"
  then show ?thesis
  proof cases
    case (m_spawn i)
    then show ?thesis using a[of j] by (auto simp: spawned_def)
  next
    case (m_spawned i)
    then show ?thesis using a[of j] b by (auto simp: spawned_def)
  qed (use a[of j] b in \<open>auto simp: spawned_def\<close>)
next
  assume "spurious s t"
  then show ?thesis by cases (use bar_inv_none[OF inv, of j] bar_inv_spawned[OF inv] in \<open>auto simp: spawned_def\<close>)
qed

lemma step_count:
  assumes inv: "bar_inv n s" and st: "bar_any n s t"
  shows "b_count t = card {i. i < n \<and> counted (b_pc t i)}"
proof -
  note c = bar_inv_count[OF inv]
  have same: "b_count t = card {i. i < n \<and> counted (b_pc t i)}"
    if "b_count t = b_count s" "\<And>j. counted (b_pc t j) = counted (b_pc s j)"
    using that c by simp
  from st show ?thesis
  proof (rule bar_any_cases)
    assume "bar_step n s t"
    then show ?thesis
    proof cases
      case (w_inc i)
      then have "counted (b_pc t j) \<longleftrightarrow> counted (b_pc s j) \<or> j = i" for j by simp
      from card_filter_insert[of "\<lambda>j. counted (b_pc s j)", OF _ _ this] w_inc in_range[OF inv, of i] c show ?thesis by simp
    next
      case (m_spawn i)
      then have "b_pc s i = W_None" using bar_inv_none[OF inv, of i] by (simp add: spawned_def)
      then show ?thesis using m_spawn by (intro same) simp_all
    qed (rule same; simp)+
  next
    assume "spurious s t"
    then show ?thesis by cases (rule same; simp)+
  qed
qed

text \<open>Once the main thread has seen all workers ready, none is before its increment.\<close>

lemma passed_counted: "bar_inv n s \<Longrightarrow> main_passed (b_main s) \<Longrightarrow> i < n \<Longrightarrow> counted (b_pc s i)"
  using card_filter_all[of n "\<lambda>i. counted (b_pc s i)" i] bar_inv_count[of n s] bar_inv_passed[of n s] by simp

lemma step_passed:
  assumes inv: "bar_inv n s" and st: "bar_any n s t"
  shows "main_passed (b_main t) \<longrightarrow> b_count t = n"
  using st
proof (rule bar_any_cases)
  note c = bar_inv_count[OF inv] and p = bar_inv_passed[OF inv]
  assume "bar_step n s t"
  then show ?thesis
  proof cases
    case (w_inc i)
    have "\<not> main_passed (b_main s)"
      using passed_counted[OF inv, of i] in_range[OF inv, of i] w_inc by auto
    then show ?thesis using w_inc by simp
  next
    case m_pass
    then show ?thesis using c card_filter_le[of n "\<lambda>i. counted (b_pc s i)"] by simp
  qed (use p in \<open>auto simp: main_passed_def\<close>)
next
  assume "spurious s t"
  then show ?thesis by cases (use bar_inv_passed[OF inv] in \<open>auto simp: main_passed_def\<close>)
qed

text \<open>When the main thread goes to sleep, some worker has not signalled yet.\<close>

lemma sleep_unsignalled:
  assumes inv: "bar_inv n s" and m: "b_main s = M_Check" "b_count s < n"
  shows "\<exists>i < n. unsignalled (b_pc s i)"
proof (rule ccontr)
  assume a: "\<not> ?thesis"
  have "counted (b_pc s i)" if "i < n" for i
  proof -
    have "b_pc s i \<noteq> W_None" using bar_inv_none[OF inv, of i] m(1) that by (simp add: spawned_def)
    then show ?thesis using a that by (cases "b_pc s i") (auto simp: unsignalled_def)
  qed
  then have "{i. i < n \<and> counted (b_pc s i)} = {..<n}" by auto
  then show False using bar_inv_count[OF inv] m(2) by simp
qed

lemma step_wait:
  assumes inv: "bar_inv n s" and st: "bar_any n s t"
  shows "b_main t = M_Wait \<longrightarrow> (\<exists>i < n. unsignalled (b_pc t i))"
  using st
proof (rule bar_any_cases)
  note w = bar_inv_wait[OF inv]
  have keep: "\<exists>j < n. unsignalled (b_pc (at s i p) j)" if "unsignalled p" "b_main s = M_Wait" for i p
  proof -
    from w[OF that(2)] obtain j where "j < n" "unsignalled (b_pc s j)" by blast
    then show ?thesis using that(1) by (intro exI[of _ j]) simp
  qed
  have other: "\<exists>j < n. unsignalled (b_pc (at s i p) j)" if "\<not> unsignalled (b_pc s i)" "b_main s = M_Wait" for i p
  proof -
    from w[OF that(2)] obtain j where "j < n" "unsignalled (b_pc s j)" by blast
    then show ?thesis using that(1) by (intro exI[of _ j]) auto
  qed
  assume "bar_step n s t"
  then show ?thesis
  proof cases
    case m_sleep
    then show ?thesis using sleep_unsignalled[OF inv] by simp
  next
    case (w_setup i)
    then show ?thesis using keep[of W_Lock i] by (simp add: unsignalled_def)
  next
    case (w_lock i)
    then show ?thesis using keep[of W_Inc i] by (simp add: unsignalled_def)
  next
    case (w_inc i)
    then show ?thesis using keep[of W_Signal i] by (simp add: unsignalled_def)
  next
    case (w_sleep i)
    then show ?thesis using other[of i W_Wait] by (simp add: unsignalled_def)
  next
    case (w_relock i)
    then show ?thesis using other[of i W_Check] by (simp add: unsignalled_def)
  next
    case (w_pass i)
    then show ?thesis using other[of i W_Unlock] by (simp add: unsignalled_def)
  next
    case (w_unlock i)
    then show ?thesis using other[of i W_Loop] by (simp add: unsignalled_def)
  qed simp_all
next
  assume "spurious s t"
  then show ?thesis
  proof cases
    case (sp_worker i)
    show ?thesis
    proof
      assume "b_main t = M_Wait"
      then obtain j where "j < n" "unsignalled (b_pc s j)" using bar_inv_wait[OF inv] sp_worker by auto
      then show "\<exists>i < n. unsignalled (b_pc t i)" using sp_worker by (intro exI[of _ j]) (auto simp: unsignalled_def)
    qed
  qed simp
qed

lemma step_go:
  assumes inv: "bar_inv n s" and st: "bar_any n s t"
  shows "(b_go t \<longleftrightarrow> main_gone (b_main t)) \<and> (b_pc t i = W_Wait \<longrightarrow> b_go t \<longrightarrow> b_main t = M_Bcast) \<and>
    (b_pc t i = W_Unlock \<or> b_pc t i = W_Loop \<longrightarrow> b_go t)"
  using st
proof (rule bar_any_cases)
  note g = bar_inv_go[OF inv] and a = bar_inv_asleep[OF inv, of i] and t = bar_inv_through[OF inv, of i]
  assume "bar_step n s t"
  then show ?thesis by cases (use g a t in \<open>auto simp: main_gone_def\<close>)
next
  note g = bar_inv_go[OF inv] and a = bar_inv_asleep[OF inv, of i] and t = bar_inv_through[OF inv, of i]
  assume "spurious s t"
  then show ?thesis by cases (use g a t in \<open>auto simp: main_gone_def\<close>)
qed

lemma bar_inv_step: "bar_inv n s \<Longrightarrow> bar_any n s t \<Longrightarrow> bar_inv n t"
  unfolding bar_inv_def[of n t]
  using step_lock[of n s t] step_wlock[of n s t] step_none[of n s t] step_count[of n s t] step_passed[of n s t]
    step_wait[of n s t] step_go[of n s t] by blast

lemma bar_inv_init: "bar_init s \<Longrightarrow> bar_inv n s"
  by (simp add: bar_init_def bar_inv_def spawned_def main_passed_def main_gone_def)

section \<open>Progress\<close>

text \<open>Every step of the code, as opposed to a spurious wake-up, makes this number smaller.\<close>

fun main_rank :: "nat \<Rightarrow> main_pc \<Rightarrow> nat" where
  "main_rank n (M_Spawn i) = 20 + (n - i)"
| "main_rank n M_Lock = 14"
| "main_rank n M_Woken = 11"
| "main_rank n M_Check = 10"
| "main_rank n M_Wait = 9"
| "main_rank n M_Unlock = 8"
| "main_rank n M_Ret = 7"
| "main_rank n M_Set = 5"
| "main_rank n M_Bcast = 4"
| "main_rank n M_Go_Unlock = 3"
| "main_rank n M_Done = 0"

fun worker_rank :: "bool \<Rightarrow> worker_pc \<Rightarrow> nat" where
  "worker_rank go W_None = 15"
| "worker_rank go W_Setup = 14"
| "worker_rank go W_Lock = 13"
| "worker_rank go W_Inc = 12"
| "worker_rank go W_Signal = 11"
| "worker_rank go W_Woken = (if go then 4 else 7)"
| "worker_rank go W_Check = (if go then 3 else 6)"
| "worker_rank go W_Wait = 5"
| "worker_rank go W_Unlock = 2"
| "worker_rank go W_Loop = 0"

definition bar_rank :: "nat \<Rightarrow> barrier \<Rightarrow> nat" where
  "bar_rank n s = main_rank n (b_main s) + (\<Sum>i<n. worker_rank (b_go s) (b_pc s i))"

lemma sum_at:
  "i < n \<Longrightarrow> (\<Sum>j<n. worker_rank g (if j = i then p else b_pc s j)) + worker_rank g (b_pc s i) =
    (\<Sum>j<n. worker_rank g (b_pc s j)) + worker_rank g p"
  by (rule sum_point)

lemma bar_step_decreases:
  assumes inv: "bar_inv n s" and st: "bar_step n s t"
  shows "bar_rank n t < bar_rank n s"
  using st
proof cases
  case (m_spawn i)
  then have "b_pc s i = W_None" using bar_inv_none[OF inv, of i] by (simp add: spawned_def)
  then show ?thesis using m_spawn sum_at[of i n "b_go s" W_Setup s] by (simp add: bar_rank_def)
next
  case m_set
  have "(\<Sum>i<n. worker_rank True (b_pc s i)) \<le> (\<Sum>i<n. worker_rank (b_go s) (b_pc s i))"
  proof (rule sum_mono)
    fix i show "worker_rank True (b_pc s i) \<le> worker_rank (b_go s) (b_pc s i)" by (cases "b_pc s i") auto
  qed
  then show ?thesis using m_set by (simp add: bar_rank_def)
next
  case m_bcast
  then have g: "b_go s" using bar_inv_go[OF inv] by (simp add: main_gone_def)
  have "(\<Sum>i<n. worker_rank True (if b_pc s i = W_Wait then W_Woken else b_pc s i)) \<le> (\<Sum>i<n. worker_rank True (b_pc s i))"
    by (rule sum_mono) auto
  then show ?thesis using m_bcast g by (simp add: bar_rank_def)
next
  case (w_setup i)
  then show ?thesis using sum_at[of i n "b_go s" W_Lock s] in_range[OF inv, of i] by (simp add: bar_rank_def)
next
  case (w_lock i)
  then show ?thesis using sum_at[of i n "b_go s" W_Inc s] in_range[OF inv, of i] by (simp add: bar_rank_def)
next
  case (w_inc i)
  then show ?thesis using sum_at[of i n "b_go s" W_Signal s] in_range[OF inv, of i] by (simp add: bar_rank_def)
next
  case (w_signal i)
  then show ?thesis using sum_at[of i n "b_go s" W_Check s] in_range[OF inv, of i]
    by (cases "b_go s") (simp_all add: bar_rank_def)
next
  case (w_sleep i)
  then show ?thesis using sum_at[of i n False W_Wait s] in_range[OF inv, of i] by (simp add: bar_rank_def)
next
  case (w_relock i)
  then show ?thesis using sum_at[of i n "b_go s" W_Check s] in_range[OF inv, of i]
    by (cases "b_go s") (simp_all add: bar_rank_def)
next
  case (w_pass i)
  then show ?thesis using sum_at[of i n True W_Unlock s] in_range[OF inv, of i] by (simp add: bar_rank_def)
next
  case (w_unlock i)
  then show ?thesis using sum_at[of i n "b_go s" W_Loop s] in_range[OF inv, of i] by (simp add: bar_rank_def)
qed (simp_all add: bar_rank_def)

definition all_running :: "nat \<Rightarrow> barrier \<Rightarrow> bool" where
  "all_running n s \<longleftrightarrow> b_main s = M_Done \<and> b_go s \<and> b_lock s = None \<and> (\<forall>i < n. b_pc s i = W_Loop)"

text \<open>No deadlock and no lost wake-up: as long as something is left to do, some step is enabled.\<close>

lemma bar_no_deadlock:
  assumes inv: "bar_inv n s" and stuck: "\<And>t. \<not> bar_step n s t"
  shows "all_running n s"
proof -
  note st = bar_step.intros[of s, THEN stuck[THEN notE]]
  have lock: "b_lock s = None"
  proof (cases "b_lock s")
    case (Some h)
    show ?thesis
    proof (cases h)
      case Main
      then have "main_holds (b_main s)" using bar_inv_lock[OF inv] Some by simp
      then show ?thesis using bar_step.intros(4,6,7,9,10,11)[of s n] stuck by (auto; metis)
    next
      case (Worker i)
      then have "worker_holds (b_pc s i)" using bar_inv_wlock[OF inv, of i] Some by simp
      then show ?thesis using bar_step.intros(14,15,16,18,19)[of s i n] stuck by (auto; metis)
    qed
  qed simp
  have main: "b_main s = M_Wait \<or> b_main s = M_Done"
    using bar_step.intros(1,2,3,5,8)[of s] stuck lock bar_inv_lock[OF inv] by (cases "b_main s") (auto; metis)+
  have worker: "b_pc s i = W_Wait \<or> b_pc s i = W_Loop \<or> b_pc s i = W_None" for i
    using bar_step.intros(12,13,17)[of s i n] stuck lock bar_inv_wlock[OF inv, of i] by (cases "b_pc s i") (auto; metis)+
  have done_main: "b_main s = M_Done"
  proof (rule ccontr)
    assume "b_main s \<noteq> M_Done"
    then obtain i where "i < n" "unsignalled (b_pc s i)" using main bar_inv_wait[OF inv] by auto
    then show False using worker[of i] by (auto simp: unsignalled_def)
  qed
  then have go: "b_go s" using bar_inv_go[OF inv] by (simp add: main_gone_def)
  have "b_pc s i = W_Loop" if "i < n" for i
    using worker[of i] bar_inv_none[OF inv, of i] bar_inv_asleep[OF inv, of i] done_main go that
    by (auto simp: spawned_def)
  then show ?thesis using lock done_main go by (simp add: all_running_def)
qed

interpretation bar: live_system bar_init "bar_any n" "bar_inv n" "bar_step n" "bar_rank n" "all_running n" for n
proof unfold_locales
  show "bar_any n s t" if "bar_step n s t" for s t using that by (simp add: bar_any_def)
qed (rule bar_inv_init bar_inv_step bar_step_decreases bar_no_deadlock; assumption)+

section \<open>Properties\<close>

text \<open>
  \<open>upcall_init\<close> returns 0 exactly if the upcall descriptor, the thread attributes and every
  worker thread could be created, and then all workers were created; otherwise it returns the
  negated error of the first call that failed, having created exactly the workers before it.
\<close>

theorem upcall_init_results:
  assumes "\<forall>i. 0 \<le> ie_affinity v i \<and> 0 \<le> ie_thread v i" and "0 \<le> ie_attr v" and "ie_create v < 0 \<longrightarrow> 0 < ie_errno v"
  shows "(fst (upcall_init v nr) = 0 \<longleftrightarrow>
      0 \<le> ie_create v \<and> ie_attr v = 0 \<and> (\<forall>i < nr. ie_affinity v i = 0 \<and> ie_thread v i = 0)) \<and>
    (fst (upcall_init v nr) = 0 \<longrightarrow> snd (upcall_init v nr) = nr) \<and>
    (fst (upcall_init v nr) \<noteq> 0 \<longrightarrow> fst (upcall_init v nr) < 0 \<and>
       (let k = snd (upcall_init v nr) in
         (\<forall>i < k. ie_affinity v i = 0 \<and> ie_thread v i = 0) \<and>
         (0 \<le> ie_create v \<and> ie_attr v = 0 \<longrightarrow> k < nr \<and>
           fst (upcall_init v nr) = (if ie_affinity v k \<noteq> 0 then - ie_affinity v k else - ie_thread v k))))"
proof (cases "ie_create v < 0 \<or> ie_attr v \<noteq> 0")
  case True
  then show ?thesis using assms(2,3) by (auto simp: upcall_init_def)
next
  case False
  then have u: "upcall_init v nr = spawn_workers v nr 0" by (simp add: upcall_init_def)
  from spawn_workers_cases[of 0 nr v, OF le0] show ?thesis
  proof
    assume a: "spawn_workers v nr 0 = (0, nr) \<and> (\<forall>j. 0 \<le> j \<longrightarrow> j < nr \<longrightarrow> ie_affinity v j = 0 \<and> ie_thread v j = 0)"
    then show ?thesis using False by (auto simp: u)
  next
    assume "\<exists>k\<ge>0. k < nr \<and> (\<forall>j. 0 \<le> j \<longrightarrow> j < k \<longrightarrow> ie_affinity v j = 0 \<and> ie_thread v j = 0) \<and>
      (ie_affinity v k \<noteq> 0 \<or> ie_thread v k \<noteq> 0) \<and>
      spawn_workers v nr 0 = (if ie_affinity v k \<noteq> 0 then - ie_affinity v k else - ie_thread v k, k)"
    then obtain k where k: "k < nr" "\<forall>j < k. ie_affinity v j = 0 \<and> ie_thread v j = 0"
      "ie_affinity v k \<noteq> 0 \<or> ie_thread v k \<noteq> 0"
      "spawn_workers v nr 0 = (if ie_affinity v k \<noteq> 0 then - ie_affinity v k else - ie_thread v k, k)" by auto
    have "(if ie_affinity v k \<noteq> 0 then - ie_affinity v k else - ie_thread v k) < 0"
      using assms(1) k(3) by (smt (verit))
    then show ?thesis using k False by (auto simp: u Let_def)
  qed
qed

definition failing_init :: init_env where
  "failing_init = \<lparr>ie_create = 4, ie_errno = 0, ie_attr = 0, ie_affinity = (\<lambda>_. 0),
     ie_thread = (\<lambda>i. if i = 2 then 11 else 0)\<rparr>"

theorem upcall_init_results_witness:
  "fst (upcall_init failing_init 4) \<noteq> 0 \<and> fst (upcall_init failing_init 4) < 0"
proof -
  have ne: "\<not> (\<forall>i < (4::nat). ie_affinity failing_init i = 0 \<and> ie_thread failing_init i = 0)"
    by (simp add: failing_init_def)
  have "(\<forall>i. 0 \<le> ie_affinity failing_init i \<and> 0 \<le> ie_thread failing_init i) \<and> 0 \<le> ie_attr failing_init \<and>
      (ie_create failing_init < 0 \<longrightarrow> 0 < ie_errno failing_init)"
    by (simp add: failing_init_def)
  then show ?thesis using upcall_init_results[of failing_init 4] ne by blast
qed

text \<open>
  C27: In every interleaving of the start-up, spurious wake-ups included: \<open>upcall_init\<close> has returned
  only after every worker finished its setup and counted itself; a worker is past its wait, and so
  in the event loop, only after \<open>upcall_workers_go\<close> set the flag, hence after every worker's setup;
  and at most one thread is inside the section that \<open>g_init_lock\<close> protects.
\<close>

theorem barrier_safety:
  assumes "reach bar_init (bar_any n) s"
  shows "(b_main s \<in> {M_Ret, M_Set, M_Bcast, M_Go_Unlock, M_Done} \<longrightarrow> (\<forall>i < n. counted (b_pc s i))) \<and>
    ((\<exists>i. b_pc s i \<in> {W_Unlock, W_Loop}) \<longrightarrow>
       b_go s \<and> main_gone (b_main s) \<and> (\<forall>j < n. counted (b_pc s j))) \<and>
    \<not> (main_holds (b_main s) \<and> worker_holds (b_pc s i)) \<and>
    (worker_holds (b_pc s i) \<longrightarrow> worker_holds (b_pc s j) \<longrightarrow> i = j)"
proof -
  have inv: "bar_inv n s" by (rule bar.reach_inv[OF assms])
  have p: "main_passed (b_main s)" if "b_main s \<in> {M_Ret, M_Set, M_Bcast, M_Go_Unlock, M_Done}"
    using that by (auto simp: main_passed_def)
  have g: "b_go s \<and> main_gone (b_main s)" if "b_pc s k \<in> {W_Unlock, W_Loop}" for k
    using that bar_inv_through[OF inv, of k] bar_inv_go[OF inv] by auto
  have gp: "main_passed (b_main s)" if "main_gone (b_main s)"
    using that by (auto simp: main_passed_def main_gone_def)
  have "\<not> (main_holds (b_main s) \<and> worker_holds (b_pc s i))"
    using bar_inv_lock[OF inv] bar_inv_wlock[OF inv, of i] by auto
  moreover have "i = j" if "worker_holds (b_pc s i)" "worker_holds (b_pc s j)"
    using that bar_inv_wlock[OF inv, of i] bar_inv_wlock[OF inv, of j] by auto
  ultimately show ?thesis using p g gp passed_counted[OF inv] by blast
qed

definition barrier_start :: barrier where
  "barrier_start = \<lparr>b_lock = None, b_count = 0, b_go = False, b_main = M_Spawn 0, b_pc = (\<lambda>_. W_None)\<rparr>"

lemma barrier_start_reach: "reach bar_init (bar_any n) barrier_start"
  by (rule reach_init) (simp add: bar_init_def barrier_start_def)

theorem barrier_safety_witness:
  "\<exists>s. reach bar_init (bar_any 2) s \<and> b_main s = M_Done \<and> counted (b_pc s 1)"
proof -
  obtain t where t: "(bar_step 2)\<^sup>*\<^sup>* barrier_start t" "all_running 2 t"
    using bar.runs_to_end[OF bar.reach_inv[OF barrier_start_reach]] by blast
  have r: "reach bar_init (bar_any 2) t" by (rule bar.reach_own[OF t(1) barrier_start_reach])
  have "b_main t = M_Done" using t(2) by (simp add: all_running_def)
  then have "counted (b_pc t 1)" using barrier_safety[OF r] by simp
  with r \<open>b_main t = M_Done\<close> show ?thesis by blast
qed

text \<open>
  C13: The start-up always completes.  From any reachable state, the threads' own steps cannot go on
  forever, a state in which none of them can step is the one with all workers in the event loop, the
  main thread done and the lock free, and such a state is reached: no wake-up is lost and nobody
  deadlocks.
\<close>

theorem barrier_completes:
  assumes "reach bar_init (bar_any n) s"
  shows "(\<exists>t. (bar_step n)\<^sup>*\<^sup>* s t \<and> all_running n t) \<and>
    (\<forall>t. (bar_step n)\<^sup>*\<^sup>* s t \<and> (\<forall>u. \<not> bar_step n t u) \<longrightarrow> all_running n t) \<and>
    \<not> (\<exists>f. f 0 = s \<and> (\<forall>k. bar_step n (f k) (f (Suc k))))"
  by (rule bar.completes[OF assms])

theorem barrier_completes_witness:
  "\<exists>t. (bar_step 3)\<^sup>*\<^sup>* barrier_start t \<and> all_running 3 t"
  using barrier_completes[OF barrier_start_reach] by blast

end
