(* ===== verification/Buffer_Cache.thy ===== *)
theory Buffer_Cache
  imports Upcall_Prelude
begin

text \<open>
  The per-thread object caches of the echo server (\<open>init_cache\<close>, \<open>cache_alloc\<close> and \<open>cache_free\<close>
  in \<open>event-tester/tcp_echo.c\<close>, the structs in \<open>event-tester/tcp_echo.h\<close>).  Entries live in a heap
  of nodes addressed by numbers; the free entries are linked through \<open>next\<close> from \<open>head\<close> to
  \<open>tail\<close>.  A pointer to the payload of an entry and the pointer to its header differ by a
  constant, so the payload pointer is the number of the entry.  \<open>'d\<close> is the type of the payload
  and \<open>entry_zero\<close> its all-zero value, which is what \<open>memset(buffer, 0, entry_sz)\<close> stores.
\<close>

section \<open>Model\<close>

record 'd buffer_entry =
  be_next :: "nat option"
  be_alloc_cpu :: nat
  be_data :: 'd

record 'd buffer_cache =
  head :: "nat option"
  tail :: "nat option"
  entry_zero :: 'd
  nodes :: "nat \<Rightarrow> 'd buffer_entry"
  brk :: nat

text \<open>\<open>calloc\<close> of one entry: the next unused address, all zero; \<open>ok\<close> says whether it succeeds.\<close>

definition calloc_entry :: "'d buffer_cache \<Rightarrow> nat \<times> 'd buffer_cache" where
  "calloc_entry c =
     (brk c, c\<lparr>nodes := (nodes c)(brk c := \<lparr>be_next = None, be_alloc_cpu = 0, be_data = entry_zero c\<rparr>),
               brk := brk c + 1\<rparr>)"

definition set_next :: "nat \<Rightarrow> nat option \<Rightarrow> 'd buffer_cache \<Rightarrow> 'd buffer_cache" where
  "set_next x p c = c\<lparr>nodes := (nodes c)(x := (nodes c x)\<lparr>be_next := p\<rparr>)\<rparr>"

definition set_data :: "nat \<Rightarrow> 'd \<Rightarrow> 'd buffer_cache \<Rightarrow> 'd buffer_cache" where
  "set_data x d c = c\<lparr>nodes := (nodes c)(x := (nodes c x)\<lparr>be_data := d\<rparr>)\<rparr>"

text \<open>
  \<open>cache_alloc\<close> does not test the result of \<open>calloc\<close> before it stores \<open>alloc_cpu\<close>, so running
  out of memory there is a null dereference; it never returns a null pointer.
\<close>

definition cache_alloc :: "bool \<Rightarrow> nat \<Rightarrow> 'd buffer_cache \<Rightarrow> (nat \<times> 'd buffer_cache) res" where
  "cache_alloc calloc_ok cpu c =
     (case head c of
        Some e \<Rightarrow>
          let c1 = c\<lparr>head := be_next (nodes c e)\<rparr>;
              c2 = (if head c1 = None then c1\<lparr>tail := None\<rparr> else c1);
              c3 = set_next e None c2
          in Inr (e, set_data e (entry_zero c) c3)
      | None \<Rightarrow>
          if \<not> calloc_ok then Inl (Fault NullDeref)
          else let (e, c1) = calloc_entry c;
                   c2 = c1\<lparr>nodes := (nodes c1)(e := (nodes c1 e)\<lparr>be_alloc_cpu := cpu\<rparr>)\<rparr>
               in Inr (e, set_data e (entry_zero c) c2))"

text \<open>
  \<open>cache_free\<close> reads the header in front of the payload at once: a null payload pointer is a wild
  access.  The entry is linked at the tail; its own \<open>next\<close> is not written.
\<close>

definition cache_free :: "'d buffer_cache \<Rightarrow> nat option \<Rightarrow> 'd buffer_cache res" where
  "cache_free c buff =
     (case buff of
        None \<Rightarrow> Inl (Fault NullDeref)
      | Some e \<Rightarrow>
          if e < brk c then
            let c1 = (case tail c of Some t \<Rightarrow> set_next t (Some e) c | None \<Rightarrow> c\<lparr>head := Some e\<rparr>)
            in Inr (c1\<lparr>tail := Some e\<rparr>)
          else Inl (Fault OutOfBounds))"

fun init_fill :: "(nat \<Rightarrow> bool) \<Rightarrow> nat \<Rightarrow> 'd buffer_cache \<Rightarrow> 'd buffer_cache res" where
  "init_fill calloc_ok 0 c = Inr c"
| "init_fill calloc_ok (Suc n) c =
     (if \<not> calloc_ok (brk c) then Inl (Fault NullDeref)
      else let (e, c1) = calloc_entry c in rbind (cache_free c1 (Some e)) (init_fill calloc_ok n))"

definition empty_cache :: "'d \<Rightarrow> 'd buffer_cache" where
  "empty_cache z = \<lparr>head = None, tail = None, entry_zero = z,
     nodes = (\<lambda>_. \<lparr>be_next = None, be_alloc_cpu = 0, be_data = z\<rparr>), brk = 0\<rparr>"

text \<open>\<open>init_cache\<close> returns null when the cache header itself cannot be allocated.\<close>

definition init_cache ::
  "bool \<Rightarrow> (nat \<Rightarrow> bool) \<Rightarrow> 'd \<Rightarrow> nat \<Rightarrow> 'd buffer_cache option res" where
  "init_cache header_ok calloc_ok z init_count =
     (if \<not> header_ok then Inr None
      else rbind (init_fill calloc_ok init_count (empty_cache z)) (\<lambda>c. Inr (Some c)))"

section \<open>The free list\<close>

text \<open>Following \<open>next\<close> from a pointer visits exactly these entries.\<close>

primrec chain :: "(nat \<Rightarrow> 'd buffer_entry) \<Rightarrow> nat option \<Rightarrow> nat list \<Rightarrow> bool" where
  "chain h p [] \<longleftrightarrow> p = None"
| "chain h p (x # xs) \<longleftrightarrow> p = Some x \<and> chain h (be_next (h x)) xs"

fun walk :: "nat \<Rightarrow> (nat \<Rightarrow> 'd buffer_entry) \<Rightarrow> nat option \<Rightarrow> nat list" where
  "walk n h None = []"
| "walk 0 h (Some x) = []"
| "walk (Suc n) h (Some x) = x # walk n h (be_next (h x))"

definition free_list :: "'d buffer_cache \<Rightarrow> nat list" where
  "free_list c = walk (brk c) (nodes c) (head c)"

text \<open>
  The invariant: the list from \<open>head\<close> is acyclic and ends at \<open>tail\<close>, its entries were allocated,
  and an entry that is handed out has a null \<open>next\<close> (which \<open>cache_free\<close> relies on).
\<close>

definition cache_inv :: "'d buffer_cache \<Rightarrow> nat list \<Rightarrow> bool" where
  "cache_inv c xs \<longleftrightarrow>
     chain (nodes c) (head c) xs \<and> distinct xs \<and>
     tail c = (if xs = [] then None else Some (last xs)) \<and>
     (\<forall>x \<in> set xs. x < brk c) \<and>
     (\<forall>x < brk c. x \<notin> set xs \<longrightarrow> be_next (nodes c x) = None)"

definition cache_ok :: "'d buffer_cache \<Rightarrow> bool" where
  "cache_ok c \<longleftrightarrow> cache_inv c (free_list c)"

definition in_use :: "'d buffer_cache \<Rightarrow> nat \<Rightarrow> bool" where
  "in_use c x \<longleftrightarrow> x < brk c \<and> x \<notin> set (free_list c)"

lemma chain_cong: "(\<And>x. x \<in> set xs \<Longrightarrow> be_next (h x) = be_next (h' x)) \<Longrightarrow> chain h p xs = chain h' p xs"
  by (induction xs arbitrary: p) auto

lemma chain_walk: "chain h p xs \<Longrightarrow> length xs \<le> n \<Longrightarrow> walk n h p = xs"
proof (induction xs arbitrary: n p)
  case Nil
  then show ?case by simp
next
  case (Cons x xs)
  then show ?case by (cases n) auto
qed

lemma length_le_brk: "distinct xs \<Longrightarrow> \<forall>x \<in> set xs. x < (n::nat) \<Longrightarrow> length xs \<le> n"
  using distinct_card[of xs] card_mono[of "{..<n}" "set xs"] by auto

lemma free_list_eq: "cache_inv c xs \<Longrightarrow> free_list c = xs"
  by (auto simp: cache_inv_def free_list_def intro: chain_walk length_le_brk)

lemma cache_inv_ok: "cache_inv c xs \<Longrightarrow> cache_ok c"
  by (simp add: cache_ok_def free_list_eq)

lemma chain_append_last:
  assumes "chain h p xs" "xs \<noteq> []" "distinct (xs @ [e])" "be_next (h e) = None"
  shows "chain (h(last xs := (h (last xs))\<lparr>be_next := Some e\<rparr>)) p (xs @ [e])"
  using assms
proof (induction xs arbitrary: p)
  case Nil
  then show ?case by simp
next
  case (Cons x xs)
  show ?case
  proof (cases "xs = []")
    case True
    with Cons.prems show ?thesis by auto
  next
    case False
    have "last xs \<noteq> x" using False Cons.prems(3) by auto
    then show ?thesis using Cons False by auto
  qed
qed

subsection \<open>Allocation\<close>

lemma cache_alloc_Cons:
  assumes "cache_inv c (x # xs)"
  shows "\<exists>c'. cache_alloc k cpu c = Inr (x, c') \<and> cache_inv c' xs \<and> brk c' = brk c \<and>
    entry_zero c' = entry_zero c \<and> be_data (nodes c' x) = entry_zero c \<and>
    (\<forall>y. y \<noteq> x \<longrightarrow> nodes c' y = nodes c y)"
proof -
  have h: "head c = Some x" "chain (nodes c) (be_next (nodes c x)) xs" "x \<notin> set xs"
    using assms by (auto simp: cache_inv_def)
  let ?c2 = "if be_next (nodes c x) = None then c\<lparr>head := be_next (nodes c x), tail := None\<rparr>
             else c\<lparr>head := be_next (nodes c x)\<rparr>"
  let ?c' = "set_data x (entry_zero c) (set_next x None ?c2)"
  have e: "cache_alloc k cpu c = Inr (x, ?c')" using h by (simp add: cache_alloc_def Let_def)
  have emp: "be_next (nodes c x) = None \<longleftrightarrow> xs = []"
    using h(2) by (cases xs) auto
  have nd: "nodes ?c' = (nodes c)(x := (nodes c x)\<lparr>be_next := None, be_data := entry_zero c\<rparr>)"
    "head ?c' = be_next (nodes c x)"
    by (auto simp: set_data_def set_next_def)
  have "chain (nodes ?c') (head ?c') xs = chain (nodes c) (head ?c') xs"
    by (rule chain_cong) (use h in \<open>auto simp: nd\<close>)
  then have "chain (nodes ?c') (head ?c') xs" using h nd(2) by simp
  moreover have "tail ?c' = (if xs = [] then None else Some (last xs))"
    using assms emp by (auto simp: cache_inv_def set_data_def set_next_def)
  ultimately have "cache_inv ?c' xs"
    using assms by (auto simp: cache_inv_def set_data_def set_next_def)
  with e show ?thesis by (intro exI[of _ ?c']) (auto simp: set_data_def set_next_def)
qed

lemma cache_alloc_Nil:
  assumes "cache_inv c []"
  shows "cache_alloc False cpu c = Inl (Fault NullDeref)"
    "\<exists>c'. cache_alloc True cpu c = Inr (brk c, c') \<and> cache_inv c' [] \<and> brk c' = brk c + 1 \<and>
    entry_zero c' = entry_zero c \<and> be_data (nodes c' (brk c)) = entry_zero c \<and>
    (\<forall>y. y \<noteq> brk c \<longrightarrow> nodes c' y = nodes c y)"
  using assms
  by (auto simp: cache_alloc_def cache_inv_def Let_def calloc_entry_def set_data_def less_Suc_eq)

subsection \<open>Release\<close>

lemma cache_free_append:
  assumes "cache_inv c xs" "x < brk c" "x \<notin> set xs"
  shows "\<exists>c'. cache_free c (Some x) = Inr c' \<and> cache_inv c' (xs @ [x]) \<and> brk c' = brk c \<and>
    entry_zero c' = entry_zero c \<and> (\<forall>y. be_data (nodes c' y) = be_data (nodes c y))"
proof -
  have nx: "be_next (nodes c x) = None" using assms by (auto simp: cache_inv_def)
  show ?thesis
  proof (cases "xs = []")
    case True
    with assms nx show ?thesis by (auto simp: cache_free_def cache_inv_def)
  next
    case False
    let ?c' = "(set_next (last xs) (Some x) c)\<lparr>tail := Some x\<rparr>"
    have t: "tail c = Some (last xs)" using assms False by (auto simp: cache_inv_def)
    have "chain (nodes ?c') (head ?c') (xs @ [x])"
      using chain_append_last[of "nodes c" "head c" xs x] assms False nx
      by (auto simp: cache_inv_def set_next_def)
    moreover have "last xs \<in> set xs" using False by simp
    ultimately have "cache_inv ?c' (xs @ [x])"
      using assms False by (auto simp: cache_inv_def set_next_def)
    with t assms(2) show ?thesis
      by (intro exI[of _ ?c']) (auto simp: cache_free_def set_next_def)
  qed
qed

section \<open>The cache as an object pool\<close>

text \<open>
  What the server relies on: an allocated object is not in use already and reads as zero, the
  other objects in use keep their contents, and releasing an object in use succeeds and takes
  exactly that object out of use.
\<close>

locale object_pool =
  fixes alloc :: "'e \<Rightarrow> 'c \<Rightarrow> ('b \<times> 'c) res"
    and release :: "'c \<Rightarrow> 'b \<Rightarrow> 'c res"
    and inv :: "'c \<Rightarrow> bool"
    and live :: "'c \<Rightarrow> 'b \<Rightarrow> bool"
    and contents :: "'c \<Rightarrow> 'b \<Rightarrow> 'd"
    and zero :: "'c \<Rightarrow> 'd"
  assumes alloc_spec: "inv c \<Longrightarrow> alloc e c = Inr (b, c') \<Longrightarrow>
      inv c' \<and> \<not> live c b \<and> (\<forall>x. live c' x \<longleftrightarrow> x = b \<or> live c x) \<and> contents c' b = zero c \<and>
      zero c' = zero c \<and> (\<forall>x. live c x \<longrightarrow> contents c' x = contents c x)"
    and release_spec: "inv c \<Longrightarrow> live c b \<Longrightarrow>
      \<exists>c'. release c b = Inr c' \<and> inv c' \<and> (\<forall>x. live c' x \<longleftrightarrow> live c x \<and> x \<noteq> b) \<and>
      zero c' = zero c \<and> (\<forall>x. live c x \<longrightarrow> contents c' x = contents c x)"
begin

lemma alloc_not_live: "inv c \<Longrightarrow> alloc e c = Inr (b, c') \<Longrightarrow> live c x \<Longrightarrow> x \<noteq> b"
  using alloc_spec by blast

text \<open>Two objects allocated in a row are different.\<close>

lemma alloc_twice:
  "inv c \<Longrightarrow> alloc e c = Inr (b, c') \<Longrightarrow> alloc e' c' = Inr (b', c'') \<Longrightarrow> b \<noteq> b'"
  using alloc_spec by metis

lemma release_alloc:
  assumes "inv c" "live c b" "release c b = Inr c'" "alloc e c' = Inr (b', c'')"
  shows "inv c'' \<and> (\<forall>x. live c x \<longrightarrow> x \<noteq> b \<longrightarrow> x \<noteq> b' \<and> contents c'' x = contents c x)"
  using release_spec[OF assms(1,2)] assms(3,4) alloc_spec by fastforce

end

definition pool_alloc :: "bool \<times> nat \<Rightarrow> 'd buffer_cache \<Rightarrow> (nat \<times> 'd buffer_cache) res" where
  "pool_alloc e c = cache_alloc (fst e) (snd e) c"

definition pool_release :: "'d buffer_cache \<Rightarrow> nat \<Rightarrow> 'd buffer_cache res" where
  "pool_release c b = cache_free c (Some b)"

definition payload :: "'d buffer_cache \<Rightarrow> nat \<Rightarrow> 'd" where
  "payload c x = be_data (nodes c x)"

lemma cache_alloc_spec:
  assumes "cache_ok c" "cache_alloc k cpu c = Inr (b, c')"
  shows "cache_ok c' \<and> \<not> in_use c b \<and> (\<forall>x. in_use c' x \<longleftrightarrow> x = b \<or> in_use c x) \<and>
    payload c' b = entry_zero c \<and> entry_zero c' = entry_zero c \<and>
    (\<forall>x. in_use c x \<longrightarrow> payload c' x = payload c x) \<and> free_list c' = tl (free_list c)"
proof (cases "free_list c")
  case Nil
  with assms have i: "cache_inv c []" by (simp add: cache_ok_def)
  then have "k" using assms(2) cache_alloc_Nil(1)[OF i, of cpu] by (cases k) auto
  then obtain c'' where "cache_alloc k cpu c = Inr (brk c, c'')" "cache_inv c'' []" "brk c'' = brk c + 1"
    "entry_zero c'' = entry_zero c" "be_data (nodes c'' (brk c)) = entry_zero c"
    "\<forall>y. y \<noteq> brk c \<longrightarrow> nodes c'' y = nodes c y"
    using cache_alloc_Nil(2)[OF i, of cpu] by auto
  with assms Nil show ?thesis
    by (auto simp: in_use_def payload_def cache_inv_ok free_list_eq less_Suc_eq)
next
  case (Cons x xs)
  with assms have i: "cache_inv c (x # xs)" by (simp add: cache_ok_def)
  then have "x < brk c" "x \<notin> set xs" by (auto simp: cache_inv_def)
  with cache_alloc_Cons[OF i, of k cpu] assms Cons show ?thesis
    by (auto simp: in_use_def payload_def cache_inv_ok free_list_eq)
qed

lemma cache_free_spec:
  assumes "cache_ok c" "in_use c b"
  shows "\<exists>c'. cache_free c (Some b) = Inr c' \<and> cache_ok c' \<and> (\<forall>x. in_use c' x \<longleftrightarrow> in_use c x \<and> x \<noteq> b) \<and>
    entry_zero c' = entry_zero c \<and> (\<forall>x. payload c' x = payload c x) \<and>
    free_list c' = free_list c @ [b]"
proof -
  have "b < brk c" "b \<notin> set (free_list c)" using assms(2) by (auto simp: in_use_def)
  from cache_free_append[OF assms(1)[unfolded cache_ok_def] this] obtain c' where
    "cache_free c (Some b) = Inr c'" "cache_inv c' (free_list c @ [b])" "brk c' = brk c"
    "entry_zero c' = entry_zero c" "\<forall>y. be_data (nodes c' y) = be_data (nodes c y)" by blast
  then show ?thesis
    by (auto simp: in_use_def payload_def cache_inv_ok free_list_eq)
qed

interpretation cache: object_pool pool_alloc pool_release cache_ok in_use payload entry_zero
proof unfold_locales
  fix c c' :: "'d buffer_cache" and e b
  assume "cache_ok c" "pool_alloc e c = Inr (b, c')"
  then show "cache_ok c' \<and> \<not> in_use c b \<and> (\<forall>x. in_use c' x \<longleftrightarrow> x = b \<or> in_use c x) \<and>
      payload c' b = entry_zero c \<and> entry_zero c' = entry_zero c \<and>
      (\<forall>x. in_use c x \<longrightarrow> payload c' x = payload c x)"
    using cache_alloc_spec[of c "fst e" "snd e" b c'] by (simp add: pool_alloc_def)
next
  fix c :: "'d buffer_cache" and b
  assume "cache_ok c" "in_use c b"
  then show "\<exists>c'. pool_release c b = Inr c' \<and> cache_ok c' \<and> (\<forall>x. in_use c' x \<longleftrightarrow> in_use c x \<and> x \<noteq> b) \<and>
      entry_zero c' = entry_zero c \<and> (\<forall>x. in_use c x \<longrightarrow> payload c' x = payload c x)"
    using cache_free_spec[of c b] by (auto simp: pool_release_def)
qed

section \<open>Setup\<close>

lemma init_fill_inv:
  "cache_inv c xs \<Longrightarrow> set xs = {..<brk c} \<Longrightarrow> (\<And>i. i < brk c + n \<Longrightarrow> calloc_ok i) \<Longrightarrow>
     \<exists>c'. init_fill calloc_ok n c = Inr c' \<and> cache_inv c' (xs @ [brk c..<brk c + n]) \<and>
       brk c' = brk c + n \<and> entry_zero c' = entry_zero c"
proof (induction n arbitrary: c xs)
  case 0
  then show ?case by simp
next
  case (Suc n)
  let ?c1 = "snd (calloc_entry c)"
  have sl: "set xs = {..<brk c}" by (rule Suc.prems)
  have c1: "brk ?c1 = brk c + 1" "head ?c1 = head c" "tail ?c1 = tail c" "entry_zero ?c1 = entry_zero c"
    "\<And>y. y \<noteq> brk c \<Longrightarrow> nodes ?c1 y = nodes c y" "be_next (nodes ?c1 (brk c)) = None"
    by (auto simp: calloc_entry_def)
  have "chain (nodes ?c1) (head c) xs = chain (nodes c) (head c) xs"
    by (rule chain_cong) (use sl c1 in auto)
  then have "cache_inv ?c1 xs" using Suc.prems(1) c1 sl
    by (auto simp: cache_inv_def less_Suc_eq)
  from cache_free_append[OF this, of "brk c"] obtain c2 where c2: "cache_free ?c1 (Some (brk c)) = Inr c2"
    "cache_inv c2 (xs @ [brk c])" "brk c2 = brk c + 1" "entry_zero c2 = entry_zero c"
    using c1 sl by auto
  have "\<exists>c'. init_fill calloc_ok n c2 = Inr c' \<and> cache_inv c' ((xs @ [brk c]) @ [brk c2..<brk c2 + n]) \<and>
       brk c' = brk c2 + n \<and> entry_zero c' = entry_zero c2"
    by (rule Suc.IH[OF c2(2)]) (use sl c2 Suc.prems(3) in auto)
  moreover have "fst (calloc_entry c) = brk c" by (simp add: calloc_entry_def)
  then have "init_fill calloc_ok (Suc n) c = init_fill calloc_ok n c2"
    using c2(1) Suc.prems(3)[of "brk c"] by (cases "calloc_entry c") simp
  moreover have "[brk c..<brk c + Suc n] = brk c # [Suc (brk c)..<Suc (brk c) + n]"
    by (simp add: upt_conv_Cons del: upt_Suc)
  ultimately show ?case using c2 by (simp del: upt_Suc)
qed

lemma empty_cache_inv: "cache_inv (empty_cache z) []"
  by (simp add: cache_inv_def empty_cache_def)

lemma init_cache_ok:
  assumes "\<And>i. i < n \<Longrightarrow> calloc_ok i"
  shows "\<exists>c. init_cache True calloc_ok z n = Inr (Some c) \<and> cache_ok c \<and> free_list c = [0..<n] \<and>
    brk c = n \<and> entry_zero c = z"
proof -
  have e: "brk (empty_cache z) = 0" "entry_zero (empty_cache z) = z" by (simp_all add: empty_cache_def)
  show ?thesis
    using init_fill_inv[OF empty_cache_inv, of z n calloc_ok] assms
    by (auto simp: e init_cache_def cache_inv_ok free_list_eq)
qed

section \<open>Clients of the cache\<close>

text \<open>
  A client that allocates and releases: it keeps the list of the objects it holds, newest first,
  and releases one of them by its position.  \<open>Alloc k cpu\<close> records whether \<open>calloc\<close> would succeed
  if this allocation had to call it.
\<close>

datatype cache_op = Alloc bool nat | Release nat

fun cache_client :: "cache_op list \<Rightarrow> nat list \<Rightarrow> 'd buffer_cache \<Rightarrow> (nat list \<times> 'd buffer_cache) res" where
  "cache_client [] objs c = Inr (objs, c)"
| "cache_client (Alloc k cpu # ops) objs c =
     rbind (cache_alloc k cpu c) (\<lambda>(b, c'). cache_client ops (b # objs) c')"
| "cache_client (Release i # ops) objs c =
     (if i < length objs
      then rbind (cache_free c (Some (objs ! i))) (cache_client ops (take i objs @ drop (Suc i) objs))
      else cache_client ops objs c)"

lemma cache_client_holds:
  "cache_ok c \<Longrightarrow> distinct objs \<Longrightarrow> (\<forall>x. in_use c x \<longleftrightarrow> x \<in> set objs) \<Longrightarrow>
     (case cache_client ops objs c of
        Inr (objs', c') \<Rightarrow> cache_ok c' \<and> distinct objs' \<and> (\<forall>x. in_use c' x \<longleftrightarrow> x \<in> set objs')
      | Inl e \<Rightarrow> e = Fault NullDeref \<and> (\<exists>cpu. Alloc False cpu \<in> set ops))"
proof (induction ops objs c rule: cache_client.induct)
  case (1 objs c)
  then show ?case by simp
next
  case (2 k cpu ops objs c)
  show ?case
  proof (cases "cache_alloc k cpu c")
    case (Inl e)
    have "e = Fault NullDeref \<and> \<not> k"
      using Inl by (auto simp: cache_alloc_def calloc_entry_def Let_def split: option.splits if_splits)
    with Inl show ?thesis by (cases k) auto
  next
    case (Inr r)
    obtain b c' where r: "r = (b, c')" by (cases r)
    note s = cache_alloc_spec[OF 2(2) Inr[unfolded r]]
    have "cache_ok c'" "distinct (b # objs)" "\<forall>x. in_use c' x \<longleftrightarrow> x \<in> set (b # objs)"
      using s 2(3,4) by auto
    from 2(1)[OF Inr _ this] r Inr show ?thesis
      by (auto split: sum.splits)
  qed
next
  case (3 i ops objs c)
  show ?case
  proof (cases "i < length objs")
    case True
    let ?objs = "take i objs @ drop (Suc i) objs"
    have split: "objs = take i objs @ objs ! i # drop (Suc i) objs" using True by (rule id_take_nth_drop)
    then have set: "set ?objs = set objs - {objs ! i}" and dist: "distinct ?objs"
      using 3(4) by (metis (no_types, lifting) Diff_insert_absorb distinct.simps(2) distinct_append
          insert_Diff_if list.set(2) set_append Un_insert_right disjoint_insert(1) UnE not_distinct_conv_prefix)+
    have "in_use c (objs ! i)" using True 3(5) by simp
    from cache_free_spec[OF 3(3) this] obtain c' where c': "cache_free c (Some (objs ! i)) = Inr c'"
      "cache_ok c'" "\<forall>x. in_use c' x \<longleftrightarrow> in_use c x \<and> x \<noteq> objs ! i" by blast
    have "\<forall>x. in_use c' x \<longleftrightarrow> x \<in> set ?objs" using c'(3) 3(5) set by auto
    from 3(1)[OF True c'(1) c'(2) dist this] True c'(1) show ?thesis
      by (auto split: sum.splits)
  next
    case False
    with 3(2)[OF False 3(3,4,5)] show ?thesis by (auto split: sum.splits)
  qed
qed

section \<open>Properties\<close>

text \<open>
  \<open>init_cache\<close> with memory available returns a cache whose free list is exactly the
  \<open>init_count\<close> entries it allocated, in allocation order, well linked from head to tail; without
  memory for the header it returns null.
\<close>

theorem init_cache_fills:
  "init_cache False ok_fn z n = Inr None \<and>
   (\<exists>c. init_cache True (\<lambda>_. True) z n = Inr (Some c) \<and> cache_ok c \<and> free_list c = [0..<n] \<and>
        (\<forall>x. \<not> in_use c x) \<and> entry_zero c = z)"
  using init_cache_ok[of n "\<lambda>_. True" z] by (auto simp: init_cache_def in_use_def)

text \<open>
  A well-formed cache is a FIFO queue of free entries.  \<open>cache_free\<close> of an entry in use
  succeeds and appends it to the free list without touching any payload; \<open>cache_alloc\<close> takes the
  entry that has been free longest, hands it out zeroed and detached, and calls \<open>calloc\<close> only when
  the list is empty, where running out of memory is a null dereference.
\<close>

theorem cache_is_fifo:
  assumes "cache_ok c"
  shows "(in_use c b \<longrightarrow> (\<exists>c'. cache_free c (Some b) = Inr c' \<and> cache_ok c' \<and>
            free_list c' = free_list c @ [b] \<and> (\<forall>x. payload c' x = payload c x))) \<and>
     (case free_list c of
        x # xs \<Rightarrow> (\<exists>c'. cache_alloc k cpu c = Inr (x, c') \<and> cache_ok c' \<and> free_list c' = xs \<and>
                     payload c' x = entry_zero c \<and> (\<forall>y. in_use c y \<longrightarrow> payload c' y = payload c y))
      | [] \<Rightarrow> if k then \<exists>c'. cache_alloc k cpu c = Inr (brk c, c') \<and> cache_ok c' \<and> free_list c' = [] \<and>
                     payload c' (brk c) = entry_zero c \<and> (\<forall>y. in_use c y \<longrightarrow> payload c' y = payload c y)
              else cache_alloc k cpu c = Inl (Fault NullDeref))"
proof -
  have f: "in_use c b \<longrightarrow> (\<exists>c'. cache_free c (Some b) = Inr c' \<and> cache_ok c' \<and>
            free_list c' = free_list c @ [b] \<and> (\<forall>x. payload c' x = payload c x))"
    using cache_free_spec[OF assms] by blast
  show ?thesis
  proof (cases "free_list c")
    case Nil
    then have i: "cache_inv c []" using assms by (simp add: cache_ok_def)
    show ?thesis
      using f Nil cache_alloc_Nil[OF i, of cpu] cache_alloc_spec[OF assms, of k cpu]
      by (cases k) auto
  next
    case (Cons x xs)
    then have i: "cache_inv c (x # xs)" using assms by (simp add: cache_ok_def)
    show ?thesis
      using f Cons cache_alloc_Cons[OF i, of k cpu] cache_alloc_spec[OF assms, of k cpu] by auto
  qed
qed

definition sample_cache :: "nat list buffer_cache" where
  "sample_cache = \<lparr>head = Some 1, tail = Some 1, entry_zero = [0, 0],
     nodes = (\<lambda>_. \<lparr>be_next = None, be_alloc_cpu = 0, be_data = [5, 6]\<rparr>), brk = 2\<rparr>"

lemma sample_cache_ok: "cache_ok sample_cache" "free_list sample_cache = [1]" "in_use sample_cache 0"
  by (simp_all add: cache_ok_def cache_inv_def free_list_def sample_cache_def in_use_def numeral_2_eq_2)

theorem cache_is_fifo_witness:
  "\<exists>c'. cache_free sample_cache (Some 0) = Inr c' \<and> free_list c' = [1, 0]"
  using cache_is_fifo[OF sample_cache_ok(1), of 0 True 0] sample_cache_ok by auto

text \<open>
  C24: No client of the cache can be handed an object it already holds: run any sequence of
  allocations and releases of held objects on a freshly initialised cache of any size; unless
  \<open>calloc\<close> fails in it, the run does not fault, the held objects are pairwise different, and the
  cache considers exactly these in use.
\<close>

theorem cache_no_double_handout:
  assumes "init_cache True (\<lambda>_. True) z n = Inr (Some c)"
  shows "case cache_client ops [] c of
      Inr (objs, c') \<Rightarrow> distinct objs \<and> cache_ok c' \<and> (\<forall>x. in_use c' x \<longleftrightarrow> x \<in> set objs)
    | Inl e \<Rightarrow> e = Fault NullDeref \<and> (\<exists>cpu. Alloc False cpu \<in> set ops)"
proof -
  have "cache_ok c" "\<forall>x. \<not> in_use c x"
    using init_cache_ok[of n "\<lambda>_. True" z] assms by (auto simp: in_use_def)
  then show ?thesis using cache_client_holds[of c "[]" ops] by (auto split: sum.splits)
qed

theorem cache_no_double_handout_witness:
  "\<exists>c. init_cache True (\<lambda>_. True) (0::nat) 1 = Inr (Some c) \<and>
     (\<exists>c'. cache_client [Alloc True 0, Alloc True 0, Release 1, Alloc True 0] [] c = Inr ([0, 1], c') \<and>
           cache_ok c')"
proof -
  obtain c where c: "init_cache True (\<lambda>_. True) (0::nat) 1 = Inr (Some c)"
    using init_cache_ok[of 1 "\<lambda>_. True" "0::nat"] by auto
  then have ceq: "c = \<lparr>head = Some 0, tail = Some 0, entry_zero = 0,
      nodes = (\<lambda>_. \<lparr>be_next = None, be_alloc_cpu = 0, be_data = 0\<rparr>)
        (0 := \<lparr>be_next = None, be_alloc_cpu = 0, be_data = 0\<rparr>), brk = 1\<rparr>"
    by (simp add: init_cache_def empty_cache_def calloc_entry_def cache_free_def)
  have "\<exists>c'. cache_client [Alloc True 0, Alloc True 0, Release 1, Alloc True 0] [] c = Inr ([0, 1], c')"
    by (simp add: ceq cache_alloc_def calloc_entry_def cache_free_def set_next_def set_data_def)
  then obtain c' where r: "cache_client [Alloc True 0, Alloc True 0, Release 1, Alloc True 0] [] c = Inr ([0, 1], c')"
    by blast
  from cache_no_double_handout[OF c, of "[Alloc True 0, Alloc True 0, Release 1, Alloc True 0]"] r c
  show ?thesis by auto
qed

end
