(* ===== verification/Echo_Core.thy ===== *)
theory Echo_Core
  imports Buffer_Cache
begin

text \<open>
  What the implementations of the echo server share (\<open>event-tester/tcp_echo.h\<close>,
  \<open>event-tester/tcp_echo.c\<close>): connections, the table \<open>conns\<close> indexed by file descriptor, the two
  per-thread caches, and the operations on them.  The state is one worker thread's view: its own
  thread-locals and the part of the shared tables it uses.
\<close>

section \<open>Connections\<close>

type_synonym byte = "8 word"

text \<open>
  \<open>struct connection\<close>; the log pointers are unused and the mutex is never locked, so neither is
  modelled.  \<open>cn_buffer\<close> points to an entry of the message cache.
\<close>

record connection =
  cn_cursor :: nat
  cn_buffer :: "nat option"
  cn_event_count :: nat
  cn_port :: nat
  cn_state :: int
  cn_fd :: int

definition zero_connection :: connection where
  "zero_connection = \<lparr>cn_cursor = 0, cn_buffer = None, cn_event_count = 0, cn_port = 0, cn_state = 0, cn_fd = 0\<rparr>"

definition CONNECT :: int where "CONNECT = 0"
definition WAITING :: int where "WAITING = 1"
definition READING :: int where "READING = 2"
definition WRITING :: int where "WRITING = 3"
definition CLOSING :: int where "CLOSING = 4"

definition BUF_COUNT :: nat where "BUF_COUNT = 32"
definition MAX_CONNS :: int where "MAX_CONNS = 1024"

text \<open>
  The state of a worker: the global connection table and message size, the thread-local caches
  and \<open>me\<close>.  \<open>msg_at\<close> gives the address (block) of the payload of a message entry, and
  \<open>closed_fds\<close> records the calls of \<open>close\<close>, newest first.
\<close>

record echo =
  conns :: "int \<Rightarrow> nat option"
  max_fd :: int
  msg_size :: nat
  conn_cache :: "connection buffer_cache"
  msg_cache :: "byte list buffer_cache"
  msg_at :: "nat \<Rightarrow> nat"
  index :: nat
  accept_count :: nat
  conn_count :: nat
  closed_fds :: "int list"

text \<open>The lists \<open>threads[i]->incoming\<close> of descriptors that wait for their thread, newest first.\<close>

type_synonym incoming = "nat \<Rightarrow> int list"

text \<open>\<open>init_conns\<close>: the table covers every descriptor the process can get.\<close>

definition init_conns :: "int \<Rightarrow> int option \<Rightarrow> bool \<Rightarrow> ((int \<Rightarrow> nat option) \<times> int) res" where
  "init_conns dup_fd rlim_max calloc_ok =
     (if dup_fd < 0 then Inl (Exit (- 1))
      else let m = (case rlim_max of Some r \<Rightarrow> r | None \<Rightarrow> dup_fd + MAX_CONNS + 10)
           in if \<not> calloc_ok then Inl (Exit (- 1)) else Inr (\<lambda>_. None, m))"

text \<open>An access \<open>conns[fd]\<close>.\<close>

definition conn_slot :: "echo \<Rightarrow> int \<Rightarrow> nat option res" where
  "conn_slot e fd = (if 0 \<le> fd \<and> fd < max_fd e then Inr (conns e fd) else Inl (Fault OutOfBounds))"

definition set_conn_slot :: "int \<Rightarrow> nat option \<Rightarrow> echo \<Rightarrow> echo res" where
  "set_conn_slot fd p e =
     (if 0 \<le> fd \<and> fd < max_fd e then Inr (e\<lparr>conns := (conns e)(fd := p)\<rparr>) else Inl (Fault OutOfBounds))"

text \<open>Following a connection pointer, and storing through it.\<close>

definition deref :: "nat option \<Rightarrow> nat res" where
  "deref p = (case p of None \<Rightarrow> Inl (Fault NullDeref) | Some x \<Rightarrow> Inr x)"

definition conn :: "echo \<Rightarrow> nat \<Rightarrow> connection" where
  "conn e c = payload (conn_cache e) c"

definition upd_conn :: "nat \<Rightarrow> (connection \<Rightarrow> connection) \<Rightarrow> echo \<Rightarrow> echo" where
  "upd_conn c f e = e\<lparr>conn_cache := set_data c (f (conn e c)) (conn_cache e)\<rparr>"

definition msg :: "echo \<Rightarrow> nat \<Rightarrow> byte list" where
  "msg e b = payload (msg_cache e) b"

text \<open>\<open>new_conn\<close>; its test for a null pointer is never true, since \<open>cache_alloc\<close> returns none.\<close>

definition new_conn :: "bool \<Rightarrow> int \<Rightarrow> echo \<Rightarrow> (nat \<times> echo) res" where
  "new_conn calloc_ok fd e =
     rbind (cache_alloc calloc_ok (index e) (conn_cache e))
       (\<lambda>(c, cc). Inr (c, upd_conn c (\<lambda>cn. cn\<lparr>cn_fd := fd\<rparr>) (e\<lparr>conn_cache := cc\<rparr>)))"

text \<open>\<open>if (!conn->buffer) conn->buffer = cache_alloc(msg_cache, me->index)\<close>.\<close>

definition ensure_buffer :: "bool \<Rightarrow> nat \<Rightarrow> echo \<Rightarrow> echo res" where
  "ensure_buffer calloc_ok c e =
     (case cn_buffer (conn e c) of
        Some _ \<Rightarrow> Inr e
      | None \<Rightarrow> rbind (cache_alloc calloc_ok (index e) (msg_cache e))
          (\<lambda>(b, mc). Inr (upd_conn c (\<lambda>cn. cn\<lparr>cn_buffer := Some b\<rparr>) (e\<lparr>msg_cache := mc\<rparr>))))"

text \<open>
  Storing \<open>bs\<close> at offset \<open>off\<close> of a message buffer: outside the entry it is a heap overflow.
\<close>

definition splice :: "nat \<Rightarrow> 'a list \<Rightarrow> 'a list \<Rightarrow> 'a list" where
  "splice off bs xs = take off xs @ bs @ drop (off + length bs) xs"

definition store_msg :: "nat option \<Rightarrow> nat \<Rightarrow> byte list \<Rightarrow> echo \<Rightarrow> echo res" where
  "store_msg p off bs e =
     rbind (deref p) (\<lambda>b.
       if off + length bs \<le> length (msg e b)
       then Inr (e\<lparr>msg_cache := set_data b (splice off bs (msg e b)) (msg_cache e)\<rparr>)
       else Inl (Fault OutOfBounds))"

text \<open>The two releases at the end of a connection: first its buffer, then the connection itself.\<close>

definition free_conn :: "nat \<Rightarrow> echo \<Rightarrow> echo res" where
  "free_conn c e =
     rbind (cache_free (msg_cache e) (cn_buffer (conn e c))) (\<lambda>mc.
     rbind (cache_free (conn_cache e) (Some c)) (\<lambda>cc.
       Inr (e\<lparr>msg_cache := mc, conn_cache := cc\<rparr>)))"

section \<open>Well-formed connection tables\<close>

text \<open>
  A slot of \<open>conns\<close> that is set points to a connection in use whose \<open>fd\<close> is the index and whose
  cursor is inside the message; if it has a buffer, that is a message entry in use, of full size,
  and no other connection has it.
\<close>

definition conn_wf :: "echo \<Rightarrow> int \<Rightarrow> nat \<Rightarrow> bool" where
  "conn_wf e fd c \<longleftrightarrow> 0 \<le> fd \<and> fd < max_fd e \<and> in_use (conn_cache e) c \<and> cn_fd (conn e c) = fd \<and>
     cn_cursor (conn e c) < msg_size e \<and>
     (\<forall>b. cn_buffer (conn e c) = Some b \<longrightarrow> in_use (msg_cache e) b \<and> length (msg e b) = msg_size e)"

definition echo_wf :: "echo \<Rightarrow> bool" where
  "echo_wf e \<longleftrightarrow>
     cache_ok (conn_cache e) \<and> cache_ok (msg_cache e) \<and>
     entry_zero (conn_cache e) = zero_connection \<and> entry_zero (msg_cache e) = replicate (msg_size e) 0 \<and>
     (\<forall>fd c. conns e fd = Some c \<longrightarrow> conn_wf e fd c) \<and>
     (\<forall>fd fd' c c' b. conns e fd = Some c \<longrightarrow> conns e fd' = Some c' \<longrightarrow>
        cn_buffer (conn e c) = Some b \<longrightarrow> cn_buffer (conn e c') = Some b \<longrightarrow> fd = fd')"

text \<open>Every open connection has its message buffer.\<close>

definition buffered :: "echo \<Rightarrow> bool" where
  "buffered e \<longleftrightarrow> (\<forall>fd c. conns e fd = Some c \<longrightarrow> cn_buffer (conn e c) \<noteq> None)"

text \<open>What is fixed once a worker runs.\<close>

definition same_config :: "echo \<Rightarrow> echo \<Rightarrow> bool" where
  "same_config e e' \<longleftrightarrow> max_fd e' = max_fd e \<and> msg_size e' = msg_size e \<and> msg_at e' = msg_at e \<and>
     index e' = index e"

text \<open>
  The table without its pointers: the connection at a descriptor and the contents of its buffer.
\<close>

definition view_at :: "echo \<Rightarrow> nat \<Rightarrow> connection \<times> byte list option" where
  "view_at e c = (conn e c, map_option (msg e) (cn_buffer (conn e c)))"

definition view :: "echo \<Rightarrow> int \<Rightarrow> (connection \<times> byte list option) option" where
  "view e fd = map_option (view_at e) (conns e fd)"

lemma echo_wfD:
  assumes "echo_wf e"
  shows "cache_ok (conn_cache e)" "cache_ok (msg_cache e)"
    "conns e fd = Some c \<Longrightarrow> conn_wf e fd c"
    "conns e fd = Some c \<Longrightarrow> conns e fd' = Some c' \<Longrightarrow> cn_buffer (conn e c) = Some b \<Longrightarrow>
       cn_buffer (conn e c') = Some b \<Longrightarrow> fd = fd'"
    "entry_zero (conn_cache e) = zero_connection" "entry_zero (msg_cache e) = replicate (msg_size e) 0"
  using assms unfolding echo_wf_def by blast+

lemma echo_wfI:
  assumes "cache_ok (conn_cache e)" "cache_ok (msg_cache e)"
    "entry_zero (conn_cache e) = zero_connection" "entry_zero (msg_cache e) = replicate (msg_size e) 0"
    "\<And>fd c. conns e fd = Some c \<Longrightarrow> conn_wf e fd c"
    "\<And>fd fd' c c' b. conns e fd = Some c \<Longrightarrow> conns e fd' = Some c' \<Longrightarrow> cn_buffer (conn e c) = Some b \<Longrightarrow>
       cn_buffer (conn e c') = Some b \<Longrightarrow> fd = fd'"
  shows "echo_wf e"
  unfolding echo_wf_def using assms by blast

lemma same_conn_same_fd: "echo_wf e \<Longrightarrow> conns e fd = Some c \<Longrightarrow> conns e fd' = Some c \<Longrightarrow> fd = fd'"
  using echo_wfD(3)[of e fd c] echo_wfD(3)[of e fd' c] by (simp add: conn_wf_def)

lemma open_in_range: "echo_wf e \<Longrightarrow> conns e fd = Some c \<Longrightarrow>
  0 \<le> fd \<and> fd < max_fd e \<and> cn_fd (conn e c) = fd \<and> cn_cursor (conn e c) < msg_size e"
  using echo_wfD(3)[of e fd c] by (simp add: conn_wf_def)

lemma conn_slot_open: "echo_wf e \<Longrightarrow> conns e fd = Some c \<Longrightarrow> conn_slot e fd = Inr (Some c)"
  using open_in_range[of e fd c] by (simp add: conn_slot_def)

lemma same_config_refl [simp]: "same_config e e"
  by (simp add: same_config_def)

lemma same_config_trans: "same_config e e' \<Longrightarrow> same_config e' e'' \<Longrightarrow> same_config e e''"
  by (simp add: same_config_def)

lemma view_eq_None [simp]: "view e fd = None \<longleftrightarrow> conns e fd = None"
  by (simp add: view_def)

lemma view_conns: "conns e fd = Some c \<Longrightarrow> view e fd = Some (view_at e c)"
  by (simp add: view_def)

lemma buffered_view:
  "buffered e \<longleftrightarrow> (\<forall>fd. case view e fd of None \<Rightarrow> True | Some v \<Rightarrow> snd v \<noteq> None)"
proof -
  have "(case view e fd of None \<Rightarrow> True | Some v \<Rightarrow> snd v \<noteq> None) \<longleftrightarrow>
      (\<forall>c. conns e fd = Some c \<longrightarrow> cn_buffer (conn e c) \<noteq> None)" for fd
    by (cases "conns e fd") (simp_all add: view_def view_at_def)
  then show ?thesis by (simp add: buffered_def)
qed

lemma echo_wf_cong:
  assumes "conns e' = conns e" "conn_cache e' = conn_cache e" "msg_cache e' = msg_cache e"
    "max_fd e' = max_fd e" "msg_size e' = msg_size e"
  shows "echo_wf e' = echo_wf e" "view e' = view e" "buffered e' = buffered e"
proof -
  have cn: "conn e' = conn e" and ms: "msg e' = msg e" using assms by (simp_all add: fun_eq_iff conn_def msg_def)
  show "echo_wf e' = echo_wf e" unfolding echo_wf_def conn_wf_def cn ms assms ..
  show v: "view e' = view e" unfolding fun_eq_iff view_def view_at_def cn ms assms by blast
  show "buffered e' = buffered e" unfolding buffered_view v ..
qed

text \<open>
  A change of one slot: the tables stay well-formed, and the view of the other descriptors stays, if
  the entries and the buffers of the other connections are what they were.
\<close>

lemma slot_change:
  assumes wf: "echo_wf e"
    and ok: "cache_ok (conn_cache e')" "cache_ok (msg_cache e')" "entry_zero (conn_cache e') = zero_connection"
      "entry_zero (msg_cache e') = replicate (msg_size e') 0"
    and cfg: "max_fd e' = max_fd e" "msg_size e' = msg_size e" and cns: "conns e' = (conns e)(fd := slot)"
    and others: "\<And>x y. conns e x = Some y \<Longrightarrow> x \<noteq> fd \<Longrightarrow> conn e' y = conn e y \<and> in_use (conn_cache e') y"
    and bufs: "\<And>x y b. conns e x = Some y \<Longrightarrow> x \<noteq> fd \<Longrightarrow> cn_buffer (conn e y) = Some b \<Longrightarrow>
      in_use (msg_cache e') b \<and> msg e' b = msg e b"
    and own: "\<And>c. slot = Some c \<Longrightarrow> conn_wf e' fd c"
    and own_buf: "\<And>c b x y. slot = Some c \<Longrightarrow> cn_buffer (conn e' c) = Some b \<Longrightarrow> conns e x = Some y \<Longrightarrow>
      x \<noteq> fd \<Longrightarrow> cn_buffer (conn e y) = Some b \<Longrightarrow> False"
  shows "echo_wf e' \<and> view e' = (view e)(fd := map_option (view_at e') slot)"
proof
  note w = echo_wfD[OF wf]
  show "echo_wf e'"
  proof (rule echo_wfI[OF ok])
    fix x c assume x: "conns e' x = Some c"
    show "conn_wf e' x c"
    proof (cases "x = fd")
      case True
      then show ?thesis using x own cns by simp
    next
      case False
      then have c: "conns e x = Some c" using x cns by simp
      from others[OF this False] w(3)[OF this] bufs[OF this False] show ?thesis
        by (cases "cn_buffer (conn e c)") (auto simp: conn_wf_def cfg)
    qed
  next
    fix x x' c c' b
    assume a: "conns e' x = Some c" "conns e' x' = Some c'" "cn_buffer (conn e' c) = Some b" "cn_buffer (conn e' c') = Some b"
    then show "x = x'"
      using w(4)[of x c x' c' b] others[of x c] others[of x' c'] own_buf[of c b x' c'] own_buf[of c' b x c]
      unfolding cns by (cases "x = fd"; cases "x' = fd") auto
  qed
  show "view e' = (view e)(fd := map_option (view_at e') slot)"
  proof
    fix x show "view e' x = ((view e)(fd := map_option (view_at e') slot)) x"
    proof (cases "x = fd \<or> conns e x = None")
      case False
      then obtain y where y: "conns e x = Some y" "x \<noteq> fd" by blast
      have "view_at e' y = view_at e y"
        using others[OF y] bufs[OF y] by (cases "cn_buffer (conn e y)") (simp_all add: view_at_def)
      then show ?thesis using y by (simp add: view_def cns)
    qed (auto simp: view_def cns)
  qed
qed

subsection \<open>Payload updates\<close>

lemma set_data_simps [simp]:
  "brk (set_data x d c) = brk c" "head (set_data x d c) = head c" "tail (set_data x d c) = tail c"
  "entry_zero (set_data x d c) = entry_zero c" "be_next (nodes (set_data x d c) y) = be_next (nodes c y)"
  "payload (set_data x d c) y = (if y = x then d else payload c y)"
  by (auto simp: set_data_def payload_def)

lemma cache_inv_set_data [simp]: "cache_inv (set_data x d c) xs = cache_inv c xs"
  using chain_cong[of xs "nodes (set_data x d c)" "nodes c"] by (auto simp: cache_inv_def)

lemma cache_ok_set_data [simp]:
  assumes "cache_ok c"
  shows "cache_ok (set_data x d c)" "free_list (set_data x d c) = free_list c"
    "in_use (set_data x d c) y = in_use c y"
proof -
  have i: "cache_inv (set_data x d c) (free_list c)" using assms by (simp add: cache_ok_def)
  show "cache_ok (set_data x d c)" by (rule cache_inv_ok[OF i])
  show f: "free_list (set_data x d c) = free_list c" by (rule free_list_eq[OF i])
  show "in_use (set_data x d c) y = in_use c y" by (simp add: in_use_def f)
qed

lemma length_splice [simp]: "off + length bs \<le> length xs \<Longrightarrow> length (splice off bs xs) = length xs"
  by (simp add: splice_def)

lemma take_splice: "off + length bs \<le> length xs \<Longrightarrow> take (off + length bs) (splice off bs xs) = take off xs @ bs"
  by (simp add: splice_def)

lemma conn_upd_conn: "conn (upd_conn c f e) c' = (if c' = c then f (conn e c) else conn e c')"
  by (simp add: upd_conn_def conn_def)

lemma upd_conn_simps [simp]:
  "conns (upd_conn c f e) = conns e" "max_fd (upd_conn c f e) = max_fd e"
  "msg_size (upd_conn c f e) = msg_size e" "msg_cache (upd_conn c f e) = msg_cache e"
  "msg (upd_conn c f e) b = msg e b" "index (upd_conn c f e) = index e" "msg_at (upd_conn c f e) = msg_at e"
  "closed_fds (upd_conn c f e) = closed_fds e" "same_config (upd_conn c f e) e' = same_config e e'"
  "same_config e' (upd_conn c f e) = same_config e' e" "conn_count (upd_conn c f e) = conn_count e"
  "accept_count (upd_conn c f e) = accept_count e"
  by (simp_all add: upd_conn_def msg_def same_config_def)

lemma cache_ok_upd_conn:
  assumes "cache_ok (conn_cache e)"
  shows "cache_ok (conn_cache (upd_conn c f e))" "in_use (conn_cache (upd_conn c f e)) x = in_use (conn_cache e) x"
    "entry_zero (conn_cache (upd_conn c f e)) = entry_zero (conn_cache e)"
  using assms by (simp_all add: upd_conn_def)

text \<open>Updating one connection changes the view of its own descriptor only.\<close>

lemma view_upd_conn:
  assumes "echo_wf e" "conns e fd = Some c"
  shows "view (upd_conn c f e) = (view e)(fd := Some (f (conn e c), map_option (msg e) (cn_buffer (f (conn e c)))))"
proof
  fix x
  have v: "view_at (upd_conn c f e) y = (if y = c then (f (conn e c), map_option (msg e) (cn_buffer (f (conn e c))))
       else view_at e y)" for y
  proof -
    have "msg (upd_conn c f e) = msg e" by (rule ext) simp
    then show ?thesis by (simp add: view_at_def conn_upd_conn)
  qed
  show "view (upd_conn c f e) x = ((view e)(fd := Some (f (conn e c), map_option (msg e) (cn_buffer (f (conn e c)))))) x"
  proof (cases "conns e x")
    case None
    then show ?thesis using assms(2) by (auto simp: view_def)
  next
    case (Some y)
    have "x = fd" if "y = c" using same_conn_same_fd[OF assms(1) Some] assms(2) that by simp
    moreover have "y = c" if "x = fd" using Some assms(2) that by simp
    ultimately have "y = c \<longleftrightarrow> x = fd" by blast
    then show ?thesis using Some by (cases "x = fd") (simp_all add: view_def v)
  qed
qed

text \<open>
  An update of one connection that keeps its descriptor and buffer and leaves the cursor inside
  the message keeps the table well-formed.
\<close>

lemma echo_wf_upd_conn:
  assumes "echo_wf e" "cn_fd (f (conn e c)) = cn_fd (conn e c)"
    "cn_buffer (f (conn e c)) = cn_buffer (conn e c)" "cn_cursor (f (conn e c)) < msg_size e"
  shows "echo_wf (upd_conn c f e)"
proof -
  note ok = echo_wfD(1)[OF assms(1)]
  note cc = cache_ok_upd_conn[OF ok, of c f]
  have k: "cn_buffer (conn (upd_conn c f e) x) = cn_buffer (conn e x)"
    "cn_fd (conn (upd_conn c f e) x) = cn_fd (conn e x)"
    "cn_cursor (conn e x) < msg_size e \<Longrightarrow> cn_cursor (conn (upd_conn c f e) x) < msg_size e" for x
    using assms(2-4) by (simp_all add: conn_upd_conn)
  have "conn_wf (upd_conn c f e) fd c'" if "conns e fd = Some c'" for fd c'
    using echo_wfD(3)[OF assms(1) that] by (simp add: conn_wf_def k cc)
  then show ?thesis using assms(1) unfolding echo_wf_def by (simp add: k cc)
qed

text \<open>Storing into the buffer of an open connection.\<close>

lemma store_msg_open:
  assumes wf: "echo_wf e" and c: "conns e fd = Some c" and b: "cn_buffer (conn e c) = Some b"
    and room: "off + length bs \<le> msg_size e"
  shows "\<exists>e'. store_msg (cn_buffer (conn e c)) off bs e = Inr e' \<and> echo_wf e' \<and> conns e' = conns e \<and>
    conn_cache e' = conn_cache e \<and> same_config e e' \<and> closed_fds e' = closed_fds e \<and>
    view e' = (view e)(fd := Some (conn e c, Some (splice off bs (msg e b))))"
proof -
  note w = echo_wfD[OF wf]
  have b': "in_use (msg_cache e) b" "length (msg e b) = msg_size e" using w(3)[OF c] b by (auto simp: conn_wf_def)
  let ?e' = "e\<lparr>msg_cache := set_data b (splice off bs (msg e b)) (msg_cache e)\<rparr>"
  have m: "msg ?e' x = (if x = b then splice off bs (msg e b) else msg e x)" for x by (simp add: msg_def)
  have cn: "conn ?e' x = conn e x" for x by (simp add: conn_def)
  have nb: "b' \<noteq> b" if "conns e x = Some y" "x \<noteq> fd" "cn_buffer (conn e y) = Some b'" for x y b'
    using w(4)[OF that(1) c that(3)] b that(2) by blast
  have "echo_wf ?e' \<and> view ?e' = (view e)(fd := map_option (view_at ?e') (Some c))"
  proof (rule slot_change[OF wf])
    show "conns ?e' = (conns e)(fd := Some c)" using c by auto
    show "conn_wf ?e' fd c'" if "Some c = Some c'" for c'
      using that w(2) w(3)[OF c] b b' room by (auto simp: conn_wf_def cn m)
    show False if "Some c = Some c'" "cn_buffer (conn ?e' c') = Some b'" "conns e x = Some y" "x \<noteq> fd"
      "cn_buffer (conn e y) = Some b'" for c' b' x y
      using nb[OF that(3,4,5)] that(1,2) b by (simp add: cn)
  qed (use w b' nb in \<open>auto simp: cn m conn_wf_def\<close>)
  moreover have "view_at ?e' c = (conn e c, Some (splice off bs (msg e b)))" by (simp add: view_at_def cn b m)
  moreover have "store_msg (cn_buffer (conn e c)) off bs e = Inr ?e'"
    using b b' room by (simp add: store_msg_def deref_def)
  ultimately show ?thesis by (intro exI[of _ ?e']) (simp add: same_config_def)
qed

subsection \<open>Opening\<close>

lemma new_conn_open:
  assumes wf: "echo_wf e" and n: "new_conn k fd e = Inr (c, e1)" and fresh: "conns e fd = None"
    and fd: "0 \<le> fd" "fd < max_fd e" "0 < msg_size e"
  shows "echo_wf (e1\<lparr>conns := (conns e1)(fd := Some c)\<rparr>) \<and>
    view (e1\<lparr>conns := (conns e1)(fd := Some c)\<rparr>) = (view e)(fd := Some (zero_connection\<lparr>cn_fd := fd\<rparr>, None)) \<and>
    conns e1 = conns e \<and> same_config e e1 \<and> closed_fds e1 = closed_fds e \<and> accept_count e1 = accept_count e \<and>
    conn e1 c = zero_connection\<lparr>cn_fd := fd\<rparr>"
proof -
  note w = echo_wfD[OF wf]
  from n obtain cc where al: "cache_alloc k (index e) (conn_cache e) = Inr (c, cc)"
    and e1: "e1 = upd_conn c (\<lambda>cn. cn\<lparr>cn_fd := fd\<rparr>) (e\<lparr>conn_cache := cc\<rparr>)"
    by (auto simp: new_conn_def split: prod.splits)
  note s = cache_alloc_spec[OF w(1) al]
  let ?e2 = "e1\<lparr>conns := (conns e1)(fd := Some c)\<rparr>"
  have ne: "y \<noteq> c" if "conns e x = Some y" for x y using w(3)[OF that] s by (auto simp: conn_wf_def)
  have cn2: "conn ?e2 y = (if y = c then zero_connection\<lparr>cn_fd := fd\<rparr> else payload cc y)" for y
    using s w(5) by (simp add: conn_def e1 upd_conn_def)
  have cnx: "conn ?e2 y = conn e y" if "conns e x = Some y" for x y
    using ne[OF that] s w(3)[OF that] unfolding cn2 by (simp add: conn_wf_def conn_def)
  have st: "conns e1 = conns e" "same_config e e1" "closed_fds e1 = closed_fds e" "accept_count e1 = accept_count e"
    "conn e1 c = zero_connection\<lparr>cn_fd := fd\<rparr>"
    using s w(5) by (simp_all add: e1 same_config_def conn_def upd_conn_def)
  have ms: "msg ?e2 b = msg e b" "msg_cache ?e2 = msg_cache e" "msg_size ?e2 = msg_size e" "max_fd ?e2 = max_fd e" for b
    by (simp_all add: e1 msg_def)
  have cc2: "cache_ok (conn_cache ?e2)" "in_use (conn_cache ?e2) y \<longleftrightarrow> y = c \<or> in_use (conn_cache e) y"
    "entry_zero (conn_cache ?e2) = zero_connection" for y
    using s w(5) by (simp_all add: e1 upd_conn_def)
  have nc: "cn_fd (conn ?e2 c) = fd" "cn_cursor (conn ?e2 c) = 0" "cn_buffer (conn ?e2 c) = None"
    unfolding cn2 by (simp_all add: zero_connection_def)
  have own: "conn_wf ?e2 fd c" unfolding conn_wf_def ms nc cc2(2) using fd by simp
  have "echo_wf ?e2 \<and> view ?e2 = (view e)(fd := map_option (view_at ?e2) (Some c))"
  proof (rule slot_change[OF wf cc2(1) _ cc2(3)])
    show "conns ?e2 = (conns e)(fd := Some c)" by (simp add: st)
    show "conn ?e2 y = conn e y \<and> in_use (conn_cache ?e2) y" if "conns e x = Some y" for x y
      using cnx[OF that] w(3)[OF that] cc2(2) by (simp add: conn_wf_def)
    show "in_use (msg_cache ?e2) b \<and> msg ?e2 b = msg e b" if "conns e x = Some y" "cn_buffer (conn e y) = Some b" for x y b
      using w(3)[OF that(1)] that(2) ms by (simp add: conn_wf_def)
    show "conn_wf ?e2 fd c'" if "Some c = Some c'" for c'
      using that own by simp
    show False if "Some c = Some c'" "cn_buffer (conn ?e2 c') = Some b" for c' b using that nc(3) by simp
  qed (use ms w in simp_all)
  moreover have "view_at ?e2 c = (zero_connection\<lparr>cn_fd := fd\<rparr>, None)"
    unfolding view_at_def nc(3) using cn2[of c] by simp
  ultimately show ?thesis using st by simp
qed

text \<open>Giving an open connection its buffer.\<close>

lemma new_buffer_open:
  assumes wf: "echo_wf e" and c: "conns e fd = Some c" and nb: "cn_buffer (conn e c) = None"
    and al: "cache_alloc k (index e) (msg_cache e) = Inr (b, mc)"
    and e1: "e1 = upd_conn c (\<lambda>cn. cn\<lparr>cn_buffer := Some b\<rparr>) (e\<lparr>msg_cache := mc\<rparr>)"
  shows "echo_wf e1" "msg e1 b = replicate (msg_size e) 0" "conn e1 c = (conn e c)\<lparr>cn_buffer := Some b\<rparr>"
    "view e1 = (view e)(fd := Some ((conn e c)\<lparr>cn_buffer := Some b\<rparr>, Some (replicate (msg_size e) 0)))"
proof -
  note w = echo_wfD[OF wf] and s = cache_alloc_spec[OF echo_wfD(2)[OF wf] al]
  have cn1: "conn e1 y = (if y = c then (conn e c)\<lparr>cn_buffer := Some b\<rparr> else conn e y)" for y
    unfolding e1 conn_upd_conn by (simp add: conn_def)
  have ms: "conns e1 = conns e" "msg_cache e1 = mc" "msg_size e1 = msg_size e" "max_fd e1 = max_fd e"
    by (simp_all add: e1)
  have cc1: "cache_ok (conn_cache e1)" "in_use (conn_cache e1) y \<longleftrightarrow> in_use (conn_cache e) y"
    "entry_zero (conn_cache e1) = zero_connection" for y
    using w(1,5) by (simp_all add: e1 upd_conn_def)
  have mo: "msg e1 y = msg e y" if "in_use (msg_cache e) y" for y using s that by (simp add: msg_def ms)
  show mb: "msg e1 b = replicate (msg_size e) 0" using s w(6) by (simp add: msg_def ms)
  show cc: "conn e1 c = (conn e c)\<lparr>cn_buffer := Some b\<rparr>" by (simp add: cn1)
  have "echo_wf e1 \<and> view e1 = (view e)(fd := map_option (view_at e1) (Some c))"
  proof (rule slot_change[OF wf cc1(1) _ cc1(3)])
    show "conns e1 = (conns e)(fd := Some c)" using c by (auto simp: ms)
    show "conn e1 y = conn e y \<and> in_use (conn_cache e1) y" if "conns e x = Some y" "x \<noteq> fd" for x y
      using same_conn_same_fd[OF wf that(1)] c that(2) w(3)[OF that(1)] by (auto simp: cn1 cc1 conn_wf_def)
    show "in_use (msg_cache e1) b' \<and> msg e1 b' = msg e b'" if "conns e x = Some y" "cn_buffer (conn e y) = Some b'" for x y b'
      using w(3)[OF that(1)] that(2) s mo by (simp add: conn_wf_def ms)
    show "conn_wf e1 fd c'" if "Some c = Some c'" for c'
      using that w(3)[OF c] s mb by (simp add: conn_wf_def cn1 cc1 ms)
    show False if "Some c = Some c'" "cn_buffer (conn e1 c') = Some b'" "conns e x = Some y"
      "cn_buffer (conn e y) = Some b'" for c' b' x y
      using w(3)[OF that(3)] that s by (auto simp: conn_wf_def cn1)
  qed (use ms s w in simp_all)
  then show "echo_wf e1"
    "view e1 = (view e)(fd := Some ((conn e c)\<lparr>cn_buffer := Some b\<rparr>, Some (replicate (msg_size e) 0)))"
    by (simp_all add: view_at_def cn1 mb)
qed

lemma ensure_buffer_open:
  assumes wf: "echo_wf e" and c: "conns e fd = Some c" and n: "ensure_buffer k c e = Inr e1"
  shows "\<exists>b m. echo_wf e1 \<and> conns e1 = conns e \<and> same_config e e1 \<and> closed_fds e1 = closed_fds e \<and>
    conn e1 c = (conn e c)\<lparr>cn_buffer := Some b\<rparr> \<and>
    m = (case cn_buffer (conn e c) of None \<Rightarrow> replicate (msg_size e) 0 | Some b' \<Rightarrow> msg e b') \<and> msg e1 b = m \<and>
    view e1 = (view e)(fd := Some ((conn e c)\<lparr>cn_buffer := Some b\<rparr>, Some m))"
proof (cases "cn_buffer (conn e c)")
  case (Some b)
  then have e1: "e1 = e" using n by (simp add: ensure_buffer_def)
  have cn: "(conn e c)\<lparr>cn_buffer := Some b\<rparr> = conn e c" using Some by (cases "conn e c") simp
  have "view e fd = Some (conn e c, Some (msg e b))" using c Some by (simp add: view_def view_at_def)
  then have "view e = (view e)(fd := Some (conn e c, Some (msg e b)))" by (rule fun_upd_idem[symmetric])
  then show ?thesis using wf Some by (intro exI[of _ b] exI[of _ "msg e b"]) (simp add: cn e1)
next
  case None
  from n None obtain b mc where al: "cache_alloc k (index e) (msg_cache e) = Inr (b, mc)"
    and e1: "e1 = upd_conn c (\<lambda>cn. cn\<lparr>cn_buffer := Some b\<rparr>) (e\<lparr>msg_cache := mc\<rparr>)"
    by (auto simp: ensure_buffer_def split: prod.splits)
  have "conns e1 = conns e" "same_config e e1" "closed_fds e1 = closed_fds e" by (simp_all add: e1 same_config_def)
  with new_buffer_open[OF wf c None al e1] None show ?thesis
    by (intro exI[of _ b] exI[of _ "replicate (msg_size e) 0"]) simp
qed

subsection \<open>Closing\<close>

text \<open>Clearing the slot of a connection and releasing its two objects.\<close>

lemma free_conn_open:
  assumes wf: "echo_wf e" and c: "conns e fd = Some c" and b: "cn_buffer (conn e c) = Some b"
    and f: "cn_buffer (f (conn e c)) = Some b"
  shows "\<exists>e'. free_conn c (upd_conn c f (e\<lparr>conns := (conns e)(fd := None)\<rparr>)) = Inr e' \<and>
    echo_wf e' \<and> conns e' = (conns e)(fd := None) \<and> same_config e e' \<and> closed_fds e' = closed_fds e \<and>
    conn_count e' = conn_count e \<and> accept_count e' = accept_count e \<and>
    \<not> in_use (conn_cache e') c \<and> \<not> in_use (msg_cache e') b \<and> view e' = (view e)(fd := None)"
proof -
  note w = echo_wfD[OF wf]
  have bu: "in_use (msg_cache e) b" "in_use (conn_cache e) c" using w(3)[OF c] b by (auto simp: conn_wf_def)
  let ?e1 = "upd_conn c f (e\<lparr>conns := (conns e)(fd := None)\<rparr>)"
  have cc1: "conn_cache ?e1 = set_data c (f (conn e c)) (conn_cache e)"
    by (simp add: upd_conn_def conn_def)
  have cn1: "conn ?e1 x = (if x = c then f (conn e c) else conn e x)" for x
    unfolding conn_def cc1 by (simp add: conn_def)
  from cache_free_spec[OF w(2) bu(1)] obtain mc where mc: "cache_free (msg_cache e) (Some b) = Inr mc"
    "cache_ok mc" "\<forall>x. in_use mc x \<longleftrightarrow> in_use (msg_cache e) x \<and> x \<noteq> b"
    "entry_zero mc = entry_zero (msg_cache e)" "\<forall>x. payload mc x = payload (msg_cache e) x" by blast
  have "cache_ok (conn_cache ?e1)" "in_use (conn_cache ?e1) c" using w(1) bu(2) by (simp_all add: cc1)
  from cache_free_spec[OF this] obtain cc where cc: "cache_free (conn_cache ?e1) (Some c) = Inr cc"
    "cache_ok cc" "\<forall>x. in_use cc x \<longleftrightarrow> in_use (conn_cache ?e1) x \<and> x \<noteq> c"
    "entry_zero cc = entry_zero (conn_cache ?e1)" "\<forall>x. payload cc x = payload (conn_cache ?e1) x" by blast
  let ?e' = "?e1\<lparr>msg_cache := mc, conn_cache := cc\<rparr>"
  have free: "free_conn c ?e1 = Inr ?e'"
    using mc(1) cc(1) f by (simp add: free_conn_def cn1)
  have cns: "conns ?e' = (conns e)(fd := None)" by simp
  have ms': "msg ?e' = msg e" using mc(5) by (intro ext) (simp add: msg_def)
  have st: "same_config e ?e'" "closed_fds ?e' = closed_fds e" "conn_count ?e' = conn_count e"
    "accept_count ?e' = accept_count e" "\<not> in_use (conn_cache ?e') c" "\<not> in_use (msg_cache ?e') b"
    using cc(3) mc(3) by (simp_all add: same_config_def)
  have ne: "y \<noteq> c" if "conns e x = Some y" "x \<noteq> fd" for x y
    using same_conn_same_fd[OF wf that(1)] c that(2) by auto
  have cnx: "conn ?e' y = conn e y" if "conns e x = Some y" "x \<noteq> fd" for x y
    using cc(5) ne[OF that] cn1 by (simp add: conn_def)
  have "echo_wf ?e' \<and> view ?e' = (view e)(fd := map_option (view_at ?e') None)"
  proof (rule slot_change[OF wf])
    show "conns ?e' = (conns e)(fd := None)" by simp
    show "conn ?e' y = conn e y \<and> in_use (conn_cache ?e') y" if "conns e x = Some y" "x \<noteq> fd" for x y
      using cnx[OF that] ne[OF that] w(1) w(3)[OF that(1)] cc(3) by (simp add: conn_wf_def cc1)
    show "in_use (msg_cache ?e') b' \<and> msg ?e' b' = msg e b'"
      if "conns e x = Some y" "x \<noteq> fd" "cn_buffer (conn e y) = Some b'" for x y b'
      using w(3)[OF that(1)] w(4)[OF that(1) c that(3)] b mc(3) that(2,3) unfolding ms' by (auto simp: conn_wf_def)
  qed (use mc(2,4) cc(2,4) w(5,6) in \<open>simp_all add: cc1\<close>)
  then show ?thesis using free cns st by simp
qed

lemma upd_conn_same [simp]: "upd_conn c (\<lambda>cn. cn) e = e"
proof -
  have "set_data c (conn e c) (conn_cache e) = conn_cache e"
    by (simp add: set_data_def conn_def payload_def fun_upd_idem)
  then show ?thesis by (simp add: upd_conn_def)
qed

lemma release_conn:
  assumes "echo_wf e" "conns e fd = Some c" "cn_buffer (conn e c) = Some b"
  shows "\<exists>e'. free_conn c (e\<lparr>conns := (conns e)(fd := None)\<rparr>) = Inr e' \<and>
    echo_wf e' \<and> conns e' = (conns e)(fd := None) \<and> same_config e e' \<and> closed_fds e' = closed_fds e \<and>
    conn_count e' = conn_count e \<and> accept_count e' = accept_count e \<and> view e' = (view e)(fd := None)"
  using free_conn_open[OF assms, of "\<lambda>cn. cn"] assms(3) by auto

subsection \<open>Allocation\<close>

lemma cache_alloc_True: "cache_ok c \<Longrightarrow> \<exists>r. cache_alloc True cpu c = Inr r"
  by (cases "head c") (auto simp: cache_alloc_def calloc_entry_def Let_def)

lemma new_conn_ok: "cache_ok (conn_cache e) \<Longrightarrow> \<exists>c e'. new_conn True fd e = Inr (c, e')"
  using cache_alloc_True[of "conn_cache e" "index e"] by (force simp: new_conn_def split: prod.splits)

lemma ensure_buffer_ok: "cache_ok (msg_cache e) \<Longrightarrow> \<exists>e'. ensure_buffer True c e = Inr e'"
  using cache_alloc_True[of "msg_cache e" "index e"]
  by (cases "cn_buffer (conn e c)") (force simp: ensure_buffer_def split: prod.splits)+

end
