(* ===== verification/Worker_Setup.thy ===== *)
theory Worker_Setup
  imports Echo_Core
begin

text \<open>
  What every worker of the echo server does before it serves: \<open>setup_perf\<close> with \<open>config_event\<close> and
  \<open>open_perf\<close> (\<open>event-tester/tcp_echo.c\<close>), the listening socket, and the two caches.  The results
  of the system calls are arguments.
\<close>

section \<open>Performance counters\<close>

definition TOTAL_EVENTS :: nat where "TOTAL_EVENTS = 5"

text \<open>The fields of \<open>struct perf_event_attr\<close> the code sets, and the kernel's constants.\<close>

record perf_attr =
  pe_type :: nat
  pe_config :: nat
  pe_disabled :: bool
  pe_read_format :: nat
  pe_inherit :: bool

definition PERF_TYPE_HARDWARE :: nat where "PERF_TYPE_HARDWARE = 0"
definition PERF_TYPE_HW_CACHE :: nat where "PERF_TYPE_HW_CACHE = 3"
definition PERF_FORMAT_ID :: nat where "PERF_FORMAT_ID = 4"
definition PERF_FORMAT_GROUP :: nat where "PERF_FORMAT_GROUP = 8"
definition PERF_COUNT_HW_CACHE_L1I :: nat where "PERF_COUNT_HW_CACHE_L1I = 1"
definition PERF_COUNT_HW_CACHE_RESULT_MISS :: nat where "PERF_COUNT_HW_CACHE_RESULT_MISS = 1"

definition config_event :: "nat \<Rightarrow> nat \<Rightarrow> int \<Rightarrow> perf_attr" where
  "config_event type config disabled =
     \<lparr>pe_type = type, pe_config = config, pe_disabled = (disabled \<noteq> 0),
      pe_read_format = PERF_FORMAT_GROUP + PERF_FORMAT_ID, pe_inherit = True\<rparr>"

definition perf_attrs :: "perf_attr list" where
  "perf_attrs =
     [config_event PERF_TYPE_HARDWARE 0 1,
      config_event PERF_TYPE_HARDWARE 1 0,
      config_event PERF_TYPE_HARDWARE 2 0,
      config_event PERF_TYPE_HARDWARE 3 0,
      config_event PERF_TYPE_HW_CACHE (PERF_COUNT_HW_CACHE_L1I + PERF_COUNT_HW_CACHE_RESULT_MISS * 2 ^ 16) 0]"

text \<open>
  \<open>open_perf attr pid cpu group flags\<close> is the system call and \<open>event_id fd\<close> what
  \<open>PERF_EVENT_IOC_ID\<close> stores.  The first event leads the group of the others.
\<close>

type_synonym perf_sys = "(perf_attr \<Rightarrow> int \<Rightarrow> nat \<Rightarrow> int \<Rightarrow> int) \<times> (int \<Rightarrow> int)"

fun open_group :: "perf_sys \<Rightarrow> nat \<Rightarrow> int \<Rightarrow> perf_attr list \<Rightarrow> (int \<times> int) list res" where
  "open_group sys cpu leader [] = Inr []"
| "open_group sys cpu leader (pe # pes) =
     (let fd = fst sys pe 0 cpu leader in
      if fd < 0 then Inl (Exit 1)
      else rbind (open_group sys cpu leader pes) (\<lambda>rs. Inr ((fd, snd sys fd) # rs)))"

definition setup_perf :: "perf_sys \<Rightarrow> nat \<Rightarrow> (int \<times> int) list res" where
  "setup_perf sys cpu =
     (let fd = fst sys (hd perf_attrs) 0 cpu (- 1) in
      if fd < 0 then Inl (Exit 1)
      else rbind (open_group sys cpu fd (tl perf_attrs)) (\<lambda>rs. Inr ((fd, snd sys fd) # rs)))"

lemma open_group_Inr: "open_group sys cpu leader pes = Inr rs \<Longrightarrow>
  map fst rs = map (\<lambda>pe. fst sys pe 0 cpu leader) pes \<and> (\<forall>r \<in> set rs. 0 \<le> fst r \<and> snd r = snd sys (fst r))"
proof (induction pes arbitrary: rs)
  case (Cons pe pes)
  define fd where "fd = fst sys pe 0 cpu leader"
  from Cons.prems obtain qs where "0 \<le> fd" "open_group sys cpu leader pes = Inr qs" "rs = (fd, snd sys fd) # qs"
    by (auto simp: Let_def not_less rbind_eq_Inr_iff fd_def split: if_splits)
  then show ?case using Cons.IH[of qs] by (simp add: fd_def)
qed simp

section \<open>The listening socket\<close>

record sock_env =
  sk_socket :: int
  sk_reuseport :: int
  sk_reuseaddr :: int
  sk_bind :: int
  sk_listen :: int

definition open_listener :: "sock_env \<Rightarrow> int res" where
  "open_listener k =
     (if sk_socket k < 0 then Inl (Exit 1)
      else if sk_reuseport k \<noteq> 0 then Inl (Exit 1)
      else if sk_reuseaddr k \<noteq> 0 then Inl (Exit 1)
      else if sk_bind k \<noteq> 0 then Inl (Exit 1)
      else if sk_listen k \<noteq> 0 then Inl (Exit 1)
      else Inr (sk_socket k))"

lemma open_listener_Inr: "open_listener k = Inr fd \<longleftrightarrow>
  fd = sk_socket k \<and> 0 \<le> fd \<and> sk_reuseport k = 0 \<and> sk_reuseaddr k = 0 \<and> sk_bind k = 0 \<and> sk_listen k = 0"
  by (auto simp: open_listener_def)

section \<open>The caches of a worker\<close>

text \<open>\<open>init_cache\<close>, with the null test of its callers, which exit.\<close>

definition init_cache_or_exit :: "bool \<Rightarrow> (nat \<Rightarrow> bool) \<Rightarrow> 'd \<Rightarrow> nat \<Rightarrow> 'd buffer_cache res" where
  "init_cache_or_exit header_ok entry_ok z n =
     rbind (init_cache header_ok entry_ok z n) (\<lambda>p. case p of None \<Rightarrow> Inl (Exit 1) | Some c \<Rightarrow> Inr c)"

record setup_env =
  su_calloc_me :: bool
  su_msg_header :: bool
  su_msg_entry :: "nat \<Rightarrow> bool"
  su_conn_header :: bool
  su_conn_entry :: "nat \<Rightarrow> bool"
  su_sock :: sock_env
  su_perf :: perf_sys

record worker_io =
  io_listen :: int
  io_perf :: "(int \<times> int) list"

text \<open>A worker that starts: the globals, empty connections, and the fresh caches.\<close>

definition fresh_echo ::
  "int \<Rightarrow> nat \<Rightarrow> (nat \<Rightarrow> nat) \<Rightarrow> nat \<Rightarrow> connection buffer_cache \<Rightarrow> byte list buffer_cache \<Rightarrow> echo" where
  "fresh_echo mx sz at idx cc mc =
     \<lparr>conns = (\<lambda>_. None), max_fd = mx, msg_size = sz, conn_cache = cc, msg_cache = mc, msg_at = at,
      index = idx, accept_count = 0, conn_count = 0, closed_fds = []\<rparr>"

lemma init_fill_Inr: "init_fill ok_fn n c = Inr c' \<Longrightarrow> \<forall>i < n. ok_fn (brk c + i)"
proof (induction n arbitrary: c)
  case 0
  then show ?case by simp
next
  case (Suc n)
  from Suc.prems obtain c2 where 1: "ok_fn (brk c)" "cache_free (snd (calloc_entry c)) (Some (fst (calloc_entry c))) = Inr c2"
    "init_fill ok_fn n c2 = Inr c'"
    by (auto simp: rbind_eq_Inr_iff split: if_splits prod.splits)
  have "brk c2 = brk c + 1"
    using 1(2) by (auto simp: cache_free_def calloc_entry_def set_next_def Let_def split: option.splits)
  then show ?case using Suc.IH[OF 1(3)] 1(1) by (auto simp: less_Suc_eq_0_disj)
qed

lemma init_cache_or_exit_Inr:
  assumes "init_cache_or_exit h f z n = Inr c"
  shows "cache_ok c \<and> free_list c = [0..<n] \<and> entry_zero c = z"
proof -
  from assms have h: "h" and i: "init_cache True f z n = Inr (Some c)"
    by (auto simp: init_cache_or_exit_def init_cache_def rbind_eq_Inr_iff split: option.splits if_splits)
  then obtain c0 where "init_fill f n (empty_cache z) = Inr c0"
    by (auto simp: init_cache_def rbind_eq_Inr_iff)
  then have "\<And>k. k < n \<Longrightarrow> f k" using init_fill_Inr[of f n "empty_cache z" c0] by (simp add: empty_cache_def)
  from init_cache_ok[of n f z, OF this] i show ?thesis by auto
qed

lemma init_cache_granted: "\<exists>c. init_cache_or_exit True (\<lambda>_. True) z n = Inr c"
  using init_cache_ok[of n "\<lambda>_. True" z] by (auto simp: init_cache_or_exit_def)

lemma fresh_echo_wf:
  assumes "cache_ok cc" "cache_ok mc" "entry_zero cc = zero_connection" "entry_zero mc = replicate sz 0"
  shows "echo_wf (fresh_echo mx sz at idx cc mc) \<and> buffered (fresh_echo mx sz at idx cc mc)"
  using assms by (simp add: echo_wf_def buffered_def fresh_echo_def)

section \<open>Properties\<close>

text \<open>
  \<open>setup_perf\<close> either exits because a counter cannot be opened, or returns five descriptors with
  their kernel ids: the cycle counter, opened first, disabled and without a group, and the four
  others opened enabled in the group of the first.
\<close>

theorem setup_perf_groups_counters:
  "case setup_perf sys cpu of
     Inl x \<Rightarrow> x = Exit 1
   | Inr rs \<Rightarrow> length rs = TOTAL_EVENTS \<and> (\<forall>r \<in> set rs. 0 \<le> fst r \<and> snd r = snd sys (fst r)) \<and>
       fst (hd rs) = fst sys (perf_attrs ! 0) 0 cpu (- 1) \<and>
       map fst (tl rs) = map (\<lambda>pe. fst sys pe 0 cpu (fst (hd rs))) (tl perf_attrs) \<and>
       map pe_disabled perf_attrs = [True, False, False, False, False]"
proof -
  have len: "length perf_attrs = 5" by (simp add: perf_attrs_def)
  have stops: "open_group sys cpu l pes = Inl x \<Longrightarrow> x = Exit 1" for l pes x
    by (induction pes) (auto simp: Let_def rbind_eq_Inl_iff split: if_splits)
  have dis: "map pe_disabled perf_attrs = [True, False, False, False, False]"
    by (simp add: perf_attrs_def config_event_def)
  show ?thesis
  proof (cases "setup_perf sys cpu")
    case (Inl x)
    then have "x = Exit 1" using stops by (auto simp: setup_perf_def Let_def rbind_eq_Inl_iff split: if_splits)
    with Inl show ?thesis by simp
  next
    case (Inr rs)
    define fd where "fd = fst sys (hd perf_attrs) 0 cpu (- 1)"
    from Inr obtain qs where fd: "0 \<le> fd" and qs: "open_group sys cpu fd (tl perf_attrs) = Inr qs"
      and rs: "rs = (fd, snd sys fd) # qs"
      by (auto simp: setup_perf_def fd_def Let_def not_less rbind_eq_Inr_iff split: if_splits)
    note g = open_group_Inr[OF qs]
    then have "length qs = 4" using len by (metis length_map length_tl diff_Suc_1 eval_nat_numeral(3) semiring_norm(26,27) numeral_eq_Suc)
    then show ?thesis using Inr rs g fd dis len
      by (auto simp: TOTAL_EVENTS_def fd_def hd_conv_nth perf_attrs_def)
  qed
qed

definition demo_perf :: perf_sys where
  "demo_perf = (\<lambda>pe pid cpu g. if g < 0 then 11 else 12, \<lambda>fd. 100 + fd)"

theorem setup_perf_groups_counters_witness:
  "\<exists>rs. setup_perf demo_perf 3 = Inr rs \<and> length rs = 5 \<and> fst (hd rs) = 11"
proof -
  have "\<exists>rs. setup_perf demo_perf 3 = Inr rs"
    by (simp add: setup_perf_def perf_attrs_def demo_perf_def Let_def)
  then obtain rs where rs: "setup_perf demo_perf 3 = Inr rs" by blast
  with setup_perf_groups_counters[of demo_perf 3] show ?thesis
    by (auto simp: TOTAL_EVENTS_def demo_perf_def)
qed

end
