(* ===== verification/Echo_Spec.thy ===== *)
theory Echo_Spec
  imports Echo_Core
begin

text \<open>
  What every implementation of the echo server promises: an abstract server on sessions, without
  pointers, caches and system calls.  A run of it is a list of network events; what it puts on the
  wire of a connection depends on the events about that connection only, and is what it received.
\<close>

section \<open>The abstract echo server\<close>

text \<open>
  A session is the bytes of its message buffer and how far it got in receiving or sending them.
  An event changes the session of its descriptor only and arms the next request.
\<close>

record session =
  s_cursor :: nat
  s_msg :: "byte list"

datatype net_event =
    Accepted int int
  | Accept_Error int
  | Got int "byte list"
  | Sent int nat
  | Hangup int
  | Io_Error int

datatype cmd = Arm_Accept int | Arm_Read int | Arm_Write int nat nat

fun echo_step :: "nat \<Rightarrow> net_event \<Rightarrow> (int \<Rightarrow> session option) \<Rightarrow> (int \<Rightarrow> session option) \<times> cmd list" where
  "echo_step n (Accepted l fd) s =
     (s(fd := Some \<lparr>s_cursor = 0, s_msg = replicate n 0\<rparr>), [Arm_Read fd, Arm_Accept l])"
| "echo_step n (Accept_Error l) s = (s, [Arm_Accept l])"
| "echo_step n (Got fd bs) s =
     (case s fd of None \<Rightarrow> (s, [])
      | Some x \<Rightarrow>
          let k = s_cursor x + length bs; m = splice (s_cursor x) bs (s_msg x) in
          if k < n then (s(fd := Some \<lparr>s_cursor = k, s_msg = m\<rparr>), [Arm_Read fd])
          else (s(fd := Some \<lparr>s_cursor = 0, s_msg = m\<rparr>), [Arm_Write fd 0 n]))"
| "echo_step n (Sent fd j) s =
     (case s fd of None \<Rightarrow> (s, [])
      | Some x \<Rightarrow>
          let k = s_cursor x + j in
          if k < n then (s(fd := Some (x\<lparr>s_cursor := k\<rparr>)), [Arm_Write fd k (n - k)])
          else (s(fd := Some (x\<lparr>s_cursor := 0\<rparr>)), [Arm_Read fd]))"
| "echo_step n (Hangup fd) s = (s(fd := None), [])"
| "echo_step n (Io_Error fd) s = (s, [])"

fun echo_steps :: "nat \<Rightarrow> net_event list \<Rightarrow> (int \<Rightarrow> session option) \<Rightarrow> (int \<Rightarrow> session option) \<times> cmd list" where
  "echo_steps n [] s = (s, [])"
| "echo_steps n (ev # evs) s =
     (let (s1, cs) = echo_step n ev s; (s2, ds) = echo_steps n evs s1 in (s2, cs @ ds))"

text \<open>The sessions in the tables of a worker.\<close>

definition session_of :: "connection \<times> byte list option \<Rightarrow> session" where
  "session_of v = \<lparr>s_cursor = cn_cursor (fst v), s_msg = (case snd v of None \<Rightarrow> [] | Some m \<Rightarrow> m)\<rparr>"

definition sessions :: "echo \<Rightarrow> int \<Rightarrow> session option" where
  "sessions a fd = map_option session_of (view a fd)"

lemma sessions_upd: "view a' = (view a)(fd := Some v) \<Longrightarrow> sessions a' = (sessions a)(fd := Some (session_of v))"
  by (auto simp: sessions_def)

lemma sessions_del: "view a' = (view a)(fd := None) \<Longrightarrow> sessions a' = (sessions a)(fd := None)"
  by (auto simp: sessions_def)

lemma sessions_cong: "view a' = view a \<Longrightarrow> sessions a' = sessions a"
  by (auto simp: sessions_def)

lemma buffered_upd: "buffered a \<Longrightarrow> view a' = (view a)(fd := Some (cn, Some m)) \<Longrightarrow> buffered a'"
  unfolding buffered_view by auto

lemma buffered_del: "buffered a \<Longrightarrow> view a' = (view a)(fd := None) \<Longrightarrow> buffered a'"
  unfolding buffered_view by auto


section \<open>Messages of the abstract server\<close>

fun about :: "int \<Rightarrow> net_event \<Rightarrow> bool" where
  "about fd (Accepted l f) \<longleftrightarrow> f = fd"
| "about fd (Accept_Error l) \<longleftrightarrow> False"
| "about fd (Got f bs) \<longleftrightarrow> f = fd"
| "about fd (Sent f j) \<longleftrightarrow> f = fd"
| "about fd (Hangup f) \<longleftrightarrow> f = fd"
| "about fd (Io_Error f) \<longleftrightarrow> f = fd"

fun targets :: "int \<Rightarrow> cmd \<Rightarrow> bool" where
  "targets fd (Arm_Accept l) \<longleftrightarrow> False"
| "targets fd (Arm_Read f) \<longleftrightarrow> f = fd"
| "targets fd (Arm_Write f off n) \<longleftrightarrow> f = fd"

text \<open>What one descriptor sees: the events about it, its session, the commands for it, the bytes sent on it.\<close>

definition wire1 :: "net_event \<Rightarrow> session option \<Rightarrow> byte list" where
  "wire1 ev x = (case (ev, x) of (Sent f j, Some y) \<Rightarrow> take j (drop (s_cursor y) (s_msg y)) | _ \<Rightarrow> [])"

fun local_run :: "nat \<Rightarrow> int \<Rightarrow> net_event list \<Rightarrow> session option \<Rightarrow> session option \<times> cmd list \<times> byte list" where
  "local_run n fd [] x = (x, [], [])"
| "local_run n fd (ev # evs) x =
     (let (s, cs) = echo_step n ev (\<lambda>_. x); (y, ds, bs) = local_run n fd evs (s fd)
      in (y, filter (targets fd) cs @ ds, wire1 ev x @ bs))"

fun wire :: "nat \<Rightarrow> int \<Rightarrow> net_event list \<Rightarrow> (int \<Rightarrow> session option) \<Rightarrow> byte list" where
  "wire n fd [] s = []"
| "wire n fd (ev # evs) s =
     (if about fd ev then wire1 ev (s fd) else []) @ wire n fd evs (fst (echo_step n ev s))"

lemma echo_step_local:
  "about fd ev \<Longrightarrow> fst (echo_step n ev s) fd = fst (echo_step n ev (\<lambda>_. s fd)) fd \<and>
     snd (echo_step n ev s) = snd (echo_step n ev (\<lambda>_. s fd))"
  by (cases ev) (auto split: option.splits simp: Let_def)

lemma echo_step_other:
  "\<not> about fd ev \<Longrightarrow> fst (echo_step n ev s) fd = s fd \<and> filter (targets fd) (snd (echo_step n ev s)) = []"
  by (cases ev) (auto split: option.splits simp: Let_def)

lemma echo_steps_local:
  "(fst (echo_steps n evs s) fd, filter (targets fd) (snd (echo_steps n evs s)), wire n fd evs s) =
     local_run n fd (filter (about fd) evs) (s fd)"
proof (induction evs arbitrary: s)
  case Nil
  then show ?case by simp
next
  case (Cons ev evs)
  show ?case
  proof (cases "about fd ev")
    case True
    then show ?thesis using Cons.IH[of "fst (echo_step n ev s)", symmetric] echo_step_local[OF True, of n s]
      by (simp add: case_prod_beta Let_def)
  next
    case False
    then show ?thesis using Cons.IH[of "fst (echo_step n ev s)"] echo_step_other[OF False, of n s]
      by (simp add: case_prod_beta Let_def)
  qed
qed

lemma local_run_append:
  "local_run n fd (xs @ ys) x =
     (let (y, cs, bs) = local_run n fd xs x; (z, ds, es) = local_run n fd ys y in (z, cs @ ds, bs @ es))"
  by (induction xs arbitrary: x) (simp_all add: case_prod_beta Let_def)

text \<open>Receiving: the chunks of a message end up side by side in the buffer.\<close>

lemma local_run_receive:
  assumes "k + length (concat chunks) = n" "length m = n" "\<forall>c \<in> set chunks. c \<noteq> []" "chunks \<noteq> []"
  shows "local_run n fd (map (Got fd) chunks) (Some \<lparr>s_cursor = k, s_msg = m\<rparr>) =
    (Some \<lparr>s_cursor = 0, s_msg = take k m @ concat chunks\<rparr>,
     replicate (length chunks - 1) (Arm_Read fd) @ [Arm_Write fd 0 n], [])"
  using assms
proof (induction chunks arbitrary: k m)
  case Nil
  then show ?case by simp
next
  case (Cons c cs)
  have le: "k + length c \<le> length m" using Cons.prems by simp
  show ?case
  proof (cases "cs = []")
    case True
    with Cons.prems have kc: "k + length c = length m" by simp
    then have "splice k c m = take k m @ c" by (simp add: splice_def)
    with True Cons.prems kc show ?thesis by (simp add: wire1_def Let_def)
  next
    case False
    then obtain d ds where "cs = d # ds" "d \<noteq> []" using Cons.prems(3) by (cases cs) auto
    then have "k + length c < n" using Cons.prems(1) by (cases d) auto
    moreover have "local_run n fd (map (Got fd) cs) (Some \<lparr>s_cursor = k + length c, s_msg = splice k c m\<rparr>) =
      (Some \<lparr>s_cursor = 0, s_msg = take (k + length c) (splice k c m) @ concat cs\<rparr>,
       replicate (length cs - 1) (Arm_Read fd) @ [Arm_Write fd 0 n], [])"
      by (rule Cons.IH) (use Cons.prems False le in \<open>auto\<close>)
    moreover have "length cs = Suc (length cs - 1)" using False by simp
    then have "replicate (length cs) (Arm_Read fd) = Arm_Read fd # replicate (length cs - 1) (Arm_Read fd)"
      by (metis replicate_Suc)
    ultimately show ?thesis using take_splice[OF le] by (simp add: wire1_def Let_def)
  qed
qed

text \<open>Sending: partial writes put the rest of the message on the wire.\<close>

lemma local_run_send:
  assumes "k + sum_list parts = n" "length m = n" "\<forall>j \<in> set parts. 0 < j" "parts \<noteq> []"
  shows "\<exists>cs. local_run n fd (map (Sent fd) parts) (Some \<lparr>s_cursor = k, s_msg = m\<rparr>) =
    (Some \<lparr>s_cursor = 0, s_msg = m\<rparr>, cs @ [Arm_Read fd], drop k m)"
  using assms
proof (induction parts arbitrary: k)
  case Nil
  then show ?case by simp
next
  case (Cons j js)
  show ?case
  proof (cases "js = []")
    case True
    with Cons.prems have "k + j = n" by simp
    with True Cons.prems(2) show ?thesis by (simp add: wire1_def Let_def)
  next
    case False
    then obtain i js' where "js = i # js'" "0 < i" using Cons.prems(3) by (cases js) auto
    then have lt: "k + j < n" using Cons.prems(1) by simp
    obtain cs where "local_run n fd (map (Sent fd) js) (Some \<lparr>s_cursor = k + j, s_msg = m\<rparr>) =
      (Some \<lparr>s_cursor = 0, s_msg = m\<rparr>, cs @ [Arm_Read fd], drop (k + j) m)"
      using Cons.IH[of "k + j"] Cons.prems False by auto
    moreover have "take j (drop k m) @ drop (k + j) m = drop k m"
      by (metis add.commute append_take_drop_id drop_drop)
    ultimately show ?thesis using lt by (simp add: wire1_def Let_def)
  qed
qed

text \<open>A round is a message: the chunks it arrives in, and the parts it is sent back in.\<close>

definition round_events :: "int \<Rightarrow> byte list list \<times> nat list \<Rightarrow> net_event list" where
  "round_events fd r = map (Got fd) (fst r) @ map (Sent fd) (snd r)"

definition round_ok :: "nat \<Rightarrow> byte list list \<times> nat list \<Rightarrow> bool" where
  "round_ok n r \<longleftrightarrow> length (concat (fst r)) = n \<and> sum_list (snd r) = n \<and>
     (\<forall>c \<in> set (fst r). c \<noteq> []) \<and> (\<forall>j \<in> set (snd r). 0 < j)"

lemma local_run_rounds:
  assumes "0 < n" "\<forall>r \<in> set rs. round_ok n r" "length m = n"
  shows "\<exists>m' cs. local_run n fd (concat (map (round_events fd) rs)) (Some \<lparr>s_cursor = 0, s_msg = m\<rparr>) =
    (Some \<lparr>s_cursor = 0, s_msg = m'\<rparr>, cs, concat (map (\<lambda>r. concat (fst r)) rs)) \<and> length m' = n \<and>
    (rs \<noteq> [] \<longrightarrow> last cs = Arm_Read fd)"
  using assms(2,3)
proof (induction rs arbitrary: m)
  case Nil
  then show ?case by simp
next
  case (Cons r rs)
  obtain chunks parts where r: "r = (chunks, parts)" by (cases r)
  have ok: "length (concat chunks) = n" "sum_list parts = n" "\<forall>c \<in> set chunks. c \<noteq> []" "\<forall>j \<in> set parts. 0 < j"
    using Cons.prems(1) by (auto simp: round_ok_def r)
  have ne: "chunks \<noteq> []" "parts \<noteq> []" using ok(1,2) assms(1) by auto
  obtain ds where 1: "local_run n fd (map (Got fd) chunks) (Some \<lparr>s_cursor = 0, s_msg = m\<rparr>) =
      (Some \<lparr>s_cursor = 0, s_msg = concat chunks\<rparr>, ds, [])"
    using local_run_receive[of 0 chunks n m fd] ok ne Cons.prems(2) by simp
  obtain es where 2: "local_run n fd (map (Sent fd) parts) (Some \<lparr>s_cursor = 0, s_msg = concat chunks\<rparr>) =
      (Some \<lparr>s_cursor = 0, s_msg = concat chunks\<rparr>, es @ [Arm_Read fd], concat chunks)"
    using local_run_send[of 0 parts n "concat chunks" fd] ok ne by auto
  obtain m' cs where 3: "local_run n fd (concat (map (round_events fd) rs)) (Some \<lparr>s_cursor = 0, s_msg = concat chunks\<rparr>) =
      (Some \<lparr>s_cursor = 0, s_msg = m'\<rparr>, cs, concat (map (\<lambda>r. concat (fst r)) rs))" "length m' = n"
      "rs \<noteq> [] \<longrightarrow> last cs = Arm_Read fd"
    using Cons.IH[of "concat chunks"] Cons.prems(1) ok(1) by auto
  have last: "last (ds @ es @ Arm_Read fd # cs) = Arm_Read fd" if "rs = []"
    using 3(1) that by simp
  have last': "last (ds @ es @ Arm_Read fd # cs) = Arm_Read fd"
    using last 3(3) by (cases "rs = []"; cases "cs = []") auto
  have re: "round_events fd (chunks, parts) = map (Got fd) chunks @ map (Sent fd) parts" by (simp add: round_events_def)
  show ?case using 1 2 3 last' by (simp add: re r local_run_append)
qed

section \<open>Runs\<close>

lemma echo_steps_append:
  "echo_steps n (xs @ ys) s =
     (let (s1, cs) = echo_steps n xs s; (s2, ds) = echo_steps n ys s1 in (s2, cs @ ds))"
  by (induction xs arbitrary: s) (simp_all add: case_prod_beta Let_def)

lemma wire_append: "wire n fd (xs @ ys) s = wire n fd xs s @ wire n fd ys (fst (echo_steps n xs s))"
  by (induction xs arbitrary: s) (simp_all add: case_prod_beta Let_def)

text \<open>A run from sessions to sessions, with the bytes it puts on the wire of every descriptor.\<close>

definition runs ::
  "nat \<Rightarrow> net_event list \<Rightarrow> (int \<Rightarrow> session option) \<Rightarrow> (int \<Rightarrow> session option) \<Rightarrow> (int \<Rightarrow> byte list) \<Rightarrow> bool" where
  "runs n evs s s' out \<longleftrightarrow> fst (echo_steps n evs s) = s' \<and> (\<forall>fd. wire n fd evs s = out fd)"

lemma runs_Nil [intro, simp]: "runs n [] s s (\<lambda>_. [])"
  by (simp add: runs_def)

lemma runs_append:
  "runs n xs s s1 o1 \<Longrightarrow> runs n ys s1 s2 o2 \<Longrightarrow> runs n (xs @ ys) s s2 (\<lambda>fd. o1 fd @ o2 fd)"
  by (auto simp: runs_def echo_steps_append wire_append case_prod_beta Let_def)

lemma runs_accepted:
  "runs n [Accepted l fd] s (s(fd := Some \<lparr>s_cursor = 0, s_msg = replicate n 0\<rparr>)) (\<lambda>_. [])"
  by (simp add: runs_def wire1_def)

lemma runs_hangup: "runs n [Hangup fd] s (s(fd := None)) (\<lambda>_. [])"
  by (simp add: runs_def wire1_def)

lemma runs_io_error: "runs n [Io_Error fd] s s (\<lambda>_. [])"
  by (simp add: runs_def wire1_def)

lemma runs_got:
  assumes "s fd = Some \<lparr>s_cursor = k, s_msg = m\<rparr>"
  shows "runs n [Got fd bs] s
    (s(fd := Some \<lparr>s_cursor = (if k + length bs < n then k + length bs else 0), s_msg = splice k bs m\<rparr>)) (\<lambda>_. [])"
  using assms by (simp add: runs_def wire1_def Let_def)

lemma runs_sent:
  assumes "s fd = Some \<lparr>s_cursor = k, s_msg = m\<rparr>"
  shows "runs n [Sent fd j] s
    (s(fd := Some \<lparr>s_cursor = (if k + j < n then k + j else 0), s_msg = m\<rparr>))
    (\<lambda>x. if x = fd then take j (drop k m) else [])"
  using assms by (simp add: runs_def wire1_def Let_def)

text \<open>The bytes a list of writes sends, and the bytes a list of events delivers, on one descriptor.\<close>

definition sent_on :: "int \<Rightarrow> (int \<times> byte list) list \<Rightarrow> byte list" where
  "sent_on fd ws = concat (map snd (filter (\<lambda>w. fst w = fd) ws))"

definition got_bytes :: "int \<Rightarrow> net_event \<Rightarrow> byte list" where
  "got_bytes fd ev = (case ev of Got f bs \<Rightarrow> if f = fd then bs else [] | _ \<Rightarrow> [])"

definition got_on :: "int \<Rightarrow> net_event list \<Rightarrow> byte list" where
  "got_on fd evs = concat (map (got_bytes fd) evs)"

lemma sent_on_simps [simp]:
  "sent_on fd [] = []" "sent_on fd (w # ws) = (if fst w = fd then snd w else []) @ sent_on fd ws"
  "sent_on fd (ws @ vs) = sent_on fd ws @ sent_on fd vs"
  by (simp_all add: sent_on_def)

lemma got_on_simps [simp]:
  "got_on fd [] = []" "got_on fd (e # es) = got_bytes fd e @ got_on fd es"
  "got_on fd (es @ fs) = got_on fd es @ got_on fd fs"
  by (simp_all add: got_on_def)

lemma got_bytes_simps [simp]:
  "got_bytes fd (Got f bs) = (if f = fd then bs else [])" "got_bytes fd (Sent f j) = []"
  "got_bytes fd (Hangup f) = []" "got_bytes fd (Io_Error f) = []" "got_bytes fd (Accepted l f) = []"
  by (simp_all add: got_bytes_def)

text \<open>What a connection has received and not sent yet, outside the sending of a message.\<close>

definition pend :: "session \<Rightarrow> byte list" where
  "pend x = take (s_cursor x) (s_msg x)"

text \<open>
  Conservation: on a connection that stays open, what was pending and what comes in is what goes out
  and what is pending then.
\<close>

definition conserves ::
  "net_event list \<Rightarrow> (int \<Rightarrow> session option) \<Rightarrow> (int \<Rightarrow> session option) \<Rightarrow> (int \<Rightarrow> byte list) \<Rightarrow> bool" where
  "conserves evs s s' out \<longleftrightarrow>
     (\<forall>fd x. s fd = Some x \<longrightarrow> Hangup fd \<notin> set evs \<longrightarrow>
        (\<exists>y. s' fd = Some y \<and> pend x @ got_on fd evs = out fd @ pend y))"

lemma conserves_Nil [simp]: "conserves [] s s (\<lambda>_. [])"
  by (simp add: conserves_def)

lemma conserves_append:
  assumes "conserves xs s s1 o1" "conserves ys s1 s2 o2"
  shows "conserves (xs @ ys) s s2 (\<lambda>fd. o1 fd @ o2 fd)"
  unfolding conserves_def
proof (intro allI impI)
  fix fd x assume x: "s fd = Some x" "Hangup fd \<notin> set (xs @ ys)"
  then obtain y where y: "s1 fd = Some y" "pend x @ got_on fd xs = o1 fd @ pend y"
    using assms(1) by (auto simp: conserves_def)
  then obtain z where z: "s2 fd = Some z" "pend y @ got_on fd ys = o2 fd @ pend z"
    using assms(2) x(2) by (auto simp: conserves_def)
  have "pend x @ got_on fd (xs @ ys) = (o1 fd @ o2 fd) @ pend z"
    using y(2) z(2) by (metis append.assoc got_on_simps(3))
  then show "\<exists>y. s2 fd = Some y \<and> pend x @ got_on fd (xs @ ys) = (o1 fd @ o2 fd) @ pend y" using z(1) by blast
qed

text \<open>Events about one descriptor conserve the others.\<close>

lemma conserves_one:
  assumes "\<And>x. x \<noteq> fd \<Longrightarrow> s' x = s x \<and> out x = [] \<and> got_on x evs = []"
    "\<And>x. s fd = Some x \<Longrightarrow> Hangup fd \<notin> set evs \<Longrightarrow> \<exists>y. s' fd = Some y \<and> pend x @ got_on fd evs = out fd @ pend y"
  shows "conserves evs s s' out"
  unfolding conserves_def
proof (intro allI impI)
  fix g x assume "s g = Some x" "Hangup g \<notin> set evs"
  then show "\<exists>y. s' g = Some y \<and> pend x @ got_on g evs = out g @ pend y"
    using assms by (cases "g = fd") auto
qed

section \<open>Connections that exchange whole messages\<close>

text \<open>
  The events about a descriptor are an accept and then rounds of a message each, however the messages
  are split; \<open>M\<close> is what the client sent.
\<close>

definition exchanges :: "nat \<Rightarrow> int \<Rightarrow> net_event list \<Rightarrow> byte list \<Rightarrow> bool" where
  "exchanges n fd evs M \<longleftrightarrow>
     (\<exists>l rs. filter (about fd) evs = Accepted l fd # concat (map (round_events fd) rs) \<and> (\<forall>r \<in> set rs. round_ok n r) \<and>
        M = concat (map (\<lambda>r. concat (fst r)) rs))"

lemma exchanges_whole: "exchanges n fd evs M \<Longrightarrow> n dvd length M"
proof -
  assume "exchanges n fd evs M"
  then obtain rs where rs: "\<forall>r \<in> set rs. round_ok n r" "M = concat (map (\<lambda>r. concat (fst r)) rs)" by (auto simp: exchanges_def)
  from rs(1) have "n dvd length (concat (map (\<lambda>r. concat (fst r)) rs))" by (induction rs) (auto simp: round_ok_def)
  then show ?thesis using rs(2) by simp
qed

lemma runs_exchange:
  assumes "runs n evs (\<lambda>_. None) S out" "exchanges n fd evs M" "0 < n"
  shows "out fd = M \<and> (\<exists>m. S fd = Some \<lparr>s_cursor = 0, s_msg = m\<rparr>)"
proof -
  from assms(2) obtain l rs where ex: "filter (about fd) evs = Accepted l fd # concat (map (round_events fd) rs)"
    "\<forall>r \<in> set rs. round_ok n r" "M = concat (map (\<lambda>r. concat (fst r)) rs)" by (auto simp: exchanges_def)
  have "length (replicate n (0 :: byte)) = n" by simp
  from local_run_rounds[OF assms(3) ex(2) this, of fd] obtain m' cs where
    "local_run n fd (concat (map (round_events fd) rs)) (Some \<lparr>s_cursor = 0, s_msg = replicate n 0\<rparr>) =
      (Some \<lparr>s_cursor = 0, s_msg = m'\<rparr>, cs, M)" unfolding ex(3) by blast
  then show ?thesis using echo_steps_local[of n evs "\<lambda>_. None" fd] assms(1) by (simp add: runs_def ex(1) wire1_def)
qed

end
