(* ===== verification/Echo_Upcall.thy ===== *)
theory Echo_Upcall
  imports Echo_Spec Event_Loop
begin

text \<open>
  The echo server on upcalls (\<open>event-tester/upcall.c\<close>): its three callbacks and \<open>on_close\<close>, over
  the worker of libupcall (Upcall_Queue, Event_Loop) and the tables of Echo_Core.  The callbacks
  are proved to implement an abstract echo server on sessions, without pointers and caches.
\<close>

section \<open>Callbacks\<close>

datatype echo_fn = My_Accept | My_Read | My_Write

text \<open>
  What a round of callbacks depends on: the allocator behind the batch and the pool, whether a
  \<open>calloc\<close> of the two caches succeeds (by the number of the entry), and the bytes the kernel left
  in the pool buffers.
\<close>

record echo_env =
  ee_mem :: "echo_fn mem_env"
  ee_conn_calloc :: "nat \<Rightarrow> bool"
  ee_msg_calloc :: "nat \<Rightarrow> bool"
  ee_bytes :: "ptr \<Rightarrow> byte list"

definition my_accept ::
  "echo_env \<Rightarrow> echo_fn up_event \<Rightarrow> echo \<times> echo_fn worker \<Rightarrow> (echo \<times> echo_fn worker) res" where
  "my_accept env arg s =
     (let a = fst s; w = snd s; incoming = ev_result arg in
      rbind (if incoming < 0 then Inr (a, w)
             else
               let a0 = a\<lparr>accept_count := accept_count a + 1\<rparr> in
               rbind (new_conn (ee_conn_calloc env (brk (conn_cache a0))) incoming a0) (\<lambda>(c, a1).
               rbind (set_conn_slot incoming (Some c) a1) (\<lambda>a2.
               rbind (ensure_buffer (ee_msg_calloc env (brk (msg_cache a2))) c
                        (upd_conn c (\<lambda>cn. cn\<lparr>cn_state := WAITING\<rparr>) a2)) (\<lambda>a3.
               rbind (add_read (ee_mem env) (cn_fd (conn a3 c)) (Some My_Read) w) (\<lambda>w1.
                 Inr (a3, w1))))))
        (\<lambda>(a, w). rbind (add_accept (ee_mem env) (ev_fd arg) (Some My_Accept) w) (\<lambda>w2. Inr (a, w2))))"

text \<open>\<open>on_close\<close>, which dereferences its argument at once.\<close>

definition on_close :: "nat option \<Rightarrow> echo \<Rightarrow> echo res" where
  "on_close p a =
     rbind (deref p) (\<lambda>c.
       let closed_fd = cn_fd (conn a c);
           a1 = upd_conn c (\<lambda>cn. cn\<lparr>cn_fd := - 1\<rparr>) a in
       if closed_fd \<ge> 0 then
         rbind (set_conn_slot closed_fd None a1) (\<lambda>a2.
         let a3 = upd_conn c (\<lambda>cn. cn\<lparr>cn_state := CLOSING\<rparr>) a2 in
         rbind (free_conn c (a3\<lparr>closed_fds := closed_fd # closed_fds a3\<rparr>)) (\<lambda>a4.
           Inr (a4\<lparr>conn_count := conn_count a4 + 1\<rparr>)))
       else Inr a1)"

definition my_write ::
  "echo_env \<Rightarrow> echo_fn up_event \<Rightarrow> echo \<times> echo_fn worker \<Rightarrow> (echo \<times> echo_fn worker) res" where
  "my_write env arg s =
     (let a = fst s; w = snd s in
      rbind (conn_slot a (ev_fd arg)) (\<lambda>p.
      if ev_result arg = 0 then rbind (on_close p a) (\<lambda>a1. Inr (a1, w))
      else if ev_result arg < 0 then Inr (a, w)
      else rbind (deref p) (\<lambda>c.
        let n = nat (ev_result arg) + cn_cursor (conn a c) in
        if n < msg_size a then
          let a1 = upd_conn c (\<lambda>cn. cn\<lparr>cn_cursor := n\<rparr>) a in
          rbind (deref (cn_buffer (conn a1 c))) (\<lambda>b.
          rbind (add_write (ee_mem env) (cn_fd (conn a1 c)) (Ptr (msg_at a1 b) n) (msg_size a1 - n)
                   (Some My_Write) w) (\<lambda>w1. Inr (a1, w1)))
        else
          let a1 = upd_conn c (\<lambda>cn. cn\<lparr>cn_cursor := 0\<rparr>) a in
          rbind (add_read (ee_mem env) (cn_fd (conn a1 c)) (Some My_Read) w) (\<lambda>w1. Inr (a1, w1)))))"

text \<open>The \<open>memcpy\<close> of \<open>my_read\<close>: it reads \<open>result\<close> bytes of the pool buffer, and checks no bound.\<close>

definition copy_in :: "echo_env \<Rightarrow> ptr \<Rightarrow> nat \<Rightarrow> nat \<Rightarrow> echo \<Rightarrow> echo res" where
  "copy_in env buf n c a =
     (if length (ee_bytes env buf) < n then Inl (Fault OutOfBounds)
      else store_msg (cn_buffer (conn a c)) (cn_cursor (conn a c)) (take n (ee_bytes env buf)) a)"

definition my_read ::
  "echo_env \<Rightarrow> echo_fn up_event \<Rightarrow> echo \<times> echo_fn worker \<Rightarrow> (echo \<times> echo_fn worker) res" where
  "my_read env arg s =
     (let a = fst s; w = snd s in
      rbind (conn_slot a (ev_fd arg)) (\<lambda>p.
      rbind (deref p) (\<lambda>c.
      if cn_fd (conn a c) < 0 then Inr (a, w)
      else if ev_result arg = 0 then rbind (on_close p a) (\<lambda>a1. Inr (a1, w))
      else
        let a1 = upd_conn c (\<lambda>cn. cn\<lparr>cn_event_count := cn_event_count cn + 1\<rparr>) a in
        if ev_result arg < 0 then Inr (a1, w)
        else
          rbind (copy_in env (ev_buf arg) (nat (ev_result arg)) c a1) (\<lambda>a2.
          let a3 = upd_conn c (\<lambda>cn. cn\<lparr>cn_cursor := cn_cursor cn + nat (ev_result arg)\<rparr>) a2 in
          rbind (return_buffer (ee_mem env) (ev_buf arg) (ev_len arg) w) (\<lambda>w1.
          if cn_cursor (conn a3 c) < msg_size a3 then
            rbind (add_read (ee_mem env) (cn_fd (conn a3 c)) (Some My_Read) w1) (\<lambda>w2. Inr (a3, w2))
          else
            let a4 = upd_conn c (\<lambda>cn. cn\<lparr>cn_cursor := 0\<rparr>) a3 in
            rbind (deref (cn_buffer (conn a4 c))) (\<lambda>b.
            rbind (add_write (ee_mem env) (cn_fd (conn a4 c)) (Ptr (msg_at a4 b) 0) (msg_size a4)
                     (Some My_Write) w1) (\<lambda>w2. Inr (a4, w2))))))))"

definition echo_dispatch :: "echo_env \<Rightarrow> (echo_fn, echo) handler" where
  "echo_dispatch env f ev s =
     (case f of
        My_Accept \<Rightarrow> my_accept env ev s
      | My_Read \<Rightarrow> my_read env ev s
      | My_Write \<Rightarrow> my_write env ev s)"

text \<open>What an event of the library means.\<close>

definition meaning :: "echo_env \<Rightarrow> echo_fn \<Rightarrow> echo_fn up_event \<Rightarrow> net_event" where
  "meaning env f e =
     (case f of
        My_Accept \<Rightarrow> if ev_result e < 0 then Accept_Error (ev_fd e) else Accepted (ev_fd e) (ev_result e)
      | My_Read \<Rightarrow> if ev_result e = 0 then Hangup (ev_fd e) else if ev_result e < 0 then Io_Error (ev_fd e)
          else Got (ev_fd e) (take (nat (ev_result e)) (ee_bytes env (ev_buf e)))
      | My_Write \<Rightarrow> if ev_result e = 0 then Hangup (ev_fd e) else if ev_result e < 0 then Io_Error (ev_fd e)
          else Sent (ev_fd e) (nat (ev_result e)))"

text \<open>The request a command stands for; the bytes to write are in the buffer of the connection.\<close>

definition conn_buf :: "echo \<Rightarrow> int \<Rightarrow> nat option" where
  "conn_buf a fd = (case conns a fd of None \<Rightarrow> None | Some c \<Rightarrow> cn_buffer (conn a c))"

fun asks :: "echo \<Rightarrow> echo_fn up_event \<Rightarrow> cmd \<Rightarrow> bool" where
  "asks a e (Arm_Accept l) \<longleftrightarrow> describes e (Accept l (Some My_Accept))"
| "asks a e (Arm_Read fd) \<longleftrightarrow> describes e (Read fd (Some My_Read))"
| "asks a e (Arm_Write fd off n) \<longleftrightarrow>
     (\<exists>b. conn_buf a fd = Some b \<and> describes e (Write fd (Ptr (msg_at a b) off) n (Some My_Write)))"

text \<open>
  The invariant between callbacks, and the completions a callback can expect: accepted
  descriptors are new and in the range of the table, the connection of a read or write is still
  there, and a read brings no more than the rest of the message.
\<close>

definition echo_inv :: "echo \<times> echo_fn worker \<Rightarrow> bool" where
  "echo_inv s \<longleftrightarrow> echo_wf (fst s) \<and> buffered (fst s) \<and> 0 < msg_size (fst s) \<and> handler_ready (snd s)"

definition expects :: "echo_env \<Rightarrow> echo \<times> echo_fn worker \<Rightarrow> echo_fn up_event \<Rightarrow> bool" where
  "expects env s e =
     (case ev_fn e of
        None \<Rightarrow> True
      | Some My_Accept \<Rightarrow>
          0 \<le> ev_result e \<longrightarrow> ev_result e < max_fd (fst s) \<and> conns (fst s) (ev_result e) = None
      | Some My_Read \<Rightarrow>
          (case conns (fst s) (ev_fd e) of
             None \<Rightarrow> False
           | Some c \<Rightarrow> nat (ev_result e) \<le> length (ee_bytes env (ev_buf e)) \<and>
                       cn_cursor (conn (fst s) c) + nat (ev_result e) \<le> msg_size (fst s))
      | Some My_Write \<Rightarrow> conns (fst s) (ev_fd e) \<noteq> None)"

section \<open>The callbacks implement the abstract server\<close>

lemma add_read_request: "add_read m fd fn w = add_request m (Read fd fn) w"
  and add_write_request: "add_write m fd b n fn w = add_request m (Write fd b n fn) w"
  and add_accept_request: "add_accept m fd fn w = add_request m (Accept fd fn) w"
  by (simp_all add: add_request_def)

text \<open>What a callback that returns has done.\<close>

definition implements ::
  "echo_env \<Rightarrow> echo_fn \<Rightarrow> echo_fn up_event \<Rightarrow> echo \<times> echo_fn worker \<Rightarrow> echo \<times> echo_fn worker \<Rightarrow> bool" where
  "implements env f e s s' \<longleftrightarrow>
     echo_inv s' \<and> same_config (fst s) (fst s') \<and> recv_cnt (snd s') = recv_cnt (snd s) \<and>
     sessions (fst s') = fst (echo_step (msg_size (fst s)) (meaning env f e) (sessions (fst s))) \<and>
     (\<exists>es. pending (snd s') = pending (snd s) @ es \<and>
        list_all2 (asks (fst s')) es (snd (echo_step (msg_size (fst s)) (meaning env f e) (sessions (fst s))))) \<and>
     pool (snd s') = pool (snd s) @
       (if f = My_Read \<and> 0 < ev_result e then [\<lparr>iov_base = ev_buf e, iov_len = ev_len e\<rparr>] else [])"

text \<open>
  The good end of every callback: one connection changed, and one request was queued on a worker
  \<open>w\<close> that differs from the old one at most in the pool.
\<close>

lemma request_implements:
  assumes inv: "echo_inv s" and wf: "echo_wf z" and cf: "same_config (fst s) z"
    and v: "view z = (view (fst s))(fd := Some (cn, Some m))"
    and w: "handler_ready w" "recv_cnt w = recv_cnt (snd s)" "pending w = pending (snd s)"
      "pool w = pool (snd s) @
        (if f = My_Read \<and> 0 < ev_result e then [\<lparr>iov_base = ev_buf e, iov_len = ev_len e\<rparr>] else [])"
    and rq: "add_request mm r w = Inr w'" and cm: "\<And>x. describes x r \<Longrightarrow> asks z x cm"
    and st: "echo_step (msg_size (fst s)) (meaning env f e) (sessions (fst s)) =
      ((sessions (fst s))(fd := Some (session_of (cn, Some m))), [cm])"
  shows "implements env f e s (z, w')"
proof -
  have q: "handler_ready w' \<and> pool w' = pool w \<and> recv_cnt w' = recv_cnt w \<and>
      (\<exists>x. pending w' = pending w @ [x] \<and> describes x r)"
    by (rule handler_ready_add_request[OF w(1) rq])
  then obtain x where "pending w' = pending w @ [x]" "asks z x cm" using cm by blast
  then have "\<exists>es. pending w' = pending (snd s) @ es \<and> list_all2 (asks z) es [cm]"
    using w(3) by (intro exI[of _ "[x]"]) simp
  moreover have "echo_inv (z, w')"
    using inv wf cf q buffered_upd[OF _ v] by (simp add: echo_inv_def same_config_def)
  ultimately show ?thesis unfolding implements_def st using cf q w(2,4) sessions_upd[OF v] by simp
qed

text \<open>The good part of \<open>my_accept\<close>: a session with an empty message is opened.\<close>

lemma session_opened:
  assumes wf: "echo_wf a" and m: "0 < msg_size a" and fd: "0 \<le> fd" "fd < max_fd a" "conns a fd = None"
    and n: "new_conn oc fd a = Inr (c, a1)" and sl: "set_conn_slot fd (Some c) a1 = Inr a2"
    and en: "ensure_buffer om c (upd_conn c (\<lambda>cn. cn\<lparr>cn_state := WAITING\<rparr>) a2) = Inr a3"
  obtains cn where "echo_wf a3" "same_config a a3" "cn_fd (conn a3 c) = fd" "cn_cursor cn = 0"
    "view a3 = (view a)(fd := Some (cn, Some (replicate (msg_size a) 0)))"
proof -
  from new_conn_open[OF wf n fd(3,1,2) m]
  have nc: "echo_wf (a1\<lparr>conns := (conns a1)(fd := Some c)\<rparr>)"
    "view (a1\<lparr>conns := (conns a1)(fd := Some c)\<rparr>) = (view a)(fd := Some (zero_connection\<lparr>cn_fd := fd\<rparr>, None))"
    "same_config a a1" "conn a1 c = zero_connection\<lparr>cn_fd := fd\<rparr>" by blast+
  have a2: "a2 = a1\<lparr>conns := (conns a1)(fd := Some c)\<rparr>" using sl by (simp add: set_conn_slot_def split: if_splits)
  have cf: "same_config a a2" using nc(3) by (simp add: same_config_def a2)
  have w2: "echo_wf a2" and v2: "view a2 = (view a)(fd := Some (zero_connection\<lparr>cn_fd := fd\<rparr>, None))"
    and o2: "conns a2 fd = Some c" and cn2: "conn a2 c = zero_connection\<lparr>cn_fd := fd\<rparr>"
    using nc by (simp_all add: a2 conn_def)
  let ?b = "upd_conn c (\<lambda>cn. cn\<lparr>cn_state := WAITING\<rparr>) a2"
  let ?cn = "zero_connection\<lparr>cn_fd := fd, cn_state := WAITING\<rparr>"
  have "0 < msg_size a2" using cf m by (simp add: same_config_def)
  then have w3: "echo_wf ?b" using cn2 by (intro echo_wf_upd_conn w2) (simp_all add: zero_connection_def)
  have v3: "view ?b = (view a2)(fd := Some (?cn, None))"
    using view_upd_conn[OF w2 o2, of "\<lambda>cn. cn\<lparr>cn_state := WAITING\<rparr>"] by (simp add: cn2 zero_connection_def)
  have cn3: "conn ?b c = ?cn" by (simp add: conn_upd_conn cn2)
  have "conns ?b fd = Some c" using o2 by simp
  from ensure_buffer_open[OF w3 this en] obtain b where
    w4: "echo_wf a3" "same_config ?b a3" "conn a3 c = ?cn\<lparr>cn_buffer := Some b\<rparr>"
    and v4: "view a3 = (view ?b)(fd := Some (?cn\<lparr>cn_buffer := Some b\<rparr>, Some (replicate (msg_size ?b) 0)))"
    unfolding cn3 by (auto simp: zero_connection_def)
  have v: "view a3 = (view a)(fd := Some (?cn\<lparr>cn_buffer := Some b\<rparr>, Some (replicate (msg_size a) 0)))"
    using cf unfolding v4 v3 v2 by (simp add: same_config_def)
  have cf': "same_config a a3" using cf w4(2) by (auto simp: same_config_def)
  show thesis by (rule that[OF w4(1) cf' _ _ v]) (simp_all add: w4(3) zero_connection_def)
qed

lemma my_accept_implements:
  assumes inv: "echo_inv s" and e: "expects env s e" "ev_fn e = Some My_Accept"
    and run: "my_accept env e s = Inr s'"
  shows "implements env My_Accept e s s'"
proof (cases "ev_result e < 0")
  case True
  obtain w' where w': "add_request (ee_mem env) (Accept (ev_fd e) (Some My_Accept)) (snd s) = Inr w'"
    "s' = (fst s, w')"
    using run True by (auto simp: my_accept_def add_accept_request Let_def)
  from handler_ready_add_request[OF _ w'(1)] inv
  show ?thesis using True by (auto simp: implements_def echo_inv_def w'(2) meaning_def)
next
  case False
  let ?a = "fst s" and ?fd = "ev_result e"
  let ?ax = "?a\<lparr>accept_count := accept_count ?a + 1\<rparr>"
  have i: "echo_wf ?a" "buffered ?a" "0 < msg_size ?a" "handler_ready (snd s)"
    using inv by (auto simp: echo_inv_def)
  have c0: "echo_wf ?ax" "view ?ax = view ?a"
    using echo_wf_cong(1)[of ?ax ?a] echo_wf_cong(2)[of ?ax ?a] i(1) by simp_all
  from run False obtain c a1 a2 a3 w1 w2 where
    n: "new_conn (ee_conn_calloc env (brk (conn_cache ?ax))) ?fd ?ax = Inr (c, a1)"
    and sl: "set_conn_slot ?fd (Some c) a1 = Inr a2"
    and en: "ensure_buffer (ee_msg_calloc env (brk (msg_cache a2))) c (upd_conn c (\<lambda>cn. cn\<lparr>cn_state := WAITING\<rparr>) a2) = Inr a3"
    and rd: "add_read (ee_mem env) (cn_fd (conn a3 c)) (Some My_Read) (snd s) = Inr w1"
    and ac: "add_accept (ee_mem env) (ev_fd e) (Some My_Accept) w1 = Inr w2"
    and s': "s' = (a3, w2)"
    by (auto simp: my_accept_def Let_def rbind_eq_Inr_iff split: prod.splits)
  have "0 < msg_size ?ax" "0 \<le> ?fd" "?fd < max_fd ?ax" "conns ?ax ?fd = None"
    using e False i by (auto simp: expects_def)
  then obtain cn where w4: "echo_wf a3" "same_config ?ax a3" "cn_fd (conn a3 c) = ?fd" "cn_cursor cn = 0"
    and vx: "view a3 = (view ?ax)(?fd := Some (cn, Some (replicate (msg_size ?ax) 0)))"
    by (rule session_opened[OF c0(1) _ _ _ _ n sl en])
  have v: "view a3 = (view ?a)(?fd := Some (cn, Some (replicate (msg_size ?a) 0)))"
    using vx unfolding c0(2) by simp
  have r1: "handler_ready w1 \<and> pool w1 = pool (snd s) \<and> recv_cnt w1 = recv_cnt (snd s) \<and>
      (\<exists>x. pending w1 = pending (snd s) @ [x] \<and> describes x (Read ?fd (Some My_Read)))"
    using handler_ready_add_request[OF i(4) rd[unfolded add_read_request]] w4(3) by simp
  then have r2: "handler_ready w2 \<and> pool w2 = pool w1 \<and> recv_cnt w2 = recv_cnt w1 \<and>
      (\<exists>x. pending w2 = pending w1 @ [x] \<and> describes x (Accept (ev_fd e) (Some My_Accept)))"
    using handler_ready_add_request[OF _ ac[unfolded add_accept_request]] by blast
  from r1 r2 obtain x y where "pending w1 = pending (snd s) @ [x]" "asks a3 x (Arm_Read ?fd)"
    "pending w2 = pending w1 @ [y]" "asks a3 y (Arm_Accept (ev_fd e))" by auto
  then have p: "\<exists>es. pending w2 = pending (snd s) @ es \<and> list_all2 (asks a3) es [Arm_Read ?fd, Arm_Accept (ev_fd e)]"
    by (intro exI[of _ "[x, y]"]) simp
  have ss: "sessions a3 = (sessions ?a)(?fd := Some \<lparr>s_cursor = 0, s_msg = replicate (msg_size ?a) 0\<rparr>)"
    using sessions_upd[OF v] by (simp add: session_of_def w4(4))
  have "meaning env My_Accept e = Accepted (ev_fd e) ?fd" using False by (simp add: meaning_def)
  moreover have "echo_inv s'" using w4(1,2) buffered_upd[OF i(2) v] i(3) r2
    by (simp add: echo_inv_def s' same_config_def)
  ultimately show ?thesis
    unfolding implements_def using w4(2) r1 r2 p ss by (simp add: s' same_config_def)
qed

text \<open>Closing an open connection always succeeds: its slot, buffer and entry are released, its descriptor closed once.\<close>

lemma on_close_open:
  assumes wf: "echo_wf a" and c: "conns a fd = Some c" and b: "cn_buffer (conn a c) = Some b"
  shows "\<exists>a'. on_close (Some c) a = Inr a' \<and> echo_wf a' \<and> view a' = (view a)(fd := None) \<and>
    conns a' = (conns a)(fd := None) \<and> same_config a a' \<and> closed_fds a' = fd # closed_fds a \<and>
    conn_count a' = conn_count a + 1 \<and> \<not> in_use (conn_cache a') c \<and> \<not> in_use (msg_cache a') b"
proof -
  let ?ax = "a\<lparr>closed_fds := fd # closed_fds a\<rparr>"
  let ?f = "\<lambda>cn. cn\<lparr>cn_fd := - 1, cn_state := CLOSING\<rparr>"
  have wx: "echo_wf ?ax" "view ?ax = view a" using wf echo_wf_cong(1)[of ?ax a] echo_wf_cong(2)[of ?ax a] by simp_all
  have r: "0 \<le> fd" "fd < max_fd a" "cn_fd (conn a c) = fd" using open_in_range[OF wf c] by auto
  have cx: "conns ?ax fd = Some c" "conn ?ax c = conn a c" using c by (simp_all add: conn_def)
  from free_conn_open[OF wx(1) cx(1), of b ?f] cx(2) b obtain a' where a':
    "free_conn c (upd_conn c ?f (?ax\<lparr>conns := (conns ?ax)(fd := None)\<rparr>)) = Inr a'" "echo_wf a'"
    "conns a' = (conns ?ax)(fd := None)" "same_config ?ax a'" "closed_fds a' = closed_fds ?ax"
    "conn_count a' = conn_count ?ax" "\<not> in_use (conn_cache a') c" "\<not> in_use (msg_cache a') b"
    "view a' = (view ?ax)(fd := None)" by auto
  let ?a3 = "upd_conn c (\<lambda>cn. cn\<lparr>cn_state := CLOSING\<rparr>)
      ((upd_conn c (\<lambda>cn. cn\<lparr>cn_fd := - 1\<rparr>) a)\<lparr>conns := (conns a)(fd := None)\<rparr>)"
  have eq: "?a3\<lparr>closed_fds := fd # closed_fds ?a3\<rparr> = upd_conn c ?f (?ax\<lparr>conns := (conns ?ax)(fd := None)\<rparr>)"
    by (simp add: upd_conn_def conn_def set_data_def payload_def)
  have run: "on_close (Some c) a = Inr (a'\<lparr>conn_count := conn_count a' + 1\<rparr>)"
    using a'(1) r by (simp add: on_close_def deref_def Let_def set_conn_slot_def eq[simplified])
  let ?r = "a'\<lparr>conn_count := conn_count a' + 1\<rparr>"
  have "echo_wf ?r" "view ?r = view a'" using a'(2) echo_wf_cong(1)[of ?r a'] echo_wf_cong(2)[of ?r a'] by simp_all
  then show ?thesis using run a' wx(2) by (intro exI[of _ ?r]) (simp add: same_config_def)
qed

lemma echo_invD:
  assumes "echo_inv s"
  shows "echo_wf (fst s)" "buffered (fst s)" "0 < msg_size (fst s)" "handler_ready (snd s)"
  using assms by (auto simp: echo_inv_def)

text \<open>An open connection has a buffer, and is its session.\<close>

lemma open_session:
  assumes "echo_inv s" "conns (fst s) fd = Some c"
  obtains b where "cn_buffer (conn (fst s) c) = Some b" "length (msg (fst s) b) = msg_size (fst s)"
    "view (fst s) fd = Some (conn (fst s) c, Some (msg (fst s) b))"
    "sessions (fst s) fd = Some \<lparr>s_cursor = cn_cursor (conn (fst s) c), s_msg = msg (fst s) b\<rparr>"
proof -
  obtain b where b: "cn_buffer (conn (fst s) c) = Some b"
    using echo_invD(2)[OF assms(1)] assms(2) by (auto simp: buffered_def)
  moreover have "length (msg (fst s) b) = msg_size (fst s)"
    using echo_wfD(3)[OF echo_invD(1)[OF assms(1)] assms(2)] b by (simp add: conn_wf_def)
  ultimately show thesis using assms(2) that
    by (simp add: sessions_def view_def view_at_def session_of_def)
qed

lemma hangup_implements:
  assumes inv: "echo_inv s" and c: "conns (fst s) (ev_fd e) = Some c" and f: "f \<noteq> My_Accept" "ev_result e = 0"
    and run: "rbind (on_close (Some c) (fst s)) (\<lambda>a1. Inr (a1, snd s)) = Inr s'"
  shows "implements env f e s s'"
proof -
  obtain b where b: "cn_buffer (conn (fst s) c) = Some b" by (rule open_session[OF inv c])
  note i = echo_invD[OF inv]
  from on_close_open[OF i(1) c b] run obtain a' where a': "s' = (a', snd s)" "echo_wf a'"
    "view a' = (view (fst s))(ev_fd e := None)" "same_config (fst s) a'" by auto
  have "meaning env f e = Hangup (ev_fd e)" using f by (cases f) (simp_all add: meaning_def)
  moreover have "echo_inv s'" using a' i buffered_del[OF i(2) a'(3)] by (simp add: echo_inv_def same_config_def)
  ultimately show ?thesis using a' sessions_del[OF a'(3)] f by (simp add: implements_def)
qed

lemma my_write_implements:
  assumes inv: "echo_inv s" and e: "expects env s e" "ev_fn e = Some My_Write"
    and run: "my_write env e s = Inr s'"
  shows "implements env My_Write e s s'"
proof -
  note i = echo_invD[OF inv]
  let ?a = "fst s" and ?fd = "ev_fd e"
  obtain c where c: "conns ?a ?fd = Some c" using e by (auto simp: expects_def)
  obtain b where b: "cn_buffer (conn ?a c) = Some b" "length (msg ?a b) = msg_size ?a"
    "view ?a ?fd = Some (conn ?a c, Some (msg ?a b))"
    "sessions ?a ?fd = Some \<lparr>s_cursor = cn_cursor (conn ?a c), s_msg = msg ?a b\<rparr>" by (rule open_session[OF inv c])
  have sl: "conn_slot ?a ?fd = Inr (Some c)" by (rule conn_slot_open[OF i(1) c])
  have cfd: "cn_fd (conn ?a c) = ?fd" using open_in_range[OF i(1) c] by simp
  consider "ev_result e = 0" | "ev_result e < 0" | "0 < ev_result e" by linarith
  then show ?thesis
  proof cases
    case 1
    then show ?thesis using run sl by (intro hangup_implements[OF inv c]) (simp_all add: my_write_def Let_def)
  next
    case 2
    then have "s' = s" using run sl by (simp add: my_write_def Let_def)
    then show ?thesis using 2 inv by (simp add: implements_def meaning_def)
  next
    case 3
    define n where "n = cn_cursor (conn ?a c) + nat (ev_result e)"
    define k where "k = (if n < msg_size ?a then n else 0)"
    let ?f = "\<lambda>cn. cn\<lparr>cn_cursor := k\<rparr>"
    let ?b = "upd_conn c ?f ?a"
    define r where "r = (if n < msg_size ?a then Write ?fd (Ptr (msg_at ?a b) n) (msg_size ?a - n) (Some My_Write)
                         else Read ?fd (Some My_Read))"
    have cn: "conn ?b c = (conn ?a c)\<lparr>cn_cursor := k\<rparr>" by (simp add: conn_upd_conn)
    from run 3 sl obtain w1 where rq: "add_request (ee_mem env) r (snd s) = Inr w1" and s': "s' = (?b, w1)"
      unfolding my_write_def Let_def
      by (auto simp: deref_def cn cfd b n_def k_def r_def conn_upd_conn add.commute add_read_request add_write_request
               split: if_splits)
    have k: "k < msg_size ?a" using i(3) by (simp add: k_def)
    have wf: "echo_wf ?b" using k by (intro echo_wf_upd_conn i) simp_all
    have v: "view ?b = (view ?a)(?fd := Some ((conn ?a c)\<lparr>cn_cursor := k\<rparr>, Some (msg ?a b)))"
      using view_upd_conn[OF i(1) c, of ?f] by (simp add: b)
    have st: "echo_step (msg_size ?a) (meaning env My_Write e) (sessions ?a) =
        ((sessions ?a)(?fd := Some (session_of ((conn ?a c)\<lparr>cn_cursor := k\<rparr>, Some (msg ?a b)))),
         [if n < msg_size ?a then Arm_Write ?fd n (msg_size ?a - n) else Arm_Read ?fd])"
      using 3 by (simp add: meaning_def session_of_def b(4) Let_def n_def k_def)
    have "conn_buf ?b ?fd = Some b" using c by (simp add: conn_buf_def cn b)
    then have "asks ?b x (if n < msg_size ?a then Arm_Write ?fd n (msg_size ?a - n) else Arm_Read ?fd)" if "describes x r" for x
      using that by (simp add: r_def split: if_splits)
    from request_implements[OF inv wf _ v i(4) refl refl _ rq this st] show ?thesis by (simp add: s')
  qed
qed

text \<open>The copy of a chunk that fits behind the cursor.\<close>

lemma copy_in_open:
  assumes wf: "echo_wf a" and c: "conns a fd = Some c" and b: "cn_buffer (conn a c) = Some b"
    and n: "n \<le> length (ee_bytes env buf)" "cn_cursor (conn a c) + n \<le> msg_size a"
  shows "\<exists>a'. copy_in env buf n c a = Inr a' \<and> echo_wf a' \<and> conns a' = conns a \<and>
    conn_cache a' = conn_cache a \<and> same_config a a' \<and>
    view a' = (view a)(fd := Some (conn a c, Some (splice (cn_cursor (conn a c)) (take n (ee_bytes env buf)) (msg a b))))"
proof -
  have "cn_cursor (conn a c) + length (take n (ee_bytes env buf)) \<le> msg_size a" using n by simp
  from store_msg_open[OF wf c b this] show ?thesis using n by (auto simp: copy_in_def)
qed

text \<open>The good part of \<open>my_read\<close>: the event counted, the chunk copied, the cursor set to \<open>k\<close>.\<close>

lemma chunk_copied:
  assumes wf: "echo_wf a" and c: "conns a fd = Some c" and b: "cn_buffer (conn a c) = Some b"
    and n: "n \<le> length (ee_bytes env buf)" "cn_cursor (conn a c) + n \<le> msg_size a"
  obtains y where
    "copy_in env buf n c (upd_conn c (\<lambda>cn. cn\<lparr>cn_event_count := Suc (cn_event_count cn)\<rparr>) a) = Inr y"
    "conns y = conns a" "same_config a y"
    "conn y c = (conn a c)\<lparr>cn_event_count := Suc (cn_event_count (conn a c))\<rparr>"
    "\<And>k. k < msg_size a \<Longrightarrow> echo_wf (upd_conn c (\<lambda>cn. cn\<lparr>cn_cursor := k\<rparr>) y) \<and>
       view (upd_conn c (\<lambda>cn. cn\<lparr>cn_cursor := k\<rparr>) y) = (view a)(fd := Some ((conn y c)\<lparr>cn_cursor := k\<rparr>,
         Some (splice (cn_cursor (conn a c)) (take n (ee_bytes env buf)) (msg a b))))"
proof -
  let ?g = "\<lambda>cn. cn\<lparr>cn_event_count := Suc (cn_event_count cn)\<rparr>"
  let ?x = "upd_conn c ?g a" and ?m = "splice (cn_cursor (conn a c)) (take n (ee_bytes env buf)) (msg a b)"
  have wx: "echo_wf ?x" using open_in_range[OF wf c] by (intro echo_wf_upd_conn wf) simp_all
  have vx: "view ?x = (view a)(fd := Some (?g (conn a c), Some (msg a b)))"
    using view_upd_conn[OF wf c, of ?g] by (simp add: b)
  have cx: "conn ?x c = ?g (conn a c)" "conns ?x fd = Some c" using c by (simp_all add: conn_upd_conn)
  have "cn_buffer (conn ?x c) = Some b" "cn_cursor (conn ?x c) + n \<le> msg_size ?x" using n by (simp_all add: cx b)
  from copy_in_open[OF wx cx(2) this(1) n(1) this(2)] obtain y where
    y: "copy_in env buf n c ?x = Inr y" "echo_wf y" "conns y = conns ?x" "conn_cache y = conn_cache ?x"
      "same_config ?x y" "view y = (view ?x)(fd := Some (conn ?x c, Some ?m))" by (auto simp: cx)
  have cy: "conn y c = ?g (conn a c)" using y(4) cx(1) by (simp add: conn_def)
  have oy: "conns y fd = Some c" "msg_size y = msg_size a" using y(3,5) c by (simp_all add: same_config_def)
  have "view y fd = Some (conn y c, Some ?m)" using y(6) cx(1) cy by simp
  then have h: "map_option (msg y) (cn_buffer (conn y c)) = Some ?m"
    using view_conns[OF oy(1)] by (simp add: view_at_def)
  have z: "echo_wf (upd_conn c (\<lambda>cn. cn\<lparr>cn_cursor := k\<rparr>) y) \<and>
      view (upd_conn c (\<lambda>cn. cn\<lparr>cn_cursor := k\<rparr>) y) = (view a)(fd := Some ((conn y c)\<lparr>cn_cursor := k\<rparr>, Some ?m))"
    if "k < msg_size a" for k
    using that echo_wf_upd_conn[OF y(2)] view_upd_conn[OF y(2) oy(1), of "\<lambda>cn. cn\<lparr>cn_cursor := k\<rparr>"]
    by (simp add: h oy(2) y(6) vx)
  show thesis by (rule that[OF y(1) _ _ _ z]) (use y(3,5) cy in \<open>simp_all\<close>)
qed

text \<open>The cursor of \<open>my_read\<close>: advanced, and reset behind a full message.\<close>

lemma cursor_advanced:
  assumes "cn_cursor (conn y c) = k"
  shows "upd_conn c (\<lambda>cn. cn\<lparr>cn_cursor := cn_cursor cn + j\<rparr>) y = upd_conn c (\<lambda>cn. cn\<lparr>cn_cursor := k + j\<rparr>) y"
    and "upd_conn c (\<lambda>cn. cn\<lparr>cn_cursor := 0\<rparr>) (upd_conn c (\<lambda>cn. cn\<lparr>cn_cursor := k + j\<rparr>) y) =
      upd_conn c (\<lambda>cn. cn\<lparr>cn_cursor := 0\<rparr>) y"
  using assms by (simp_all add: upd_conn_def conn_def set_data_def payload_def)

lemma my_read_got:
  assumes inv: "echo_inv s" and e: "expects env s e" "ev_fn e = Some My_Read" "0 < ev_result e"
    and run: "my_read env e s = Inr s'"
  shows "implements env My_Read e s s'"
proof -
  note i = echo_invD[OF inv]
  let ?a = "fst s" and ?fd = "ev_fd e"
  define j where "j = nat (ev_result e)"
  define bs where "bs = take j (ee_bytes env (ev_buf e))"
  obtain c where c: "conns ?a ?fd = Some c" using e by (auto simp: expects_def split: option.splits)
  obtain b where b: "cn_buffer (conn ?a c) = Some b" "length (msg ?a b) = msg_size ?a"
    "view ?a ?fd = Some (conn ?a c, Some (msg ?a b))"
    "sessions ?a ?fd = Some \<lparr>s_cursor = cn_cursor (conn ?a c), s_msg = msg ?a b\<rparr>" by (rule open_session[OF inv c])
  define k where "k = cn_cursor (conn ?a c)"
  define m where "m = splice k bs (msg ?a b)"
  have j: "j \<le> length (ee_bytes env (ev_buf e))" "k + j \<le> msg_size ?a" "length bs = j"
    using e c by (auto simp: expects_def j_def k_def bs_def)
  obtain y where y: "copy_in env (ev_buf e) j c (upd_conn c (\<lambda>cn. cn\<lparr>cn_event_count := Suc (cn_event_count cn)\<rparr>) ?a) = Inr y"
    "conns y = conns ?a" "same_config ?a y"
    "conn y c = (conn ?a c)\<lparr>cn_event_count := Suc (cn_event_count (conn ?a c))\<rparr>"
    and z: "\<And>k'. k' < msg_size ?a \<Longrightarrow> echo_wf (upd_conn c (\<lambda>cn. cn\<lparr>cn_cursor := k'\<rparr>) y) \<and>
      view (upd_conn c (\<lambda>cn. cn\<lparr>cn_cursor := k'\<rparr>) y) = (view ?a)(?fd := Some ((conn y c)\<lparr>cn_cursor := k'\<rparr>, Some m))"
    using chunk_copied[OF i(1) c b(1) j(1) j(2)[unfolded k_def]] unfolding m_def bs_def k_def by blast
  have sz: "msg_size y = msg_size ?a" "msg_at y = msg_at ?a" "cn_cursor (conn y c) = k" "conns y ?fd = Some c"
    using y(2-4) c by (simp_all add: same_config_def k_def)
  define k' where "k' = (if k + j < msg_size ?a then k + j else 0)"
  define r where "r = (if k + j < msg_size ?a then Read ?fd (Some My_Read)
                       else Write ?fd (Ptr (msg_at ?a b) 0) (msg_size ?a) (Some My_Write))"
  define cm where "cm = (if k + j < msg_size ?a then Arm_Read ?fd else Arm_Write ?fd 0 (msg_size ?a))"
  let ?z = "upd_conn c (\<lambda>cn. cn\<lparr>cn_cursor := k'\<rparr>) y"
  have cz: "conn ?z c = (conn y c)\<lparr>cn_cursor := k'\<rparr>" by (simp add: conn_upd_conn)
  have cfd: "cn_fd (conn ?a c) = ?fd" "0 \<le> ?fd" using open_in_range[OF i(1) c] by simp_all
  have neg: "\<not> ev_result e < 0" "ev_result e \<noteq> 0" "\<not> cn_fd (conn ?a c) < 0" using e(3) cfd by auto
  from run neg conn_slot_open[OF i(1) c] obtain w1 w2 where
    rb: "return_buffer (ee_mem env) (ev_buf e) (ev_len e) (snd s) = Inr w1"
    and rq: "add_request (ee_mem env) r w1 = Inr w2" and s': "s' = (?z, w2)"
    unfolding my_read_def Let_def j_def[symmetric]
    by (auto simp: deref_def y(1,4) conn_upd_conn sz cfd(1) b(1) cursor_advanced[OF sz(3)] k'_def k_def[symmetric]
         r_def rbind_eq_Inr_iff add_read_request add_write_request split: if_splits)
  have rb': "handler_ready w1" "recv_cnt w1 = recv_cnt (snd s)" "pending w1 = pending (snd s)"
    "pool w1 = pool (snd s) @ [\<lparr>iov_base = ev_buf e, iov_len = ev_len e\<rparr>]"
    using handler_ready_return_buffer[OF i(4) rb] by simp_all
  have k': "k' < msg_size ?a" using i(3) by (simp add: k'_def)
  have st: "echo_step (msg_size ?a) (meaning env My_Read e) (sessions ?a) =
      ((sessions ?a)(?fd := Some (session_of ((conn y c)\<lparr>cn_cursor := k'\<rparr>, Some m))), [cm])"
    using e(3) j(3) by (simp add: meaning_def session_of_def b(4) Let_def k'_def cm_def m_def k_def bs_def j_def)
  have "conn_buf ?z ?fd = Some b" using sz by (simp add: conn_buf_def cz y(4) b)
  then have "asks ?z x cm" if "describes x r" for x
    using that by (simp add: r_def cm_def sz split: if_splits)
  from request_implements[OF inv _ _ conjunct2[OF z[OF k']] rb'(1-3) _ rq this st] z[OF k'] rb'(4) y(3) e(3)
  show ?thesis by (simp add: s')
qed

lemma my_read_implements:
  assumes inv: "echo_inv s" and e: "expects env s e" "ev_fn e = Some My_Read"
    and run: "my_read env e s = Inr s'"
  shows "implements env My_Read e s s'"
proof -
  note i = echo_invD[OF inv]
  let ?a = "fst s" and ?g = "\<lambda>cn. cn\<lparr>cn_event_count := Suc (cn_event_count cn)\<rparr>"
  obtain c where c: "conns ?a (ev_fd e) = Some c" using e by (auto simp: expects_def split: option.splits)
  obtain b where b: "cn_buffer (conn ?a c) = Some b"
    "sessions ?a (ev_fd e) = Some \<lparr>s_cursor = cn_cursor (conn ?a c), s_msg = msg ?a b\<rparr>" by (rule open_session[OF inv c])
  note sl = conn_slot_open[OF i(1) c] and cfd = open_in_range[OF i(1) c]
  let ?x = "upd_conn c ?g ?a"
  have wx: "echo_wf ?x" using cfd by (intro echo_wf_upd_conn i) simp_all
  have vx: "view ?x = (view ?a)(ev_fd e := Some (?g (conn ?a c), Some (msg ?a b)))"
    using view_upd_conn[OF i(1) c, of ?g] by (simp add: b)
  consider "ev_result e = 0" | "ev_result e < 0" | "0 < ev_result e" by linarith
  then show ?thesis
  proof cases
    case 1
    then show ?thesis using run sl cfd
      by (intro hangup_implements[OF inv c]) (simp_all add: my_read_def deref_def Let_def)
  next
    case 2
    then have s': "s' = (?x, snd s)" using run sl cfd by (simp add: my_read_def deref_def Let_def)
    have "sessions ?x = sessions ?a"
      using sessions_upd[OF vx] b(2) by (auto simp: session_of_def fun_upd_idem)
    then show ?thesis using 2 wx buffered_upd[OF i(2) vx] i
      by (simp add: implements_def meaning_def s' echo_inv_def)
  next
    case 3
    from my_read_got[OF inv e this run] show ?thesis .
  qed
qed

lemma echo_dispatch_implements:
  assumes "echo_inv s" "expects env s e" "ev_fn e = Some f" "echo_dispatch env f e s = Inr s'"
  shows "implements env f e s s'"
  using assms my_accept_implements my_read_implements my_write_implements
  by (cases f) (auto simp: echo_dispatch_def)

section \<open>Callbacks do not fault\<close>

text \<open>The only ways left to stop: \<open>exit(1)\<close> without memory, or an \<open>int\<close> capacity at its limit.\<close>

definition out_of_room :: "stop \<Rightarrow> bool" where
  "out_of_room x \<longleftrightarrow> x = Exit 1 \<or> x = Fault IntOverflow"

lemma add_request_room: "handler_ready w \<Longrightarrow> add_request m r w = Inl x \<Longrightarrow> out_of_room x"
  using add_request_stops[of w m r x] by (auto simp: out_of_room_def handler_ready_def)

lemma return_buffer_room: "handler_ready w \<Longrightarrow> return_buffer m b n w = Inl x \<Longrightarrow> out_of_room x"
  using return_buffer_stops[of w m b n x] by (auto simp: out_of_room_def handler_ready_def)

definition mem_granted :: "echo_env \<Rightarrow> bool" where
  "mem_granted env \<longleftrightarrow> (\<forall>i. ee_conn_calloc env i \<and> ee_msg_calloc env i)"

lemma my_accept_stops:
  assumes inv: "echo_inv s" and e: "expects env s e" "ev_fn e = Some My_Accept" and g: "mem_granted env"
    and run: "my_accept env e s = Inl x"
  shows "out_of_room x"
proof (cases "ev_result e < 0")
  case True
  then show ?thesis using run add_request_room[OF echo_invD(4)[OF inv]]
    by (auto simp: my_accept_def Let_def add_accept_request rbind_eq_Inl_iff)
next
  case False
  let ?a = "fst s" and ?fd = "ev_result e"
  let ?ax = "?a\<lparr>accept_count := accept_count ?a + 1\<rparr>"
  note i = echo_invD[OF inv]
  have fd: "0 \<le> ?fd" "?fd < max_fd ?a" "conns ?a ?fd = None" using e False by (auto simp: expects_def)
  have wx: "echo_wf ?ax" using i(1) echo_wf_cong(1)[of ?ax ?a] by simp
  from new_conn_ok[OF echo_wfD(1)[OF wx], of ?fd] obtain c a1 where n: "new_conn True ?fd ?ax = Inr (c, a1)" by blast
  have "conns ?ax ?fd = None" "?fd < max_fd ?ax" "0 < msg_size ?ax" using fd i by simp_all
  note nc = new_conn_open[OF wx n this(1) fd(1) this(2,3)]
  let ?a2 = "a1\<lparr>conns := (conns a1)(?fd := Some c)\<rparr>"
  have sl: "set_conn_slot ?fd (Some c) a1 = Inr ?a2" using nc fd by (simp add: set_conn_slot_def same_config_def)
  let ?b = "upd_conn c (\<lambda>cn. cn\<lparr>cn_state := WAITING\<rparr>) ?a2"
  have "echo_wf ?a2" using nc by blast
  then have "cache_ok (msg_cache ?b)" using echo_wfD(2)[of ?a2] by simp
  then obtain a3 where en: "ensure_buffer True c ?b = Inr a3" using ensure_buffer_ok by blast
  have g': "ee_conn_calloc env k = True" "ee_msg_calloc env k = True" for k using g by (auto simp: mem_granted_def)
  from run False n sl en obtain r where
    "add_read (ee_mem env) (cn_fd (conn a3 c)) (Some My_Read) (snd s) = Inl x \<or>
     (\<exists>w1. add_read (ee_mem env) (cn_fd (conn a3 c)) (Some My_Read) (snd s) = Inr w1 \<and>
        add_accept (ee_mem env) (ev_fd e) (Some My_Accept) w1 = Inl x)"
    by (auto simp: my_accept_def Let_def g' rbind_eq_Inl_iff)
  then show ?thesis unfolding add_read_request add_accept_request
    using add_request_room i(4) handler_ready_add_request[OF i(4)] by blast
qed

lemma my_write_stops:
  assumes inv: "echo_inv s" and e: "expects env s e" "ev_fn e = Some My_Write"
    and run: "my_write env e s = Inl x"
  shows "out_of_room x"
proof -
  note i = echo_invD[OF inv]
  obtain c where c: "conns (fst s) (ev_fd e) = Some c" using e by (auto simp: expects_def)
  obtain b where b: "cn_buffer (conn (fst s) c) = Some b" by (rule open_session[OF inv c])
  have sl: "conn_slot (fst s) (ev_fd e) = Inr (Some c)" by (rule conn_slot_open[OF i(1) c])
  show ?thesis
    using run on_close_open[OF i(1) c b] add_request_room[OF i(4)]
    by (auto simp: my_write_def Let_def sl deref_def conn_upd_conn b rbind_eq_Inl_iff add_read_request
             add_write_request split: if_splits)
qed

lemma my_read_stops:
  assumes inv: "echo_inv s" and e: "expects env s e" "ev_fn e = Some My_Read"
    and run: "my_read env e s = Inl x"
  shows "out_of_room x"
proof -
  note i = echo_invD[OF inv]
  let ?a = "fst s" and ?j = "nat (ev_result e)"
  obtain c where c: "conns ?a (ev_fd e) = Some c" using e by (auto simp: expects_def split: option.splits)
  obtain b where b: "cn_buffer (conn ?a c) = Some b" by (rule open_session[OF inv c])
  have sl: "conn_slot ?a (ev_fd e) = Inr (Some c)" by (rule conn_slot_open[OF i(1) c])
  let ?g = "\<lambda>cn. cn\<lparr>cn_event_count := Suc (cn_event_count cn)\<rparr>"
  let ?x = "upd_conn c ?g ?a"
  have cx: "conn ?x c = ?g (conn ?a c)" "conns ?x (ev_fd e) = Some c" using c by (simp_all add: conn_upd_conn)
  have wx: "echo_wf ?x" using open_in_range[OF i(1) c] by (intro echo_wf_upd_conn i) simp_all
  have "cn_buffer (conn ?x c) = Some b" "?j \<le> length (ee_bytes env (ev_buf e))"
    "cn_cursor (conn ?x c) + ?j \<le> msg_size ?x"
    using e c b unfolding cx by (simp_all add: expects_def)
  from copy_in_open[OF wx cx(2) this] obtain y where
    y: "copy_in env (ev_buf e) ?j c ?x = Inr y" "conn_cache y = conn_cache ?x" by blast
  have cy: "cn_buffer (conn y c) = Some b" using y(2) cx(1) b by (simp add: conn_def)
  consider "out_of_room x" | w1 r where "return_buffer (ee_mem env) (ev_buf e) (ev_len e) (snd s) = Inr w1"
      "add_request (ee_mem env) r w1 = Inl x"
    using run on_close_open[OF i(1) c b] return_buffer_room[OF i(4)] y(1)
    by (auto simp: my_read_def Let_def sl deref_def conn_upd_conn b cy rbind_eq_Inl_iff add_read_request
             add_write_request split: if_splits)
  then show ?thesis
    using handler_ready_return_buffer[OF i(4)] add_request_room by cases blast+
qed

lemma echo_dispatch_stops:
  assumes "echo_inv s" "expects env s e" "ev_fn e = Some f" "mem_granted env" "echo_dispatch env f e s = Inl x"
  shows "out_of_room x"
  using assms my_accept_stops my_read_stops my_write_stops
  by (cases f) (auto simp: echo_dispatch_def)

section \<open>The server as a client of the library\<close>

text \<open>A successful read brings one pool buffer; no other completion does.\<close>

definition brings :: "echo_fn up_event \<Rightarrow> ptr multiset" where
  "brings e = (if ev_fn e = Some My_Read \<and> 0 < ev_result e then {#ev_buf e#} else {#})"

interpretation app: upcall_app "echo_dispatch env" echo_inv "expects env" "\<lambda>_. {#}" brings for env
proof unfold_locales
  fix a :: echo and w :: "echo_fn worker"
  show "echo_inv (a, w) \<Longrightarrow> handler_ready w" by (simp add: echo_inv_def)
  show "echo_inv (a, w\<lparr>receive := xs\<rparr>)" if "echo_inv (a, w)" "length xs = recv_cnt w" for xs
    using that by (simp add: echo_inv_def handler_ready_def worker_wf_def no_vec_def pending_def)
next
  fix s :: "echo \<times> echo_fn worker" and e :: "echo_fn up_event"
  show "expects env s e \<Longrightarrow> ev_fn e = None \<Longrightarrow> brings e = {#}" by (simp add: brings_def)
next
  fix a a' :: echo and w w' :: "echo_fn worker" and e f
  assume "echo_inv (a, w)" "expects env (a, w) e" "ev_fn e = Some f" "echo_dispatch env f e (a, w) = Inr (a', w')"
  then have "implements env f e (a, w) (a', w')" and f: "ev_fn e = Some f" by (auto intro: echo_dispatch_implements)
  then show "echo_inv (a', w') \<and> {#} + bases (pool w') = {#} + bases (pool w) + brings e"
    by (auto simp: implements_def brings_def)
qed

text \<open>Whole batches of completions.\<close>

definition meanings :: "echo_env \<Rightarrow> echo_fn up_event list \<Rightarrow> net_event list" where
  "meanings env es = concat (map (\<lambda>e. case ev_fn e of None \<Rightarrow> [] | Some f \<Rightarrow> [meaning env f e]) es)"

text \<open>The command a queued event stands for.\<close>

definition cmd_of :: "echo_fn up_event \<Rightarrow> cmd" where
  "cmd_of e =
     (case ev_type e of
        UP_READ \<Rightarrow> Arm_Read (ev_fd e)
      | UP_WRITE \<Rightarrow> Arm_Write (ev_fd e) (case ev_buf e of Null \<Rightarrow> 0 | Ptr _ off \<Rightarrow> off) (ev_len e)
      | _ \<Rightarrow> Arm_Accept (ev_fd e))"

lemma asks_cmd_of: "asks a e c \<Longrightarrow> cmd_of e = c"
  by (cases c) (auto simp: cmd_of_def)

lemma list_all2_asks: "list_all2 (asks a) es cs \<Longrightarrow> map cmd_of es = cs"
  by (induction rule: list_all2_induct) (auto simp: asks_cmd_of)

lemma dispatch_all_implements:
  "echo_inv s \<Longrightarrow> all_expected (expects env) (echo_dispatch env) es s \<Longrightarrow>
   dispatch_all (echo_dispatch env) es s = Inr s' \<Longrightarrow>
     echo_inv s' \<and> same_config (fst s) (fst s') \<and>
     sessions (fst s') = fst (echo_steps (msg_size (fst s)) (meanings env es) (sessions (fst s))) \<and>
     map cmd_of (pending (snd s')) = map cmd_of (pending (snd s)) @
       snd (echo_steps (msg_size (fst s)) (meanings env es) (sessions (fst s)))"
proof (induction es arbitrary: s)
  case Nil
  then show ?case by (simp add: meanings_def)
next
  case (Cons e es)
  show ?case
  proof (cases "ev_fn e")
    case None
    then show ?thesis using Cons by (simp add: dispatch1_def meanings_def)
  next
    case (Some f)
    from Cons.prems(3) Some obtain t where t: "echo_dispatch env f e s = Inr t"
      "dispatch_all (echo_dispatch env) es t = Inr s'" by (auto simp: dispatch1_def)
    have ex: "expects env s e" "all_expected (expects env) (echo_dispatch env) es t"
      using Cons.prems(2) t(1) Some by (simp_all add: dispatch1_def)
    have im: "implements env f e s t" by (rule echo_dispatch_implements[OF Cons.prems(1) ex(1) Some t(1)])
    then obtain xs where xs: "pending (snd t) = pending (snd s) @ xs"
      "list_all2 (asks (fst t)) xs (snd (echo_step (msg_size (fst s)) (meaning env f e) (sessions (fst s))))"
      and st: "echo_inv t" "same_config (fst s) (fst t)"
      "sessions (fst t) = fst (echo_step (msg_size (fst s)) (meaning env f e) (sessions (fst s)))"
      by (auto simp: implements_def)
    have sz: "msg_size (fst t) = msg_size (fst s)" using st(2) by (simp add: same_config_def)
    note ih = Cons.IH[OF st(1) ex(2) t(2), unfolded sz st(3)]
    have "meanings env (e # es) = meaning env f e # meanings env es" by (simp add: meanings_def Some)
    then show ?thesis using ih xs(1) list_all2_asks[OF xs(2)] same_config_trans[OF st(2)]
      by (simp add: case_prod_beta Let_def)
  qed
qed

lemma dispatch_all_stops:
  "echo_inv s \<Longrightarrow> all_expected (expects env) (echo_dispatch env) es s \<Longrightarrow> mem_granted env \<Longrightarrow>
   dispatch_all (echo_dispatch env) es s = Inl x \<Longrightarrow> out_of_room x"
proof (induction es arbitrary: s)
  case Nil
  then show ?case by simp
next
  case (Cons e es)
  show ?case
  proof (cases "ev_fn e")
    case None
    then show ?thesis using Cons by (simp add: dispatch1_def)
  next
    case (Some f)
    show ?thesis
    proof (cases "echo_dispatch env f e s")
      case (Inl y)
      then show ?thesis using Cons.prems Some echo_dispatch_stops[of s env e f y] by (simp add: dispatch1_def)
    next
      case (Inr t)
      have "echo_inv t" using echo_dispatch_implements[OF Cons.prems(1) _ Some Inr] Cons.prems(2)
        by (simp add: implements_def)
      then show ?thesis using Cons.IH[of t] Cons.prems Some Inr by (simp add: dispatch1_def)
    qed
  qed
qed

end
