(* ===== verification/Echo_System.thy ===== *)
theory Echo_System
  imports Echo_Upcall Worker_Setup
begin

text \<open>
  The upcall echo server closed with its environment: requests that were submitted are in flight
  until the kernel completes them, one at a time and in any order, and every completion runs its
  callback.  The concrete system (pointers, caches, worker arrays) is shown to simulate the
  abstract one (sessions and armed commands), whose invariant says that a connection never has two
  requests in flight.
\<close>

section \<open>The abstract system\<close>

type_synonym net_state = "(int \<Rightarrow> session option) \<times> cmd multiset"

text \<open>
  How an armed command can complete.  The kernel gives out descriptors that are not open and below
  the limit of the process; a read brings at least one byte and, as the client sends a message only
  after the echo of the last one, no more than the rest of the message; a write sends part of what
  was asked.
\<close>

fun completes :: "int \<Rightarrow> nat \<Rightarrow> (int \<Rightarrow> session option) \<Rightarrow> cmd \<Rightarrow> net_event \<Rightarrow> bool" where
  "completes mx n s (Arm_Accept l) (Accepted l' fd) \<longleftrightarrow> l' = l \<and> 0 \<le> fd \<and> fd < mx \<and> s fd = None"
| "completes mx n s (Arm_Accept l) (Accept_Error l') \<longleftrightarrow> l' = l"
| "completes mx n s (Arm_Read f) (Got fd bs) \<longleftrightarrow> fd = f \<and> bs \<noteq> [] \<and>
     (case s fd of None \<Rightarrow> True | Some x \<Rightarrow> s_cursor x + length bs \<le> n)"
| "completes mx n s (Arm_Write f off len) (Sent fd j) \<longleftrightarrow> fd = f \<and> 0 < j \<and> j \<le> len"
| "completes mx n s (Arm_Read f) (Hangup fd) \<longleftrightarrow> fd = f"
| "completes mx n s (Arm_Read f) (Io_Error fd) \<longleftrightarrow> fd = f"
| "completes mx n s (Arm_Write f off len) (Hangup fd) \<longleftrightarrow> fd = f"
| "completes mx n s (Arm_Write f off len) (Io_Error fd) \<longleftrightarrow> fd = f"
| "completes mx n s _ _ \<longleftrightarrow> False"

inductive net_step :: "int \<Rightarrow> nat \<Rightarrow> net_state \<Rightarrow> net_state \<Rightarrow> bool" for mx n where
  net_complete: "c \<in># A \<Longrightarrow> completes mx n s c ev \<Longrightarrow>
    net_step mx n (s, A) (fst (echo_step n ev s), A - {#c#} + mset (snd (echo_step n ev s)))"
| net_idle: "net_step mx n (s, A) (s, A)"

inductive_cases net_stepE: "net_step mx n (s, A) t"

definition net_init :: "int \<Rightarrow> net_state \<Rightarrow> bool" where
  "net_init l t \<longleftrightarrow> t = ((\<lambda>_. None), {#Arm_Accept l#})"

definition on_fd :: "int \<Rightarrow> cmd multiset \<Rightarrow> cmd multiset" where
  "on_fd fd A = filter_mset (targets fd) A"

fun is_accept :: "cmd \<Rightarrow> bool" where
  "is_accept (Arm_Accept l) = True"
| "is_accept _ = False"

text \<open>
  One request per connection, none without a session; a write in flight covers exactly the unsent
  rest of the message; one accept is always armed.
\<close>

fun fits :: "nat \<Rightarrow> session option \<Rightarrow> cmd \<Rightarrow> bool" where
  "fits n x (Arm_Write fd off len) \<longleftrightarrow> (\<exists>y. x = Some y \<and> off = s_cursor y \<and> off + len = n)"
| "fits n x _ \<longleftrightarrow> x \<noteq> None"

definition session_ok :: "nat \<Rightarrow> session \<Rightarrow> bool" where
  "session_ok n x \<longleftrightarrow> s_cursor x < n \<and> length (s_msg x) = n"

definition fd_ok :: "nat \<Rightarrow> session option \<Rightarrow> cmd multiset \<Rightarrow> bool" where
  "fd_ok n x B \<longleftrightarrow> size B \<le> 1 \<and> (\<forall>c \<in># B. fits n x c) \<and> (\<forall>y. x = Some y \<longrightarrow> session_ok n y)"

definition net_inv :: "int \<Rightarrow> nat \<Rightarrow> net_state \<Rightarrow> bool" where
  "net_inv l n t \<longleftrightarrow> filter_mset is_accept (snd t) = {#Arm_Accept l#} \<and>
     (\<forall>fd. fd_ok n (fst t fd) (on_fd fd (snd t)))"

lemma on_fd_add [simp]: "on_fd fd (A + B) = on_fd fd A + on_fd fd B"
  by (simp add: on_fd_def)

lemma on_fd_add_mset [simp]:
  "on_fd fd (add_mset c A) = (if targets fd c then add_mset c (on_fd fd A) else on_fd fd A)"
  by (simp add: on_fd_def)

lemma on_fd_empty [simp]: "on_fd fd {#} = {#}"
  by (simp add: on_fd_def)

lemma on_fd_minus: "on_fd fd (A - {#c#}) = on_fd fd A - (if targets fd c then {#c#} else {#})"
  by (simp add: on_fd_def)

lemma on_fd_mset: "on_fd fd (mset cs) = mset (filter (targets fd) cs)"
  by (simp add: on_fd_def)

lemma fd_ok_None: "fd_ok n None B \<longleftrightarrow> B = {#}"
proof
  assume "fd_ok n None B"
  then have "c \<notin># B" for c by (cases c) (fastforce simp: fd_ok_def)+
  then show "B = {#}" by (metis multiset_nonemptyE)
qed (simp add: fd_ok_def)

lemma fd_ok_remove: "fd_ok n x B \<Longrightarrow> c \<in># B \<Longrightarrow> B - {#c#} = {#} \<and> fits n x c"
  by (auto simp: fd_ok_def dest!: multi_member_split)

text \<open>An event consumes the request of its descriptor and arms at most one for it.\<close>

lemma about_completes: "completes mx n s c ev \<Longrightarrow> \<not> is_accept c \<Longrightarrow> about fd ev \<longleftrightarrow> targets fd c"
  by (cases c; cases ev) auto

lemma net_inv_step:
  assumes inv: "net_inv l n (s, A)" and n: "0 < n" and c: "c \<in># A" "completes mx n s c ev"
  shows "net_inv l n (fst (echo_step n ev s), A - {#c#} + mset (snd (echo_step n ev s)))"
proof -
  let ?s = "fst (echo_step n ev s)" and ?cs = "snd (echo_step n ev s)"
  have acc: "filter_mset is_accept A = {#Arm_Accept l#}" and ok: "fd_ok n (s fd) (on_fd fd A)" for fd
    using inv by (auto simp: net_inv_def)
  have "filter_mset is_accept (A - {#c#} + mset ?cs) = {#Arm_Accept l#}"
  proof (cases c)
    case (Arm_Accept l')
    then have "c \<in># filter_mset is_accept A" using c(1) by simp
    then have "l' = l" using acc Arm_Accept by simp
    then show ?thesis using Arm_Accept acc c(2) by (cases ev) auto
  next
    case (Arm_Read f)
    then show ?thesis using acc c(2) by (cases ev) (auto simp: Let_def split: option.splits)
  next
    case (Arm_Write f off k)
    then show ?thesis using acc c(2) by (cases ev) (auto simp: Let_def split: option.splits)
  qed
  moreover have "fd_ok n (?s fd) (on_fd fd (A - {#c#} + mset ?cs))" for fd
  proof (cases "about fd ev")
    case False
    have "\<not> targets fd c" using about_completes[OF c(2)] False by (cases c) auto
    then show ?thesis using ok[of fd] echo_step_other[OF False, of n s]
      by (simp add: on_fd_minus on_fd_mset)
  next
    case True
    show ?thesis
    proof (cases "is_accept c")
      case acc_c: True
      then obtain l' where ev: "ev = Accepted l' fd" and new: "s fd = None"
        using True c(2) by (cases c; cases ev) auto
      then have "on_fd fd A = {#}" using ok[of fd] by (simp add: fd_ok_None)
      then show ?thesis using acc_c n ev by (cases c) (auto simp: on_fd_minus on_fd_mset fd_ok_def session_ok_def)
    next
      case False
      then have t: "targets fd c" using about_completes[OF c(2)] True by blast
      then have m: "c \<in># on_fd fd A" using c(1) by (simp add: on_fd_def)
      from fd_ok_remove[OF ok m] have rest: "on_fd fd (A - {#c#}) = {#}" and fit: "fits n (s fd) c"
        using t by (simp_all add: on_fd_minus)
      obtain x where x: "s fd = Some x" using fit by (cases c) auto
      have sx: "session_ok n x" using ok[of fd] x by (simp add: fd_ok_def)
      show ?thesis using True c(2) t x sx n rest fit
        by (cases c; cases ev) (auto simp: on_fd_mset fd_ok_def session_ok_def Let_def on_fd_def)
    qed
  qed
  ultimately show ?thesis by (simp add: net_inv_def)
qed

interpretation net: step_system "net_init l" "net_step mx n" "\<lambda>t. 0 < n \<longrightarrow> net_inv l n t" for l mx n
proof unfold_locales
  fix t
  show "net_init l t \<Longrightarrow> 0 < n \<longrightarrow> net_inv l n t"
    by (simp add: net_init_def net_inv_def on_fd_def fd_ok_def)
next
  fix s t assume a: "0 < n \<longrightarrow> net_inv l n s" "net_step mx n s t"
  obtain x A where s: "s = (x, A)" by (cases s)
  from a(2) show "0 < n \<longrightarrow> net_inv l n t" unfolding s
    by (rule net_stepE) (use a(1) s net_inv_step in auto)
qed

section \<open>The concrete system\<close>

text \<open>
  One worker: its tables, its library state, and the events it has submitted that are not
  completed yet.  A submission is the first half of a round of \<open>run_event_loop\<close> (the \<open>UP_VEC\<close> event
  hands over buffers and is not a request); a completion is one iteration of its second half.
\<close>

record server =
  sv_echo :: echo
  sv_worker :: "echo_fn worker"
  sv_flying :: "echo_fn up_event multiset"

definition is_request :: "echo_fn up_event \<Rightarrow> bool" where
  "is_request e \<longleftrightarrow> ev_type e \<noteq> UP_VEC"

text \<open>A completion is the submitted event with the kernel's result, buffer and length filled in.\<close>

definition completion_of ::
  "echo_env \<Rightarrow> echo \<Rightarrow> echo_fn up_event \<Rightarrow> echo_fn up_event \<Rightarrow> bool" where
  "completion_of env a e e' \<longleftrightarrow> ev_fd e' = ev_fd e \<and> ev_fn e' = ev_fn e \<and> ev_type e' = ev_type e \<and>
     (\<exists>f. ev_fn e = Some f \<and> completes (max_fd a) (msg_size a) (sessions a) (cmd_of e) (meaning env f e') \<and>
        (f = My_Read \<longrightarrow> nat (ev_result e') \<le> length (ee_bytes env (ev_buf e'))))"

inductive srv_step :: "server \<Rightarrow> server \<Rightarrow> bool" where
  srv_submit: "hand_over m (sv_worker s) = Inr w \<Longrightarrow>
    srv_step s (s\<lparr>sv_worker := after_submit [] w,
                  sv_flying := sv_flying s + filter_mset is_request (mset (pending w))\<rparr>)"
| srv_complete: "e \<in># sv_flying s \<Longrightarrow> completion_of env (sv_echo s) e e' \<Longrightarrow> ev_fn e' = Some f \<Longrightarrow>
    echo_dispatch env f e' (sv_echo s, sv_worker s) = Inr (a', w') \<Longrightarrow>
    srv_step s \<lparr>sv_echo = a', sv_worker = w', sv_flying = sv_flying s - {#e#}\<rparr>"

text \<open>After setup and the first submission: no connection, one accept in flight.\<close>

definition srv_init :: "int \<Rightarrow> int \<Rightarrow> nat \<Rightarrow> server \<Rightarrow> bool" where
  "srv_init l mx n s \<longleftrightarrow> echo_inv (sv_echo s, sv_worker s) \<and> (\<forall>fd. conns (sv_echo s) fd = None) \<and>
     max_fd (sv_echo s) = mx \<and> msg_size (sv_echo s) = n \<and> pending (sv_worker s) = [] \<and>
     (\<exists>e. sv_flying s = {#e#} \<and> describes e (Accept l (Some My_Accept)))"

definition abs_net :: "server \<Rightarrow> net_state" where
  "abs_net s = (sessions (sv_echo s), image_mset cmd_of (sv_flying s + mset (pending (sv_worker s))))"

text \<open>A request has the callback of its kind.\<close>

definition proper :: "echo_fn up_event \<Rightarrow> bool" where
  "proper e \<longleftrightarrow> (ev_type e, ev_fn e) \<in>
     {(UP_READ, Some My_Read), (UP_WRITE, Some My_Write), (UP_ACCEPT, Some My_Accept)}"

definition srv_inv :: "int \<Rightarrow> int \<Rightarrow> nat \<Rightarrow> server \<Rightarrow> bool" where
  "srv_inv l mx n s \<longleftrightarrow> echo_inv (sv_echo s, sv_worker s) \<and> max_fd (sv_echo s) = mx \<and>
     msg_size (sv_echo s) = n \<and> (\<forall>e \<in># sv_flying s + mset (pending (sv_worker s)). proper e) \<and>
     net_inv l n (abs_net s)"

lemma asks_proper: "asks a e c \<Longrightarrow> proper e"
  by (cases c) (auto simp: proper_def)

lemma list_all2_proper: "list_all2 (asks a) es cs \<Longrightarrow> \<forall>x \<in> set es. proper x"
  by (induction rule: list_all2_induct) (auto dest: asks_proper)

lemma completion_expected:
  assumes inv: "srv_inv l mx n s" and e: "e \<in># sv_flying s" and c: "completion_of env (sv_echo s) e e'"
  shows "\<exists>f. ev_fn e' = Some f \<and> expects env (sv_echo s, sv_worker s) e' \<and>
    completes (max_fd (sv_echo s)) (msg_size (sv_echo s)) (sessions (sv_echo s)) (cmd_of e) (meaning env f e')"
proof -
  let ?a = "sv_echo s"
  obtain f where f: "ev_fn e = Some f" "ev_fn e' = Some f" "ev_fd e' = ev_fd e" and
    cp: "completes (max_fd ?a) (msg_size ?a) (sessions ?a) (cmd_of e) (meaning env f e')" and
    rd: "f = My_Read \<longrightarrow> nat (ev_result e') \<le> length (ee_bytes env (ev_buf e'))"
    using c by (auto simp: completion_of_def)
  have pr: "proper e" using inv e by (auto simp: srv_inv_def)
  have ei: "echo_inv (?a, sv_worker s)" using inv by (simp add: srv_inv_def)
  have none: "sessions ?a fd = None \<longleftrightarrow> conns ?a fd = None" for fd by (simp add: sessions_def)
  have fd_ok: "fd_ok n (sessions ?a fd) (on_fd fd (snd (abs_net s)))" for fd
    using inv by (simp add: srv_inv_def net_inv_def abs_net_def)
  have op: "conns ?a (ev_fd e) \<noteq> None" if "targets (ev_fd e) (cmd_of e)"
  proof -
    have "cmd_of e \<in># on_fd (ev_fd e) (snd (abs_net s))" using e that by (simp add: abs_net_def on_fd_def)
    then have "on_fd (ev_fd e) (snd (abs_net s)) \<noteq> {#}" by auto
    then show ?thesis using fd_ok[of "ev_fd e"] none[of "ev_fd e"] by (auto simp: fd_ok_None)
  qed
  have "expects env (?a, sv_worker s) e'"
  proof (cases f)
    case My_Accept
    then have "cmd_of e = Arm_Accept (ev_fd e)" using pr f by (auto simp: proper_def cmd_of_def)
    then show ?thesis using My_Accept cp f none by (auto simp: expects_def meaning_def split: if_splits)
  next
    case My_Write
    then have "targets (ev_fd e) (cmd_of e)" using pr f by (auto simp: proper_def cmd_of_def)
    then show ?thesis using op My_Write f by (simp add: expects_def)
  next
    case My_Read
    then have cm: "cmd_of e = Arm_Read (ev_fd e)" using pr f by (auto simp: proper_def cmd_of_def)
    then obtain k where k: "conns ?a (ev_fd e) = Some k" using op by auto
    have kk: "conns (fst (?a, sv_worker s)) (ev_fd e) = Some k" using k by simp
    obtain b where ss: "sessions ?a (ev_fd e) = Some \<lparr>s_cursor = cn_cursor (conn ?a k), s_msg = msg ?a b\<rparr>"
      using open_session[OF ei kk] by auto
    have "cn_cursor (conn ?a k) < msg_size ?a"
      using open_in_range[of ?a "ev_fd e" k] k ei by (auto simp: echo_inv_def)
    then have "cn_cursor (conn ?a k) + nat (ev_result e') \<le> msg_size ?a"
      using cp rd My_Read cm ss f by (auto simp: meaning_def split: if_splits)
    then show ?thesis using My_Read f k rd by (simp add: expects_def)
  qed
  then show ?thesis using f cp by blast
qed

lemma hand_over_keeps:
  assumes "echo_inv (a, w)" "hand_over m w = Inr w'"
  shows "echo_inv (a, after_submit [] w') \<and> pending (after_submit [] w') = [] \<and>
    filter_mset is_request (mset (pending w')) = mset (pending w)"
proof -
  have h: "handler_ready w" using assms(1) by (simp add: echo_inv_def)
  have "worker_wf w' \<and> 0 < buf_max w'"
    using hand_over_Inr[OF handler_ready_loop_ready[OF h] assms(2)] by blast
  moreover have nv: "filter_mset is_request (mset (pending w)) = mset (pending w)"
    using h by (simp add: handler_ready_def no_vec_def is_request_def filter_mset_eq_conv)
  have "filter_mset is_request (mset (pending w')) = mset (pending w)"
  proof (cases "buf_cnt w > 0")
    case True
    then show ?thesis
      using add_buffers_Inr[of w m "Ptr (buffers_at w) 0" "buf_cnt w" w'] assms(2) h nv
      by (simp add: hand_over_def handler_ready_def is_request_def)
  next
    case False
    then show ?thesis using assms(2) nv by (simp add: hand_over_def)
  qed
  moreover have "pending (after_submit [] w') = []" by (simp add: after_submit_def pending_def)
  ultimately show ?thesis using assms(1)
    by (simp add: echo_inv_def handler_ready_def no_vec_def worker_wf_def after_submit_def)
qed

text \<open>Every step of the server is a step of the abstract system, and keeps the invariant.\<close>

lemma srv_step_simulates:
  assumes inv: "srv_inv l mx n s" and st: "srv_step s t"
  shows "srv_inv l mx n t \<and> net_step mx n (abs_net s) (abs_net t)"
  using st
proof cases
  case (srv_submit m w)
  have ei: "echo_inv (sv_echo s, sv_worker s)" using inv by (simp add: srv_inv_def)
  note h = hand_over_keeps[OF ei srv_submit(2)]
  have "abs_net t = abs_net s" using h by (simp add: srv_submit(1) abs_net_def)
  then show ?thesis using inv h by (auto simp: srv_inv_def srv_submit(1) abs_net_def intro: net_idle)
next
  case (srv_complete e env e' f a' w')
  let ?a = "sv_echo s" and ?w = "sv_worker s"
  have ei: "echo_inv (?a, ?w)" and n: "0 < n" "msg_size ?a = n" "max_fd ?a = mx"
    using inv by (auto simp: srv_inv_def echo_inv_def)
  from completion_expected[OF inv srv_complete(2,3)] srv_complete(4)
  have ex: "expects env (?a, ?w) e'" and
    cp: "completes mx n (sessions ?a) (cmd_of e) (meaning env f e')" by (auto simp: n)
  from echo_dispatch_implements[OF ei ex srv_complete(4,5)] obtain es where
    im: "echo_inv (a', w')" "same_config ?a a'" "pending w' = pending ?w @ es"
    "sessions a' = fst (echo_step n (meaning env f e') (sessions ?a))"
    "list_all2 (asks a') es (snd (echo_step n (meaning env f e') (sessions ?a)))"
    by (auto simp: implements_def n)
  let ?A = "image_mset cmd_of (sv_flying s + mset (pending ?w))"
  have "image_mset cmd_of (sv_flying s - {#e#} + mset (pending w')) =
      ?A - {#cmd_of e#} + mset (snd (echo_step n (meaning env f e') (sessions ?a)))"
  proof -
    have "map cmd_of es = snd (echo_step n (meaning env f e') (sessions ?a))" by (rule list_all2_asks[OF im(5)])
    then have "image_mset cmd_of (mset es) = mset (snd (echo_step n (meaning env f e') (sessions ?a)))"
      by (metis mset_map)
    moreover obtain K where "sv_flying s = add_mset e K" using srv_complete(2) by (blast dest: multi_member_split)
    ultimately show ?thesis using im(3) by simp
  qed
  then have abs: "abs_net s = (sessions ?a, ?A)"
    "abs_net t = (fst (echo_step n (meaning env f e') (sessions ?a)),
       ?A - {#cmd_of e#} + mset (snd (echo_step n (meaning env f e') (sessions ?a))))"
    using im(4) by (simp_all add: abs_net_def srv_complete(1))
  have mem: "cmd_of e \<in># ?A" using srv_complete(2) by simp
  have "net_step mx n (abs_net s) (abs_net t)" unfolding abs by (rule net_complete[OF mem cp])
  moreover have "net_inv l n (abs_net t)"
    using net_inv_step[OF _ n(1) mem cp] inv unfolding abs by (simp add: srv_inv_def abs)
  moreover have "\<forall>x \<in># sv_flying t + mset (pending (sv_worker t)). proper x"
  proof -
    have "\<forall>x \<in> set es. proper x" by (rule list_all2_proper[OF im(5)])
    then show ?thesis using inv by (auto simp: srv_inv_def srv_complete(1) im(3) dest: in_diffD)
  qed
  ultimately show ?thesis using im(1,2) n by (simp add: srv_inv_def srv_complete(1) same_config_def)
qed

lemma srv_init_inv: "srv_init l mx n s \<Longrightarrow> srv_inv l mx n s \<and> net_init l (abs_net s)"
proof -
  assume i: "srv_init l mx n s"
  then have "sessions (sv_echo s) = (\<lambda>_. None)"
    by (simp add: srv_init_def fun_eq_iff sessions_def view_def)
  then show ?thesis using i
    by (auto simp: srv_init_def srv_inv_def abs_net_def net_init_def proper_def cmd_of_def net_inv_def fd_ok_def)
qed

interpretation srv: step_system "srv_init l mx n" srv_step "srv_inv l mx n" for l mx n
  by unfold_locales (use srv_init_inv srv_step_simulates in blast)+

lemma reach_abs: "reach (srv_init l mx n) srv_step s \<Longrightarrow> reach (net_init l) (net_step mx n) (abs_net s)"
proof (induction rule: reach.induct)
  case (reach_init s)
  then show ?case using srv_init_inv by (blast intro: reach.reach_init)
next
  case (reach_step s t)
  then show ?case using srv.reach_inv[OF reach_step(1)] srv_step_simulates by (blast intro: reach.reach_step)
qed

section \<open>Start-up of a worker\<close>

text \<open>
  \<open>upcall_echo_setup\<close>: the worker's record and caches, its listening socket, the first accept,
  and the counters.  \<open>nr\<close> is the length of \<open>threads\<close>.
\<close>

definition upcall_echo_setup ::
  "setup_env \<Rightarrow> echo_fn mem_env \<Rightarrow> int \<Rightarrow> nat \<Rightarrow> (nat \<Rightarrow> nat) \<Rightarrow> nat \<Rightarrow> nat \<Rightarrow> echo_fn worker \<Rightarrow>
   (echo \<times> worker_io \<times> echo_fn worker) res" where
  "upcall_echo_setup su m mx sz at nr worker_id w =
     (if \<not> su_calloc_me su then Inl (Exit 1)
      else
        rbind (init_cache_or_exit (su_msg_header su) (su_msg_entry su) (replicate sz 0) 1024) (\<lambda>mc.
        rbind (init_cache_or_exit (su_conn_header su) (su_conn_entry su) zero_connection 1024) (\<lambda>cc.
        if \<not> worker_id < nr then Inl (Fault OutOfBounds)
        else
          rbind (open_listener (su_sock su)) (\<lambda>l.
          rbind (add_accept m l (Some My_Accept) w) (\<lambda>w'.
          rbind (setup_perf (su_perf su) worker_id) (\<lambda>p.
            Inr (fresh_echo mx sz at worker_id cc mc, \<lparr>io_listen = l, io_perf = p\<rparr>, w')))))))"

text \<open>The state the first submission of a worker leaves.\<close>

definition started :: "echo \<Rightarrow> echo_fn worker \<Rightarrow> server" where
  "started a w = \<lparr>sv_echo = a, sv_worker = after_submit [] w,
                  sv_flying = filter_mset is_request (mset (pending w))\<rparr>"

lemma started_init:
  assumes "upcall_worker_setup m n bsz = Inr w0" "0 < n" "n < 2 ^ 31" "0 < sz"
    and s: "upcall_echo_setup su m mx sz at nr i w0 = Inr (a, io, w)"
  shows "srv_init (io_listen io) mx sz (started a w) \<and> vecs w = vecs w0 \<and> buf_cnt w = 0"
proof -
  note u = upcall_worker_setup_Inr[OF assms(1,3)]
  from s obtain mc cc l p where
    c: "init_cache_or_exit (su_msg_header su) (su_msg_entry su) (replicate sz 0) 1024 = Inr mc"
       "init_cache_or_exit (su_conn_header su) (su_conn_entry su) zero_connection 1024 = Inr cc"
    and l: "add_accept m l (Some My_Accept) w0 = Inr w"
    and a: "a = fresh_echo mx sz at i cc mc" "io = \<lparr>io_listen = l, io_perf = p\<rparr>"
    by (auto simp: upcall_echo_setup_def rbind_eq_Inr_iff split: if_splits)
  have wf: "echo_wf a \<and> buffered a"
    unfolding a by (rule fresh_echo_wf) (use init_cache_or_exit_Inr[OF c(1)] init_cache_or_exit_Inr[OF c(2)] in auto)
  from add_request_Inr[OF _ l[unfolded add_accept_request]] u obtain e where
    e: "worker_wf w" "pending w = pending w0 @ [e]" "describes e (Accept l (Some My_Accept))" "same_pool w0 w"
    by auto
  have mx: "0 < buf_max w" using e(4) u assms(2) by (simp add: same_pool_def)
  have fly: "filter_mset is_request (mset (pending w)) = {#e#}"
    using u e(2,3) by (simp add: is_request_def)
  have "pending (after_submit [] w) = []" by (simp add: after_submit_def pending_def)
  moreover have "handler_ready (after_submit [] w)"
    using e(1) mx calculation by (simp add: handler_ready_def no_vec_def worker_wf_def after_submit_def)
  ultimately have "srv_init (io_listen io) mx sz (started a w)"
    using wf e(3) assms(4) fly by (auto simp: srv_init_def started_def echo_inv_def a fresh_echo_def)
  moreover have "vecs w = vecs w0"
    using e u by (simp add: vecs_def vec_of_def same_pool_def)
  moreover have "buf_cnt w0 = 0"
    using assms(1) assms(3) u by (auto simp: pool_def) (use assms(2) u in \<open>auto simp: worker_wf_def\<close>)
  ultimately show ?thesis using e(4) by (simp add: same_pool_def)
qed

section \<open>Concrete data for the witnesses\<close>

text \<open>A server with one open connection (descriptor 5, messages of four bytes), and its events.\<close>

definition demo_cache :: "'d \<Rightarrow> 'd \<Rightarrow> nat \<Rightarrow> 'd buffer_cache" where
  "demo_cache z d n = \<lparr>head = None, tail = None, entry_zero = z,
     nodes = (\<lambda>_. \<lparr>be_next = None, be_alloc_cpu = 0, be_data = d\<rparr>), brk = n\<rparr>"

definition demo_conn :: connection where
  "demo_conn = zero_connection\<lparr>cn_fd := 5, cn_buffer := Some 0\<rparr>"

definition demo_echo :: echo where
  "demo_echo = (fresh_echo 64 4 (\<lambda>b. 1000 + b) 0 (demo_cache zero_connection demo_conn 1)
                  (demo_cache (replicate 4 0) [1, 2, 3, 4] 1))\<lparr>conns := (\<lambda>_. None)(5 := Some 0)\<rparr>"

definition demo_worker :: "echo_fn worker" where
  "demo_worker = \<lparr>work = replicate 4 zero_event, work_cnt = 0, work_max = 4,
     receive = replicate 4 zero_event, recv_cnt = 4,
     buffers = replicate 4 zero_iovec, buffers_at = 7, buf_cnt = 0, buf_max = 4\<rparr>"

definition demo_env :: echo_env where
  "demo_env = \<lparr>ee_mem = roomy, ee_conn_calloc = (\<lambda>_. True), ee_msg_calloc = (\<lambda>_. True),
     ee_bytes = (\<lambda>p. if p = Ptr 100 0 then [7, 8] else [9, 10])\<rparr>"

definition demo_read :: "nat \<Rightarrow> echo_fn up_event" where
  "demo_read b = zero_event\<lparr>ev_fd := 5, ev_result := 2, ev_buf := Ptr b 0, ev_len := 2, ev_fn := Some My_Read\<rparr>"

definition demo_write :: "int \<Rightarrow> echo_fn up_event" where
  "demo_write r = zero_event\<lparr>ev_fd := 5, ev_result := r, ev_fn := Some My_Write, ev_type := UP_WRITE\<rparr>"

definition demo_batch :: "echo_fn up_event list" where
  "demo_batch = [demo_read 100, demo_read 101, demo_write 3, demo_write 1]"


lemma demo_inv: "echo_inv (demo_echo, demo_worker)"
  by (simp add: echo_inv_def echo_wf_def conn_wf_def buffered_def demo_echo_def fresh_echo_def demo_cache_def
      cache_ok_def cache_inv_def free_list_def in_use_def conn_def msg_def payload_def demo_conn_def zero_connection_def
      handler_ready_def worker_wf_def no_vec_def pending_def demo_worker_def)

lemma demo_granted: "mem_granted demo_env"
  by (simp add: mem_granted_def demo_env_def)

lemma demo_expected: "all_expected (expects demo_env) (echo_dispatch demo_env) demo_batch (demo_echo, demo_worker)"
  by code_simp

lemma demo_runs: "\<exists>s'. dispatch_all (echo_dispatch demo_env) demo_batch (demo_echo, demo_worker) = Inr s'"
proof -
  have "ok (dispatch_all (echo_dispatch demo_env) demo_batch (demo_echo, demo_worker))" by code_simp
  then show ?thesis by (cases "dispatch_all (echo_dispatch demo_env) demo_batch (demo_echo, demo_worker)") auto
qed

text \<open>The same server before its first connection, with an accept in flight on descriptor 3.\<close>

definition demo_accept :: "echo_fn up_event" where
  "demo_accept = zero_event\<lparr>ev_fd := 3, ev_fn := Some My_Accept, ev_type := UP_ACCEPT\<rparr>"

definition demo_empty :: echo where
  "demo_empty = demo_echo\<lparr>conns := (\<lambda>_. None)\<rparr>"

definition demo_start :: server where
  "demo_start = \<lparr>sv_echo = demo_empty, sv_worker = demo_worker, sv_flying = {#demo_accept#}\<rparr>"

lemma demo_start_init: "srv_init 3 64 4 demo_start"
proof -
  have "echo_wf demo_empty"
    using demo_inv by (simp add: echo_inv_def echo_wf_def demo_empty_def)
  then show ?thesis using demo_inv
    by (auto simp: srv_init_def demo_start_def echo_inv_def buffered_def demo_accept_def zero_event_def demo_empty_def
        demo_echo_def fresh_echo_def pending_def demo_worker_def)
qed

lemma demo_start_reach: "reach (srv_init 3 64 4) srv_step demo_start"
  by (rule reach_init[of "srv_init 3 64 4", OF demo_start_init])

lemma demo_empty_sessions: "sessions demo_empty = (\<lambda>_. None)"
  by (simp add: fun_eq_iff sessions_def view_def demo_empty_def)

text \<open>Accepting descriptor 5, and submitting what the callback queued: a read of 5 is in flight.\<close>

lemma demo_reading:
  "\<exists>s r. reach (srv_init 3 64 4) srv_step s \<and> r \<in># sv_flying s \<and> describes r (Read 5 (Some My_Read))"
proof -
  let ?e = "demo_accept\<lparr>ev_result := 5\<rparr>"
  have c: "completion_of demo_env (sv_echo demo_start) demo_accept ?e"
    by (simp add: completion_of_def demo_start_def demo_accept_def zero_event_def cmd_of_def meaning_def
        demo_empty_sessions) (simp add: demo_empty_def demo_echo_def fresh_echo_def)
  have "ok (echo_dispatch demo_env My_Accept ?e (sv_echo demo_start, sv_worker demo_start))" by code_simp
  then obtain a w where r: "echo_dispatch demo_env My_Accept ?e (sv_echo demo_start, sv_worker demo_start) = Inr (a, w)"
    by (cases "echo_dispatch demo_env My_Accept ?e (sv_echo demo_start, sv_worker demo_start)") auto
  have fe: "ev_fn ?e = Some My_Accept" "demo_accept \<in># sv_flying demo_start"
    by (simp_all add: demo_accept_def demo_start_def)
  let ?s1 = "\<lparr>sv_echo = a, sv_worker = w, sv_flying = sv_flying demo_start - {#demo_accept#}\<rparr>"
  have r1: "reach (srv_init 3 64 4) srv_step ?s1"
    by (rule reach_step[OF demo_start_reach srv_complete[OF fe(2) c fe(1) r]])
  have inv: "srv_inv 3 64 4 demo_start" by (rule srv.reach_inv[OF demo_start_reach])
  then have ei: "echo_inv (sv_echo demo_start, sv_worker demo_start)" by (simp add: srv_inv_def)
  from completion_expected[OF inv fe(2) c] fe(1)
  have "expects demo_env (sv_echo demo_start, sv_worker demo_start) ?e" by auto
  from echo_dispatch_implements[OF ei this fe(1) r] obtain es where
    im: "echo_inv (a, w)" "pending w = es" "pool w = []"
    "list_all2 (asks a) es [Arm_Read 5, Arm_Accept 3]"
    by (auto simp: implements_def meaning_def demo_start_def demo_accept_def zero_event_def demo_worker_def pending_def
        pool_def)
  then obtain x y where "es = [x, y]" "describes x (Read 5 (Some My_Read))"
    by (auto simp: list_all2_Cons2)
  then have x: "x \<in> set (pending w)" "describes x (Read 5 (Some My_Read))" using im(2) by simp_all
  have "buf_cnt w = 0" using im(1,3) by (auto simp: echo_inv_def handler_ready_def pool_def worker_wf_def)
  then have h: "hand_over roomy (sv_worker ?s1) = Inr w" by (simp add: hand_over_def)
  have "srv_step ?s1 (?s1\<lparr>sv_worker := after_submit [] w,
      sv_flying := sv_flying ?s1 + filter_mset is_request (mset (pending w))\<rparr>)"
    by (rule srv_submit[OF h])
  from reach_step[OF r1 this] x show ?thesis
    by (intro exI conjI) (auto simp: is_request_def)
qed

section \<open>Properties\<close>





text \<open>
  Connections do not disturb each other: over any batch of expected completions none of which is
  about a descriptor, the session at that descriptor stays as it was, and no request for it is
  queued.
\<close>

theorem connections_isolated:
  assumes "echo_inv s" and "all_expected (expects env) (echo_dispatch env) es s"
    and "dispatch_all (echo_dispatch env) es s = Inr s'"
    and "\<forall>ev \<in> set (meanings env es). \<not> about fd ev"
  shows "sessions (fst s') fd = sessions (fst s) fd \<and>
    filter (targets fd) (map cmd_of (pending (snd s'))) = filter (targets fd) (map cmd_of (pending (snd s)))"
proof -
  have "filter (about fd) (meanings env es) = []" using assms(4) by (simp add: filter_empty_conv)
  then show ?thesis
    using dispatch_all_implements[OF assms(1-3)]
      echo_steps_local[of "msg_size (fst s)" "meanings env es" "sessions (fst s)" fd] by simp
qed

theorem connections_isolated_witness:
  "\<exists>s'. dispatch_all (echo_dispatch demo_env) demo_batch (demo_echo, demo_worker) = Inr s' \<and>
     sessions (fst s') 6 = sessions demo_echo 6"
proof -
  obtain s' where s': "dispatch_all (echo_dispatch demo_env) demo_batch (demo_echo, demo_worker) = Inr s'"
    using demo_runs by blast
  have "\<forall>ev \<in> set (meanings demo_env demo_batch). \<not> about 6 ev" by code_simp
  from connections_isolated[OF demo_inv demo_expected s' this] s' show ?thesis by simp
qed

text \<open>
  C6: In every state the server can reach from its start, whatever the order of submissions and
  completions: a connection has at most one read or write queued or in flight, a closed descriptor
  has none, a write covers exactly the unsent rest of its message, and exactly one accept is armed
  on the listening socket.
\<close>

theorem one_request_in_flight:
  assumes "reach (srv_init l mx n) srv_step s"
  shows "let A = image_mset cmd_of (sv_flying s + mset (pending (sv_worker s))) in
    (\<forall>fd. size (on_fd fd A) \<le> 1 \<and> (conns (sv_echo s) fd = None \<longrightarrow> on_fd fd A = {#})) \<and>
    (\<forall>fd off len. Arm_Write fd off len \<in># A \<longrightarrow>
       (\<exists>x. sessions (sv_echo s) fd = Some x \<and> off = s_cursor x \<and> off + len = n)) \<and>
    filter_mset is_accept A = {#Arm_Accept l#}"
proof -
  have i: "net_inv l n (abs_net s)" using srv.reach_inv[OF assms] by (simp add: srv_inv_def)
  define A where "A = image_mset cmd_of (sv_flying s + mset (pending (sv_worker s)))"
  have ok: "fd_ok n (sessions (sv_echo s) fd) (on_fd fd A)" and acc: "filter_mset is_accept A = {#Arm_Accept l#}" for fd
    using i by (simp_all add: net_inv_def abs_net_def A_def)
  have "on_fd fd A = {#}" if "conns (sv_echo s) fd = None" for fd
  proof -
    have "sessions (sv_echo s) fd = None" using that by (simp add: sessions_def view_def)
    then show ?thesis using ok[of fd] by (simp add: fd_ok_None)
  qed
  moreover have "\<exists>x. sessions (sv_echo s) fd = Some x \<and> off = s_cursor x \<and> off + len = n"
    if "Arm_Write fd off len \<in># A" for fd off len
  proof -
    have "Arm_Write fd off len \<in># on_fd fd A" using that by (simp add: on_fd_def)
    then show ?thesis using ok[of fd] by (fastforce simp: fd_ok_def)
  qed
  moreover have "size (on_fd fd A) \<le> 1" for fd using ok[of fd] by (simp add: fd_ok_def)
  ultimately show ?thesis using acc unfolding A_def[symmetric] Let_def by blast
qed

theorem one_request_in_flight_witness:
  "filter_mset is_accept (image_mset cmd_of (sv_flying demo_start + mset (pending (sv_worker demo_start)))) =
     {#Arm_Accept 3#}"
  using one_request_in_flight[OF demo_start_reach] by (simp add: Let_def)



text \<open>
  C35: A worker that \<open>upcall_worker_setup\<close> and \<open>upcall_echo_setup\<close> have set up is, after its first
  submission, in the initial state of the system: no connection, exactly one request in flight, the
  accept on its bound and listening socket, and every pool buffer with the kernel.
\<close>

theorem setup_reaches_initial_state:
  assumes "upcall_worker_setup m n bsz = Inr w0" and "0 < n" and "n < 2 ^ 31" and "0 < sz"
    and "upcall_echo_setup su m mx sz at nr i w0 = Inr (a, io, w)"
  shows "reach (srv_init (io_listen io) mx sz) srv_step (started a w) \<and>
    vecs w = map (\<lambda>i. \<lparr>iov_base = Ptr (mem_bufs m i) 0, iov_len = bsz\<rparr>) [0..<n] \<and>
    io_listen io = sk_socket (su_sock su) \<and> sk_bind (su_sock su) = 0 \<and> sk_listen (su_sock su) = 0 \<and>
    length (io_perf io) = TOTAL_EVENTS"
proof -
  note u = upcall_worker_setup_Inr[OF assms(1,3)]
  note s = started_init[OF assms]
  have "vecs w0 = map (\<lambda>i. \<lparr>iov_base = Ptr (mem_bufs m i) 0, iov_len = bsz\<rparr>) [0..<n]"
    using u by (simp add: vecs_def vec_of_def)
  moreover have "open_listener (su_sock su) = Inr (io_listen io)" and p: "setup_perf (su_perf su) i = Inr (io_perf io)"
    using assms(5) by (auto simp: upcall_echo_setup_def rbind_eq_Inr_iff split: if_splits)
  moreover have "length (io_perf io) = TOTAL_EVENTS"
  proof -
    from p obtain qs fd where "open_group (su_perf su) i fd (tl perf_attrs) = Inr qs" "io_perf io = (fd, snd (su_perf su) fd) # qs"
      by (auto simp: setup_perf_def Let_def rbind_eq_Inr_iff split: if_splits)
    moreover have "map fst qs = map (\<lambda>pe. fst (su_perf su) pe 0 i fd) (tl perf_attrs)"
      using open_group_Inr[OF calculation(1)] by blast
    then have "length qs = length (tl perf_attrs)" by (metis length_map)
    ultimately show ?thesis by (simp add: perf_attrs_def TOTAL_EVENTS_def)
  qed
  ultimately show ?thesis using s reach_init by (auto simp: open_listener_Inr)
qed

definition demo_setup :: setup_env where
  "demo_setup = \<lparr>su_calloc_me = True, su_msg_header = True, su_msg_entry = (\<lambda>_. True),
     su_conn_header = True, su_conn_entry = (\<lambda>_. True),
     su_sock = \<lparr>sk_socket = 3, sk_reuseport = 0, sk_reuseaddr = 0, sk_bind = 0, sk_listen = 0\<rparr>,
     su_perf = (\<lambda>pe pid cpu g. 11, \<lambda>fd. 100 + fd)\<rparr>"

lemma demo_setup_runs:
  assumes "worker_wf w" "work_max w \<le> 8"
  shows "\<exists>r. upcall_echo_setup demo_setup roomy 64 4 (\<lambda>b. 1000 + b) 1 0 w = Inr r"
proof -
  obtain mc where mc: "init_cache_or_exit True (\<lambda>_. True) (replicate 4 (0 :: byte)) 1024 = Inr mc"
    using init_cache_granted[of "replicate 4 (0 :: byte)" 1024] by blast
  obtain cc where cc: "init_cache_or_exit True (\<lambda>_. True) zero_connection 1024 = Inr cc"
    using init_cache_granted[of zero_connection 1024] by blast
  have "int (work_max w + EVTS) \<le> INT_MAX" using assms(2) by (simp add: EVTS_def INT_MAX_def)
  moreover have "mem_ok (roomy :: echo_fn mem_env) = (\<lambda>_. True)" by (simp add: roomy_def)
  ultimately obtain w' where w': "add_accept roomy 3 (Some My_Accept) w = Inr w'"
    using add_request_ok[OF assms(1), of roomy "Accept 3 (Some My_Accept)"] unfolding add_accept_request by blast
  have "open_listener (su_sock demo_setup) = Inr 3" by (simp add: open_listener_def demo_setup_def)
  moreover have "\<exists>p. setup_perf (su_perf demo_setup) 0 = Inr p"
    by (simp add: setup_perf_def perf_attrs_def demo_setup_def Let_def)
  then obtain p where "setup_perf (su_perf demo_setup) 0 = Inr p" by blast
  ultimately show ?thesis using mc cc w' by (simp add: upcall_echo_setup_def demo_setup_def)
qed

lemma demo_setup_from_scratch:
  "\<exists>w0 a io w. upcall_worker_setup roomy 2 4 = Inr w0 \<and>
     upcall_echo_setup demo_setup roomy 64 4 (\<lambda>b. 1000 + b) 1 0 w0 = Inr (a, io, w)"
proof -
  have "int_of_size 2 = 2" by (simp add: int_of_size_id)
  then have "\<exists>w. upcall_worker_setup (roomy :: echo_fn mem_env) 2 4 = Inr w \<and> work_max w \<le> 8"
    by (simp add: upcall_worker_setup_def fill_pool.simps roomy_def add_buffers_def next_slot_def
        fill_slot_def Let_def)
  then obtain w0 where w0: "upcall_worker_setup (roomy :: echo_fn mem_env) 2 4 = Inr w0" "work_max w0 \<le> 8" by blast
  have "worker_wf w0" using upcall_worker_setup_Inr[OF w0(1)] by simp
  from demo_setup_runs[OF this w0(2)] w0(1) show ?thesis by (metis prod_cases3)
qed

theorem setup_reaches_initial_state_witness:
  "\<exists>w0 a io w. upcall_worker_setup roomy 2 4 = Inr w0 \<and>
     upcall_echo_setup demo_setup roomy 64 4 (\<lambda>b. 1000 + b) 1 0 w0 = Inr (a, io, w) \<and>
     reach (srv_init (io_listen io) 64 4) srv_step (started a w) \<and> length (vecs w) = 2"
proof -
  from demo_setup_from_scratch obtain w0 a io w where s: "upcall_worker_setup roomy 2 4 = Inr w0"
    "upcall_echo_setup demo_setup roomy 64 4 (\<lambda>b. 1000 + b) 1 0 w0 = Inr (a, io, w)" by blast
  from setup_reaches_initial_state[OF s(1) _ _ _ s(2)] s show ?thesis by auto
qed

text \<open>
  C37: The copy in \<open>my_read\<close> has no bound: on an open connection, a completion that brings more
  bytes than are left of the message writes behind the message buffer.
\<close>

theorem overlong_read_overflows:
  assumes "echo_inv s" and "conns (fst s) (ev_fd e) = Some c" and "0 < ev_result e"
    and "msg_size (fst s) < cn_cursor (conn (fst s) c) + nat (ev_result e)"
  shows "my_read env e s = Inl (Fault OutOfBounds)"
proof -
  note i = echo_invD[OF assms(1)]
  obtain b where b: "cn_buffer (conn (fst s) c) = Some b" "length (msg (fst s) b) = msg_size (fst s)"
    by (rule open_session[OF assms(1,2)])
  have sl: "conn_slot (fst s) (ev_fd e) = Inr (Some c)" by (rule conn_slot_open[OF i(1) assms(2)])
  have "cn_fd (conn (fst s) c) = ev_fd e" "0 \<le> ev_fd e" using open_in_range[OF i(1) assms(2)] by auto
  then show ?thesis using assms(3,4) sl b
    by (simp add: my_read_def deref_def Let_def copy_in_def store_msg_def conn_upd_conn)
qed

theorem overlong_read_overflows_witness:
  "my_read demo_env ((demo_read 100)\<lparr>ev_result := 5\<rparr>) (demo_echo, demo_worker) = Inl (Fault OutOfBounds)"
  by (rule overlong_read_overflows[OF demo_inv, where c = 0])
     (simp_all add: demo_read_def demo_echo_def fresh_echo_def zero_event_def conn_def payload_def demo_cache_def
        demo_conn_def zero_connection_def)

definition stuck :: "int \<Rightarrow> net_state \<Rightarrow> bool" where
  "stuck fd t \<longleftrightarrow> fst t fd \<noteq> None \<and> on_fd fd (snd t) = {#}"

lemma stuck_step:
  assumes "stuck fd s" "net_step mx n s t" shows "stuck fd t"
proof -
  from assms(2) show ?thesis
  proof cases
    case (net_complete c A x ev)
    note s = net_complete(1) and t = net_complete(2) and c = net_complete(3,4)
    have "\<not> about fd ev"
    proof
      assume ab: "about fd ev"
      show False
      proof (cases "is_accept c")
        case True
        then show False using ab c(2) assms(1) s by (cases c; cases ev) (auto simp: stuck_def)
      next
        case False
        then have "targets fd c" using about_completes[OF c(2)] ab by blast
        then have "c \<in># on_fd fd A" using c(1) by (simp add: on_fd_def)
        then show False using assms(1) s by (simp add: stuck_def)
      qed
    qed
    then show ?thesis using assms(1) s t echo_step_other[of fd ev n x]
      by (auto simp: stuck_def on_fd_minus on_fd_mset)
  qed (use assms(1) in simp)
qed

interpretation stuck: step_system "stuck fd" "net_step mx n" "stuck fd" for fd mx n
  by unfold_locales (blast intro: stuck_step)+

lemma later_abs:
  assumes "srv_inv l mx n s"
  shows "reach (\<lambda>x. x = s) srv_step t \<Longrightarrow> srv_inv l mx n t \<and> reach (\<lambda>x. x = abs_net s) (net_step mx n) (abs_net t)"
proof (induction rule: reach.induct)
  case (reach_init t)
  then show ?case using assms by (auto intro: reach.reach_init)
next
  case (reach_step t u)
  then show ?case using srv_step_simulates[of l mx n t u] by (blast intro: reach.reach_step)
qed

text \<open>
  C36: A connection on which a read or a write failed is stranded: the callback neither closes it nor
  arms a request for it, and in every state reached later the table still holds it and nothing is
  queued or in flight for it.
\<close>

theorem failed_io_strands_connection:
  assumes "reach (srv_init l mx n) srv_step s" and "e \<in># sv_flying s"
    and "completion_of env (sv_echo s) e e'" and "ev_fn e' = Some f" and "f \<noteq> My_Accept" and "ev_result e' < 0"
    and "echo_dispatch env f e' (sv_echo s, sv_worker s) = Inr (a, w)"
    and "reach (\<lambda>x. x = \<lparr>sv_echo = a, sv_worker = w, sv_flying = sv_flying s - {#e#}\<rparr>) srv_step t"
  shows "conns (sv_echo t) (ev_fd e') \<noteq> None \<and>
    on_fd (ev_fd e') (image_mset cmd_of (sv_flying t + mset (pending (sv_worker t)))) = {#}"
proof -
  let ?s1 = "\<lparr>sv_echo = a, sv_worker = w, sv_flying = sv_flying s - {#e#}\<rparr>"
  let ?fd = "ev_fd e'"
  have inv: "srv_inv l mx n s" by (rule srv.reach_inv[OF assms(1)])
  from completion_expected[OF inv assms(2,3)] assms(4)
  have ex: "expects env (sv_echo s, sv_worker s) e'" and
    cp: "completes (max_fd (sv_echo s)) (msg_size (sv_echo s)) (sessions (sv_echo s)) (cmd_of e) (meaning env f e')"
    by auto
  have m: "meaning env f e' = Io_Error ?fd" using assms(5,6) by (cases f) (auto simp: meaning_def)
  have step: "srv_step s ?s1" by (rule srv_complete[OF assms(2,3,4,7)])
  have ei: "echo_inv (sv_echo s, sv_worker s)" using inv by (simp add: srv_inv_def)
  note sim = srv_step_simulates[OF inv step]
  have o: "conns (sv_echo s) ?fd \<noteq> None"
    using ex assms(4,5) by (cases f) (auto simp: expects_def split: option.splits)
  then have so: "sessions (sv_echo s) ?fd \<noteq> None" by (simp add: sessions_def)
  note im = echo_dispatch_implements[OF ei ex assms(4,7), unfolded implements_def m]
  have ses: "sessions a = sessions (sv_echo s)" and pend: "pending w = pending (sv_worker s)" using im by auto
  have t: "targets ?fd (cmd_of e)" using cp m by (cases "cmd_of e") auto
  let ?A = "image_mset cmd_of (sv_flying s + mset (pending (sv_worker s)))"
  have ok: "fd_ok n (sessions (sv_echo s) ?fd) (on_fd ?fd ?A)"
    using inv by (simp add: srv_inv_def net_inv_def abs_net_def)
  obtain K where K: "sv_flying s = add_mset e K" using assms(2) by (blast dest: multi_member_split)
  have "on_fd ?fd (image_mset cmd_of (K + mset (pending w))) = {#}"
    using ok t by (simp add: K pend fd_ok_def)
  then have "stuck ?fd (abs_net ?s1)" using so by (simp add: stuck_def abs_net_def ses K)
  moreover have "reach (\<lambda>x. x = abs_net ?s1) (net_step mx n) (abs_net t)"
    using later_abs[OF _ assms(8)] sim by blast
  ultimately have "reach (stuck ?fd) (net_step mx n) (abs_net t)" by (auto intro: reach_mono)
  then have "stuck ?fd (abs_net t)" by (rule stuck.reach_inv)
  then show ?thesis by (auto simp: stuck_def abs_net_def sessions_def)
qed

theorem failed_io_strands_connection_witness:
  "\<exists>t. reach (srv_init 3 64 4) srv_step t \<and> conns (sv_echo t) 5 \<noteq> None \<and>
     on_fd 5 (image_mset cmd_of (sv_flying t + mset (pending (sv_worker t)))) = {#}"
proof -
  obtain s r where s: "reach (srv_init 3 64 4) srv_step s" "r \<in># sv_flying s" "describes r (Read 5 (Some My_Read))"
    using demo_reading by blast
  let ?e = "r\<lparr>ev_result := - 104\<rparr>"
  have c: "completion_of demo_env (sv_echo s) r ?e"
    using s(3) by (simp add: completion_of_def cmd_of_def meaning_def)
  have fe: "ev_fn ?e = Some My_Read" "ev_result ?e < 0" "ev_fd ?e = 5" using s(3) by simp_all
  have "\<exists>a w. echo_dispatch demo_env My_Read ?e (sv_echo s, sv_worker s) = Inr (a, w)"
  proof -
    have inv: "srv_inv 3 64 4 s" by (rule srv.reach_inv[OF s(1)])
    from completion_expected[OF inv s(2) c] fe have "expects demo_env (sv_echo s, sv_worker s) ?e" by auto
    then obtain k where k: "conns (sv_echo s) 5 = Some k" using fe by (auto simp: expects_def split: option.splits)
    have "echo_wf (sv_echo s)" using inv by (simp add: srv_inv_def echo_inv_def)
    then have "conn_slot (sv_echo s) 5 = Inr (Some k)" "cn_fd (conn (sv_echo s) k) = 5"
      using conn_slot_open[OF _ k] open_in_range[OF _ k] by auto
    then show ?thesis using fe by (simp add: echo_dispatch_def my_read_def deref_def Let_def)
  qed
  then obtain a w where d: "echo_dispatch demo_env My_Read ?e (sv_echo s, sv_worker s) = Inr (a, w)" by blast
  let ?t = "\<lparr>sv_echo = a, sv_worker = w, sv_flying = sv_flying s - {#r#}\<rparr>"
  have "reach (\<lambda>x. x = ?t) srv_step ?t" by (rule reach_init) (rule refl)
  from failed_io_strands_connection[OF s(1,2) c fe(1) _ fe(2) d this]
    reach_step[OF s(1) srv_complete[OF s(2) c fe(1) d]] fe(3)
  show ?thesis by (intro exI[of _ ?t]) simp
qed

section \<open>The server's rounds conserve buffers\<close>

text \<open>
  Whatever kernel is behind \<open>upcall_submit\<close>, as long as it completes no more events than there
  is room for and gives a buffer back only with a successful read, a round of the event loop with
  the server's callbacks neither loses nor duplicates a pool buffer: the buffers with the kernel,
  in the pool and in a pending hand-over are together the same before and after, and the server is
  ready for the next round.
\<close>

theorem server_round_conserves_buffers:
  assumes "upcall_kernel submit held brings" and "loop_ready (lp_worker s)"
    and "expected_round echo_inv (expects env) m submit (echo_dispatch env) s"
    and "run_event_loop m c clk submit (echo_dispatch env) s = Inr s'"
  shows "ledger held (\<lambda>_. {#}) s' = ledger held (\<lambda>_. {#}) s \<and> echo_inv (lp_app s', lp_worker s') \<and>
    loop_ready (lp_worker s')"
proof -
  have "upcall_system submit held brings (echo_dispatch env) echo_inv (expects env) (\<lambda>_. {#})"
    by (rule upcall_system.intro[OF assms(1) app.upcall_app_axioms])
  from upcall_system.run_event_loop_ledger[OF this assms(2-4)] show ?thesis .
qed

text \<open>A kernel that queues the buffers and answers the first read of each batch with four bytes.\<close>

definition fifo_submit :: "(echo_fn, ptr list) kernel" where
  "fifo_submit k evs io n =
     (let h = k @ map iov_base io in
      case (filter (\<lambda>e. ev_fn e = Some My_Read) evs, h) of
        (e # _, b # bs) \<Rightarrow>
          if 0 < n then (Some [e\<lparr>ev_result := 4, ev_buf := b, ev_len := 4\<rparr>], bs) else (Some [], h)
      | _ \<Rightarrow> (Some [], h))"

interpretation fifo: upcall_system fifo_submit mset brings "echo_dispatch env" echo_inv "expects env" "\<lambda>_. {#}" for env
proof unfold_locales
  fix k k' :: "ptr list" and evs outs :: "echo_fn up_event list" and io n
  assume s: "fifo_submit k evs io n = (Some outs, k')"
  show "length outs \<le> n" using s by (auto simp: fifo_submit_def Let_def split: list.splits if_splits)
  have h: "mset (k @ map iov_base io) = mset k + bases io" by (simp add: bases_def)
  show "mset k' + (\<Sum>e \<in># mset outs. brings e) = mset k + bases io"
  proof (cases "filter (\<lambda>e. ev_fn e = Some My_Read) evs = [] \<or> k @ map iov_base io = [] \<or> n = 0")
    case True
    then have "outs = []" "k' = k @ map iov_base io"
      using s by (auto simp: fifo_submit_def Let_def split: list.splits if_splits)
    then show ?thesis using h by simp
  next
    case False
    then obtain e es b bs where e: "filter (\<lambda>e. ev_fn e = Some My_Read) evs = e # es"
      and b: "k @ map iov_base io = b # bs" by (meson neq_Nil_conv)
    then have "ev_fn e = Some My_Read" by (metis (mono_tags, lifting) filter_eq_ConsD)
    moreover have "outs = [e\<lparr>ev_result := 4, ev_buf := b, ev_len := 4\<rparr>]" "k' = bs"
      using s False unfolding fifo_submit_def Let_def e b by simp_all
    ultimately show ?thesis using h unfolding b by (simp add: brings_def)
  qed
qed

definition demo_round :: "(echo_fn, echo, ptr list) loop_state" where
  "demo_round = \<lparr>lp_kernel = [Ptr 100 0, Ptr 101 0], lp_stats = \<lparr>batch_slot = None, proc_start = 0\<rparr>,
     lp_app = demo_echo,
     lp_worker = demo_worker\<lparr>work := zero_event\<lparr>ev_fd := 5, ev_fn := Some My_Read\<rparr> # replicate 3 zero_event,
                             work_cnt := 1\<rparr>\<rparr>"

text \<open>The bytes behind every buffer of that round.\<close>

definition demo_round_env :: echo_env where
  "demo_round_env = demo_env\<lparr>ee_bytes := (\<lambda>_. [7, 8, 9, 10])\<rparr>"

theorem server_round_conserves_buffers_witness:
  "\<exists>s'. run_event_loop roomy \<lparr>batch_hist_len = 4, time_hist_len = 4, batch_stride = 16\<rparr> (0, 0) fifo_submit
          (echo_dispatch demo_round_env) demo_round = Inr s' \<and>
        ledger mset (\<lambda>_. {#}) s' = {#Ptr 100 0, Ptr 101 0#}"
proof -
  let ?w = "lp_worker demo_round"
  let ?e = "zero_event\<lparr>ev_fd := 5, ev_result := 4, ev_buf := Ptr 100 0, ev_len := 4, ev_fn := Some My_Read\<rparr>"
  have ready: "handler_ready ?w"
    by (simp add: handler_ready_def worker_wf_def no_vec_def pending_def demo_round_def demo_worker_def zero_event_def)
  have h: "hand_over roomy ?w = Inr ?w" by (simp add: hand_over_def demo_round_def demo_worker_def)
  have sub: "fifo_submit (lp_kernel demo_round) (pending ?w) (vecs ?w) (recv_cnt ?w) = (Some [?e], [Ptr 101 0])"
    using ready vecs_no_vec[of ?w]
    by (simp add: fifo_submit_def handler_ready_def pending_def demo_round_def demo_worker_def zero_event_def)
  have inv: "echo_inv (lp_app demo_round, after_submit [?e] ?w)"
    using demo_inv by (simp add: echo_inv_def handler_ready_def worker_wf_def no_vec_def pending_def after_submit_def
        demo_round_def demo_worker_def)
  have ex: "all_expected (expects demo_round_env) (echo_dispatch demo_round_env) [?e] (lp_app demo_round, after_submit [?e] ?w)"
    by code_simp
  have "expected_round echo_inv (expects demo_round_env) roomy fifo_submit (echo_dispatch demo_round_env) demo_round"
    unfolding expected_round_def h using sub inv ex by simp
  moreover have "\<exists>s'. run_event_loop roomy \<lparr>batch_hist_len = 4, time_hist_len = 4, batch_stride = 16\<rparr> (0, 0) fifo_submit
      (echo_dispatch demo_round_env) demo_round = Inr s'"
  proof -
    have "ok (run_event_loop roomy \<lparr>batch_hist_len = 4, time_hist_len = 4, batch_stride = 16\<rparr> (0, 0) fifo_submit
      (echo_dispatch demo_round_env) demo_round)" by code_simp
    then show ?thesis by (auto simp: ok_def split: sum.splits)
  qed
  ultimately show ?thesis
    using server_round_conserves_buffers[OF fifo.upcall_kernel_axioms handler_ready_loop_ready[OF ready]]
    by (fastforce simp: ledger_def demo_round_def demo_worker_def pool_def vecs_def pending_def vec_of_def zero_event_def)
qed

end
