(* ===== verification/Tsc_Log.thy ===== *)
theory Tsc_Log
  imports Upcall_Prelude
begin

text \<open>
  The time-stamp log (\<open>event-tester/tsc_logger.h\<close>): entries of two 32-bit words, a time stamp and
  \<open>n\<close> values, reserved in a buffer by a compare-and-swap loop.  Memory is a function from byte
  addresses; stores are little-endian, as on the only machine the code runs on.
\<close>

section \<open>Bytes\<close>

type_synonym memory = "nat \<Rightarrow> 8 word"

definition store_le :: "nat \<Rightarrow> nat \<Rightarrow> nat \<Rightarrow> memory \<Rightarrow> memory" where
  "store_le k a v m = (\<lambda>x. if a \<le> x \<and> x < a + k then word_of_nat (v div 256 ^ (x - a)) else m x)"

fun load_le :: "nat \<Rightarrow> nat \<Rightarrow> memory \<Rightarrow> nat" where
  "load_le 0 a m = 0"
| "load_le (Suc k) a m = unat (m a) + 256 * load_le k (a + 1) m"

lemma load_le_cong: "(\<And>x. a \<le> x \<Longrightarrow> x < a + k \<Longrightarrow> m x = m' x) \<Longrightarrow> load_le k a m = load_le k a m'"
  by (induction k arbitrary: a) auto

lemma load_le_store_le: "v < 256 ^ k \<Longrightarrow> load_le k a (store_le k a v m) = v"
proof (induction k arbitrary: a v)
  case 0
  then show ?case by simp
next
  case (Suc k)
  have "load_le k (a + 1) (store_le (Suc k) a v m) = load_le k (a + 1) (store_le k (a + 1) (v div 256) m)"
  proof (rule load_le_cong)
    fix x assume x: "a + 1 \<le> x" "x < a + 1 + k"
    have "x - a = Suc (x - (a + 1))" using x by simp
    then have "v div 256 ^ (x - a) = v div 256 div 256 ^ (x - (a + 1))" by (simp add: div_mult2_eq)
    then show "store_le (Suc k) a v m x = store_le k (a + 1) (v div 256) m x"
      using x by (simp add: store_le_def)
  qed
  also have "\<dots> = v div 256" by (rule Suc.IH) (use Suc.prems in \<open>simp add: less_mult_imp_div_less mult.commute\<close>)
  finally show ?case by (simp add: store_le_def unsigned_of_nat take_bit_nat_def)
qed

lemma load_le_other: "b + j \<le> a \<or> a + k \<le> b \<Longrightarrow> load_le j b (store_le k a v m) = load_le j b m"
  by (rule load_le_cong) (auto simp: store_le_def)

section \<open>Model\<close>

definition TscLogEntrySize :: "nat \<Rightarrow> nat" where
  "TscLogEntrySize numvals = 16 + numvals * 8"

record tsc_log =
  tl_cur :: nat
  tl_end :: nat
  tl_overflow :: bool
  tl_mem :: memory

text \<open>
  \<open>tsc_buffer_reserve\<close> when no other thread interferes; \<open>bytes\<close> is a \<open>uint32_t\<close>.  The loop with
  interference is a step system below.
\<close>

definition tsc_buffer_reserve :: "u32 \<Rightarrow> nat \<Rightarrow> nat \<Rightarrow> nat option \<times> nat" where
  "tsc_buffer_reserve bytes cur endp =
     (let fresh = cur + unat bytes in
      if fresh > endp then (None, cur) else (Some cur, fresh))"

definition tsclog_getentry :: "tsc_log \<Rightarrow> u32 \<Rightarrow> nat option \<times> tsc_log" where
  "tsclog_getentry l numvals =
     (let (e, cur) = tsc_buffer_reserve (word_of_nat (TscLogEntrySize (unat numvals))) (tl_cur l) (tl_end l);
          l = l\<lparr>tl_cur := cur\<rparr>
      in (e, if e = None then l\<lparr>tl_overflow := True\<rparr> else l))"

text \<open>The clock, processor and process an entry is stamped with.\<close>

record stamp =
  st_now :: u64
  st_cpu :: u32
  st_pid :: u32

definition tsclog_hdr :: "nat \<Rightarrow> stamp \<Rightarrow> memory \<Rightarrow> memory" where
  "tsclog_hdr e st m =
     store_le 4 (e + 4) (unat (st_pid st)) (store_le 4 e (unat (st_cpu st)) (store_le 8 (e + 8) (unat (st_now st)) m))"

definition tsc_writeval :: "nat \<Rightarrow> nat \<Rightarrow> u64 \<Rightarrow> memory \<Rightarrow> memory" where
  "tsc_writeval e i v m = store_le 8 (e + 16 + 8 * i) (unat v) m"

text \<open>The macro \<open>TSCLOG_INFO\<close> and what the \<open>tsclog_\<close> functions do with the entry.\<close>

definition tsclog_info :: "stamp \<Rightarrow> u32 \<Rightarrow> (nat \<Rightarrow> memory \<Rightarrow> memory) \<Rightarrow> tsc_log \<Rightarrow> tsc_log" where
  "tsclog_info st n write l =
     (case tsclog_getentry l n of
        (None, l') \<Rightarrow> l'
      | (Some e, l') \<Rightarrow> l'\<lparr>tl_mem := write e (tsclog_hdr e st (tl_mem l'))\<rparr>)"

definition tsclog_0 :: "stamp \<Rightarrow> tsc_log \<Rightarrow> tsc_log" where
  "tsclog_0 st = tsclog_info st 0 (\<lambda>e m. m)"

definition tsclog_1 :: "stamp \<Rightarrow> u64 \<Rightarrow> tsc_log \<Rightarrow> tsc_log" where
  "tsclog_1 st v0 = tsclog_info st 1 (\<lambda>e m. tsc_writeval e 0 v0 m)"

definition tsclog_2 :: "stamp \<Rightarrow> u64 \<Rightarrow> u64 \<Rightarrow> tsc_log \<Rightarrow> tsc_log" where
  "tsclog_2 st v0 v1 = tsclog_info st 2 (\<lambda>e m. tsc_writeval e 1 v1 (tsc_writeval e 0 v0 m))"

definition tsclog_3 :: "stamp \<Rightarrow> u64 \<Rightarrow> u64 \<Rightarrow> u64 \<Rightarrow> tsc_log \<Rightarrow> tsc_log" where
  "tsclog_3 st v0 v1 v2 =
     tsclog_info st 3 (\<lambda>e m. tsc_writeval e 2 v2 (tsc_writeval e 1 v1 (tsc_writeval e 0 v0 m)))"

definition tsclog_4 :: "stamp \<Rightarrow> u64 \<Rightarrow> u64 \<Rightarrow> u64 \<Rightarrow> u64 \<Rightarrow> tsc_log \<Rightarrow> tsc_log" where
  "tsclog_4 st v0 v1 v2 v3 =
     tsclog_info st 4 (\<lambda>e m. tsc_writeval e 3 v3 (tsc_writeval e 2 v2 (tsc_writeval e 1 v1 (tsc_writeval e 0 v0 m))))"

text \<open>All of them write their values in order.\<close>

fun write_vals :: "nat \<Rightarrow> nat \<Rightarrow> u64 list \<Rightarrow> memory \<Rightarrow> memory" where
  "write_vals e i [] m = m"
| "write_vals e i (v # vs) m = write_vals e (i + 1) vs (tsc_writeval e i v m)"

lemma tsclog_vals:
  "tsclog_0 st = tsclog_info st 0 (\<lambda>e. write_vals e 0 [])"
  "tsclog_1 st v0 = tsclog_info st 1 (\<lambda>e. write_vals e 0 [v0])"
  "tsclog_2 st v0 v1 = tsclog_info st 2 (\<lambda>e. write_vals e 0 [v0, v1])"
  "tsclog_3 st v0 v1 v2 = tsclog_info st 3 (\<lambda>e. write_vals e 0 [v0, v1, v2])"
  "tsclog_4 st v0 v1 v2 v3 = tsclog_info st 4 (\<lambda>e. write_vals e 0 [v0, v1, v2, v3])"
  unfolding tsclog_0_def tsclog_1_def tsclog_2_def tsclog_3_def tsclog_4_def
  by (rule arg_cong[where f = "\<lambda>w. tsclog_info st _ w"], simp add: fun_eq_iff numeral_2_eq_2 numeral_3_eq_3)+

section \<open>Reading the log back\<close>

record entry =
  en_cpu :: nat
  en_tid :: nat
  en_tsc :: nat
  en_vals :: "nat list"

definition read_entry :: "nat \<Rightarrow> nat \<Rightarrow> memory \<Rightarrow> entry" where
  "read_entry n e m = \<lparr>en_cpu = load_le 4 e m, en_tid = load_le 4 (e + 4) m, en_tsc = load_le 8 (e + 8) m,
     en_vals = map (\<lambda>i. load_le 8 (e + 16 + 8 * i) m) [0..<n]\<rparr>"

definition entry_of :: "stamp \<times> u64 list \<Rightarrow> entry" where
  "entry_of r = \<lparr>en_cpu = unat (st_cpu (fst r)), en_tid = unat (st_pid (fst r)), en_tsc = unat (st_now (fst r)),
     en_vals = map unat (snd r)\<rparr>"

text \<open>\<open>k\<close> entries of \<open>n\<close> values from address \<open>a\<close>.\<close>

definition read_log :: "nat \<Rightarrow> nat \<Rightarrow> nat \<Rightarrow> memory \<Rightarrow> entry list" where
  "read_log n k a m = map (\<lambda>j. read_entry n (a + j * TscLogEntrySize n) m) [0..<k]"

lemma read_entry_cong:
  assumes "\<And>x. e \<le> x \<Longrightarrow> x < e + TscLogEntrySize n \<Longrightarrow> m x = m' x"
  shows "read_entry n e m = read_entry n e m'"
proof -
  have l: "load_le k (e + d) m = load_le k (e + d) m'" if "d + k \<le> TscLogEntrySize n" for k d
    by (rule load_le_cong) (rule assms; use that in linarith)
  have "load_le 8 (e + 16 + 8 * i) m = load_le 8 (e + 16 + 8 * i) m'" if "i < n" for i
    using l[of "16 + 8 * i" 8] that by (simp add: TscLogEntrySize_def add.assoc)
  then show ?thesis
    using l[of 0 4] l[of 4 4] l[of 8 8] by (simp add: read_entry_def TscLogEntrySize_def)
qed

text \<open>Writing an entry touches only its own bytes.\<close>

lemma write_vals_other: "x < e + 16 + 8 * i \<or> e + 16 + 8 * (i + length vs) \<le> x \<Longrightarrow> write_vals e i vs m x = m x"
proof (induction vs arbitrary: i m)
  case (Cons v vs)
  have "write_vals e (i + 1) vs (tsc_writeval e i v m) x = tsc_writeval e i v m x"
    by (rule Cons.IH) (use Cons.prems in auto)
  also have "\<dots> = m x" using Cons.prems by (auto simp: tsc_writeval_def store_le_def)
  finally show ?case by simp
qed simp

lemma tsclog_hdr_other: "x < e \<or> e + 16 \<le> x \<Longrightarrow> tsclog_hdr e st m x = m x"
  by (auto simp: tsclog_hdr_def store_le_def)

lemma load_write_vals:
  "j < length vs \<Longrightarrow> load_le 8 (e + 16 + 8 * (i + j)) (write_vals e i vs m) = unat (vs ! j)"
proof (induction vs arbitrary: i j m)
  case (Cons v vs)
  show ?case
  proof (cases j)
    case 0
    have "load_le 8 (e + 16 + 8 * i) (write_vals e (i + 1) vs (tsc_writeval e i v m)) =
        load_le 8 (e + 16 + 8 * i) (tsc_writeval e i v m)"
      by (rule load_le_cong) (rule write_vals_other, simp)
    also have "unat v < 2 ^ 64" using unsigned_less[of v, where 'a = nat] by simp
    then have "unat v < 256 ^ 8" by simp
    then have "load_le 8 (e + 16 + 8 * i) (tsc_writeval e i v m) = unat v"
      unfolding tsc_writeval_def by (rule load_le_store_le)
    finally show ?thesis using 0 by simp
  next
    case (Suc j')
    then show ?thesis using Cons.IH[of j' "i + 1" "tsc_writeval e i v m"] Cons.prems by simp
  qed
qed simp

lemma read_written:
  "read_entry (length vs) e (write_vals e 0 vs (tsclog_hdr e st m)) = entry_of (st, vs)"
proof -
  let ?m = "tsclog_hdr e st m"
  have h: "load_le k (e + d) (write_vals e 0 vs ?m) = load_le k (e + d) ?m" if "d + k \<le> 16" for k d
    by (rule load_le_cong) (rule write_vals_other, use that in linarith)
  have lt: "unat (st_cpu st) < 256 ^ 4" "unat (st_pid st) < 256 ^ 4" "unat (st_now st) < 256 ^ 8"
    using unsigned_less[of "st_cpu st", where 'a = nat] unsigned_less[of "st_pid st", where 'a = nat]
      unsigned_less[of "st_now st", where 'a = nat] by simp_all
  have "load_le 4 e ?m = unat (st_cpu st)"
    unfolding tsclog_hdr_def by (simp add: load_le_other load_le_store_le[OF lt(1)])
  moreover have "load_le 4 (e + 4) ?m = unat (st_pid st)"
    unfolding tsclog_hdr_def by (simp add: load_le_store_le[OF lt(2)])
  moreover have "load_le 8 (e + 8) ?m = unat (st_now st)"
    unfolding tsclog_hdr_def by (simp add: load_le_other load_le_store_le[OF lt(3)])
  moreover have "map (\<lambda>i. load_le 8 (e + 16 + 8 * i) (write_vals e 0 vs ?m)) [0..<length vs] = map unat vs"
    using load_write_vals[of _ vs e 0] by (intro nth_equalityI) simp_all
  ultimately show ?thesis using h[of 0 4] h[of 4 4] h[of 8 8] by (simp add: read_entry_def entry_of_def)
qed

section \<open>Logging a sequence of records\<close>

fun log_all :: "nat \<Rightarrow> (stamp \<times> u64 list) list \<Rightarrow> tsc_log \<Rightarrow> tsc_log" where
  "log_all n [] l = l"
| "log_all n ((st, vs) # rs) l = log_all n rs (tsclog_info st (word_of_nat n) (\<lambda>e. write_vals e 0 vs) l)"

text \<open>\<open>k\<close> entries have been logged since the start, and room for \<open>c\<close> was there.\<close>

definition holds :: "nat \<Rightarrow> nat \<Rightarrow> nat \<Rightarrow> entry list \<Rightarrow> tsc_log \<Rightarrow> bool" where
  "holds n a c es l \<longleftrightarrow> length es \<le> c \<and> tl_cur l = a + length es * TscLogEntrySize n \<and>
     tl_end l = a + c * TscLogEntrySize n \<and> read_log n (length es) a (tl_mem l) = es"

lemma read_log_Suc: "read_log n (Suc k) a m = read_log n k a m @ [read_entry n (a + k * TscLogEntrySize n) m]"
  by (simp add: read_log_def)

lemma read_log_cong:
  "(\<And>x. a \<le> x \<Longrightarrow> x < a + k * TscLogEntrySize n \<Longrightarrow> m x = m' x) \<Longrightarrow> read_log n k a m = read_log n k a m'"
proof (induction k)
  case (Suc k)
  have "read_entry n (a + k * TscLogEntrySize n) m = read_entry n (a + k * TscLogEntrySize n) m'"
    by (rule read_entry_cong) (rule Suc.prems; simp)
  moreover have "read_log n k a m = read_log n k a m'" by (rule Suc.IH) (rule Suc.prems; simp)
  ultimately show ?case by (simp add: read_log_Suc)
qed (simp add: read_log_def)

lemma entry_bytes: "n \<le> 4 \<Longrightarrow> unat (word_of_nat (TscLogEntrySize (unat (word_of_nat n :: u32))) :: u32) = TscLogEntrySize n"
proof -
  assume n: "n \<le> 4"
  have u: "unat (word_of_nat k :: u32) = k" if "k < 2 ^ 32" for k
    using that by (simp add: unsigned_of_nat take_bit_nat_eq_self)
  have "n < 2 ^ 32" "TscLogEntrySize n < 2 ^ 32" using n by (simp_all add: TscLogEntrySize_def)
  then show ?thesis using u[of n] u[of "TscLogEntrySize n"] by simp
qed

lemma log_one:
  assumes h: "holds n a c es l" and n: "n \<le> 4" "length vs = n"
  shows "let l' = tsclog_info st (word_of_nat n) (\<lambda>e. write_vals e 0 vs) l in
    (if length es < c then holds n a c (es @ [entry_of (st, vs)]) l' \<and> tl_overflow l' = tl_overflow l
     else l' = l\<lparr>tl_overflow := True\<rparr> \<and> holds n a c es l')"
proof -
  let ?S = "TscLogEntrySize n"
  have S: "0 < ?S" by (simp add: TscLogEntrySize_def)
  show ?thesis
  proof (cases "length es < c")
    case True
    then have "Suc (length es) * ?S \<le> c * ?S" by (intro mult_le_mono1) simp
    then have fit: "\<not> tl_cur l + ?S > tl_end l" using h by (simp add: holds_def)
    let ?m = "write_vals (tl_cur l) 0 vs (tsclog_hdr (tl_cur l) st (tl_mem l))"
    have e: "tsclog_info st (word_of_nat n) (\<lambda>e. write_vals e 0 vs) l = l\<lparr>tl_cur := tl_cur l + ?S, tl_mem := ?m\<rparr>"
      using fit by (simp add: tsclog_info_def tsclog_getentry_def tsc_buffer_reserve_def entry_bytes[OF n(1)] Let_def)
    have "read_log n (length es) a ?m = read_log n (length es) a (tl_mem l)"
    proof (rule read_log_cong)
      fix x assume "a \<le> x" "x < a + length es * ?S"
      then have "x < tl_cur l" using h by (simp add: holds_def)
      then show "?m x = tl_mem l x" by (simp add: write_vals_other tsclog_hdr_other)
    qed
    then show ?thesis using True h read_written[of vs "tl_cur l" st "tl_mem l"] n(2)
      by (simp add: e holds_def read_log_Suc)
  next
    case False
    then have "tl_cur l + ?S > tl_end l" using h S by (simp add: holds_def)
    then have "tsclog_info st (word_of_nat n) (\<lambda>e. write_vals e 0 vs) l = l\<lparr>tl_overflow := True\<rparr>"
      by (simp add: tsclog_info_def tsclog_getentry_def tsc_buffer_reserve_def entry_bytes[OF n(1)] Let_def)
    moreover have "holds n a c es (l\<lparr>tl_overflow := True\<rparr>)" using h unfolding holds_def by simp
    ultimately show ?thesis using False by simp
  qed
qed

lemma log_all_holds:
  "holds n a c es l \<Longrightarrow> n \<le> 4 \<Longrightarrow> \<forall>r \<in> set rs. length (snd r) = n \<Longrightarrow>
     holds n a c (es @ take (c - length es) (map entry_of rs)) (log_all n rs l) \<and>
     (tl_overflow (log_all n rs l) \<longleftrightarrow> tl_overflow l \<or> c < length es + length rs)"
proof (induction rs arbitrary: es l)
  case Nil
  then show ?case by (auto simp: holds_def)
next
  case (Cons r rs)
  obtain st vs where r: "r = (st, vs)" by (cases r)
  let ?l = "tsclog_info st (word_of_nat n) (\<lambda>e. write_vals e 0 vs) l"
  have one: "if length es < c then holds n a c (es @ [entry_of (st, vs)]) ?l \<and> tl_overflow ?l = tl_overflow l
     else ?l = l\<lparr>tl_overflow := True\<rparr> \<and> holds n a c es ?l"
    using log_one[OF Cons.prems(1,2), of vs st] Cons.prems(3) r by (simp add: Let_def)
  show ?case
  proof (cases "length es < c")
    case True
    then have "c - length es = Suc (c - Suc (length es))" by simp
    then show ?thesis using one True Cons.IH[of "es @ [entry_of (st, vs)]" ?l] Cons.prems(2,3) r
      by (auto simp: take_Suc_Cons)
  next
    case False
    then show ?thesis using one Cons.IH[of es ?l] Cons.prems(2,3) r by auto
  qed
qed

section \<open>Reserving concurrently\<close>

text \<open>
  Threads calling \<open>tsc_buffer_reserve\<close> on one buffer: the read of \<open>*cur\<close> and the compare-and-swap
  are single steps, anything may happen in between.  \<open>rv_granted\<close> records the successful calls,
  newest first, as (thread, address, bytes).
\<close>

datatype rpc = Idle | Try nat | Loaded nat nat | Got nat nat | Full nat

record reserve =
  rv_cur :: nat
  rv_end :: nat
  rv_pc :: "nat \<Rightarrow> rpc"
  rv_granted :: "(nat \<times> nat \<times> nat) list"

definition pc_to :: "nat \<Rightarrow> rpc \<Rightarrow> reserve \<Rightarrow> reserve" where
  "pc_to t p s = s\<lparr>rv_pc := (rv_pc s)(t := p)\<rparr>"

inductive rv_step :: "reserve \<Rightarrow> reserve \<Rightarrow> bool" where
  rv_call: "rv_pc s t = Idle \<or> rv_pc s t = Got b' a \<or> rv_pc s t = Full b' \<Longrightarrow> rv_step s (pc_to t (Try b) s)"
| rv_load: "rv_pc s t = Try b \<Longrightarrow> rv_step s (pc_to t (Loaded b (rv_cur s)) s)"
| rv_full: "rv_pc s t = Loaded b old \<Longrightarrow> old + b > rv_end s \<Longrightarrow> rv_step s (pc_to t (Full b) s)"
| rv_swap: "rv_pc s t = Loaded b old \<Longrightarrow> \<not> old + b > rv_end s \<Longrightarrow> rv_cur s = old \<Longrightarrow>
    rv_step s (pc_to t (Got b old) (s\<lparr>rv_cur := old + b, rv_granted := (t, old, b) # rv_granted s\<rparr>))"
| rv_retry: "rv_pc s t = Loaded b old \<Longrightarrow> \<not> old + b > rv_end s \<Longrightarrow> rv_cur s \<noteq> old \<Longrightarrow>
    rv_step s (pc_to t (Try b) s)"

definition rv_init :: "nat \<Rightarrow> nat \<Rightarrow> reserve \<Rightarrow> bool" where
  "rv_init a e s \<longleftrightarrow> a \<le> e \<and> s = \<lparr>rv_cur = a, rv_end = e, rv_pc = (\<lambda>_. Idle), rv_granted = []\<rparr>"

text \<open>The granted pieces lie end to end between the start of the buffer and \<open>cur\<close>.\<close>

fun tiles :: "nat \<Rightarrow> nat \<Rightarrow> (nat \<times> nat \<times> nat) list \<Rightarrow> bool" where
  "tiles a c [] \<longleftrightarrow> c = a"
| "tiles a c ((t, x, b) # gs) \<longleftrightarrow> c = x + b \<and> tiles a x gs"

fun pc_ok :: "nat \<Rightarrow> nat \<Rightarrow> (nat \<times> nat \<times> nat) list \<Rightarrow> nat \<Rightarrow> rpc \<Rightarrow> bool" where
  "pc_ok c e gs t (Loaded b old) \<longleftrightarrow> old \<le> c"
| "pc_ok c e gs t (Got b x) \<longleftrightarrow> (t, x, b) \<in> set gs"
| "pc_ok c e gs t (Full b) \<longleftrightarrow> c + b > e"
| "pc_ok c e gs t _ \<longleftrightarrow> True"

definition rv_inv :: "nat \<Rightarrow> nat \<Rightarrow> reserve \<Rightarrow> bool" where
  "rv_inv a e s \<longleftrightarrow> rv_end s = e \<and> rv_cur s \<le> e \<and> tiles a (rv_cur s) (rv_granted s) \<and>
     (\<forall>t. pc_ok (rv_cur s) e (rv_granted s) t (rv_pc s t))"

lemma pc_ok_mono: "pc_ok c e gs t p \<Longrightarrow> c \<le> c' \<Longrightarrow> pc_ok c' e (g # gs) t p"
  by (cases p) auto

lemma pc_to_simps [simp]:
  "rv_cur (pc_to t p s) = rv_cur s" "rv_end (pc_to t p s) = rv_end s" "rv_granted (pc_to t p s) = rv_granted s"
  "rv_pc (pc_to t p s) t' = (if t' = t then p else rv_pc s t')"
  by (simp_all add: pc_to_def)

lemma rv_inv_pc:
  assumes "rv_inv a e s" "pc_ok (rv_cur s) e (rv_granted s) t p"
  shows "rv_inv a e (pc_to t p s)"
  using assms by (simp add: rv_inv_def)

lemma rv_inv_step:
  assumes inv: "rv_inv a e s" and st: "rv_step s s'"
  shows "rv_inv a e s'"
proof -
  have ok: "pc_ok (rv_cur s) e (rv_granted s) t (rv_pc s t)" for t using inv by (simp add: rv_inv_def)
  have e: "rv_end s = e" using inv by (simp add: rv_inv_def)
  from st show ?thesis
  proof cases
    case (rv_swap t b old)
    have "pc_ok (old + b) e ((t, old, b) # rv_granted s) t' (rv_pc s t')" for t'
      using pc_ok_mono[OF ok] rv_swap by simp
    then show ?thesis using inv rv_swap by (simp add: rv_inv_def)
  next
    case (rv_full t b old)
    then have "old \<le> rv_cur s" using ok[of t] by simp
    then have "pc_ok (rv_cur s) e (rv_granted s) t (Full b)" using rv_full(3) e by simp
    then show ?thesis using rv_full(1) rv_inv_pc[OF inv] by simp
  qed (auto intro!: rv_inv_pc[OF inv])
qed

lemma rv_inv_init: "rv_init a e s \<Longrightarrow> rv_inv a e s"
  by (auto simp: rv_init_def rv_inv_def)

interpretation rv: step_system "rv_init a e" rv_step "rv_inv a e" for a e
  by unfold_locales (rule rv_inv_init rv_inv_step; assumption)+

lemma tiles_mono: "tiles a c gs \<Longrightarrow> a \<le> c"
proof (induction gs arbitrary: c)
  case (Cons g gs)
  then show ?case by (cases g) fastforce
qed simp

lemma tiles_bounds: "tiles a c gs \<Longrightarrow> (t, x, b) \<in> set gs \<Longrightarrow> a \<le> x \<and> x + b \<le> c"
proof (induction gs arbitrary: c)
  case (Cons g gs)
  obtain t' x' b' where g: "g = (t', x', b')" by (cases g)
  then show ?case using Cons tiles_mono[of a x' gs] by fastforce
qed simp

lemma tiles_disjoint:
  assumes "tiles a c gs" "i < j" "j < length gs" "gs ! i = (t, x, b)" "gs ! j = (t', x', b')"
  shows "x' + b' \<le> x"
  using assms
proof (induction gs arbitrary: c i j)
  case (Cons g gs)
  obtain u y d where g: "g = (u, y, d)" by (cases g)
  show ?case
  proof (cases i)
    case 0
    obtain j' where "j = Suc j'" using Cons.prems(2) 0 by (cases j) auto
    then have "(t', x', b') \<in> set gs" using Cons.prems(3,5) by (auto simp: in_set_conv_nth)
    then show ?thesis using tiles_bounds[of a y gs t' x' b'] Cons.prems(1,4) 0 g by simp
  next
    case (Suc i')
    then obtain j' where "j = Suc j'" using Cons.prems(2) by (cases j) auto
    then show ?thesis using Cons.IH[of y i' j'] Cons.prems Suc g by simp
  qed
qed simp

section \<open>Properties\<close>

text \<open>
  C25: Logging keeps the longest prefix that fits.  Log any sequence of records of \<open>n\<close> values (at
  most four) into an empty log with room for \<open>c\<close> of them: afterwards the bytes of the buffer decode
  to exactly the first \<open>c\<close> records, in order and with their stamps and values, \<open>cur\<close> is behind
  them, and the overflow flag is set exactly if records were dropped.
\<close>

theorem log_keeps_prefix:
  assumes "tl_cur l = a" and "tl_end l = a + c * TscLogEntrySize n" and "\<not> tl_overflow l"
    and "n \<le> 4" and "\<forall>r \<in> set rs. length (snd r) = n"
  shows "read_log n (min c (length rs)) a (tl_mem (log_all n rs l)) = map entry_of (take c rs) \<and>
    tl_cur (log_all n rs l) = a + min c (length rs) * TscLogEntrySize n \<and>
    (tl_overflow (log_all n rs l) \<longleftrightarrow> c < length rs)"
proof -
  have "holds n a c [] l" using assms(1,2) by (simp add: holds_def read_log_def)
  from log_all_holds[OF this assms(4,5)] assms(3) show ?thesis
    by (simp add: holds_def take_map min.commute)
qed

definition demo_log :: tsc_log where
  "demo_log = \<lparr>tl_cur = 64, tl_end = 64 + 48, tl_overflow = False, tl_mem = (\<lambda>_. 0)\<rparr>"

definition demo_stamp :: stamp where
  "demo_stamp = \<lparr>st_now = 1000, st_cpu = 3, st_pid = 7\<rparr>"

theorem log_keeps_prefix_witness:
  "read_log 1 2 64 (tl_mem (log_all 1 [(demo_stamp, [5]), (demo_stamp, [6]), (demo_stamp, [7])] demo_log)) =
     [entry_of (demo_stamp, [5]), entry_of (demo_stamp, [6])]"
  using log_keeps_prefix[of demo_log 64 2 1 "[(demo_stamp, [5]), (demo_stamp, [6]), (demo_stamp, [7])]"]
  by (simp add: demo_log_def TscLogEntrySize_def numeral_2_eq_2)

text \<open>
  C26: Concurrent reservations never overlap.  However the threads' loads and compare-and-swaps
  interleave, all pieces granted so far lie inside the buffer and are pairwise disjoint, a thread
  that got a piece holds one of them, and a thread is refused only if its piece no longer fits.
\<close>

theorem reservations_disjoint:
  assumes "reach (rv_init a e) rv_step s"
  shows "(\<forall>i j t x b t' x' b'. i < j \<longrightarrow> j < length (rv_granted s) \<longrightarrow> rv_granted s ! i = (t, x, b) \<longrightarrow>
      rv_granted s ! j = (t', x', b') \<longrightarrow> x' + b' \<le> x) \<and>
    (\<forall>(t, x, b) \<in> set (rv_granted s). a \<le> x \<and> x + b \<le> e) \<and>
    (\<forall>t b x. rv_pc s t = Got b x \<longrightarrow> (t, x, b) \<in> set (rv_granted s)) \<and>
    (\<forall>t b. rv_pc s t = Full b \<longrightarrow> rv_cur s + b > rv_end s) \<and> rv_cur s \<le> e"
proof -
  have inv: "rv_inv a e s" by (rule rv.reach_inv[OF assms])
  then have t: "tiles a (rv_cur s) (rv_granted s)" "rv_cur s \<le> e" "rv_end s = e" by (auto simp: rv_inv_def)
  have "\<forall>(t, x, b) \<in> set (rv_granted s). a \<le> x \<and> x + b \<le> e"
    using tiles_bounds[OF t(1)] t(2) by fastforce
  moreover have "\<forall>i j t x b t' x' b'. i < j \<longrightarrow> j < length (rv_granted s) \<longrightarrow> rv_granted s ! i = (t, x, b) \<longrightarrow>
      rv_granted s ! j = (t', x', b') \<longrightarrow> x' + b' \<le> x"
    using tiles_disjoint[OF t(1)] by blast
  moreover have ok: "pc_ok (rv_cur s) e (rv_granted s) u (rv_pc s u)" for u using inv by (simp add: rv_inv_def)
  have "(u, x, b) \<in> set (rv_granted s)" if "rv_pc s u = Got b x" for u b x using ok[of u] that by simp
  moreover have "rv_cur s + b > rv_end s" if "rv_pc s u = Full b" for u b using ok[of u] that t(3) by simp
  ultimately show ?thesis using t(2) by blast
qed

definition demo_reserve :: "rpc \<Rightarrow> rpc \<Rightarrow> nat \<Rightarrow> (nat \<times> nat \<times> nat) list \<Rightarrow> reserve" where
  "demo_reserve p q c gs = \<lparr>rv_cur = c, rv_end = 40, rv_pc = (\<lambda>_. Idle)(0 := p, 1 := q), rv_granted = gs\<rparr>"

text \<open>Two threads race for the same 24 bytes; the loser retries and is refused.\<close>

lemma demo_pc:
  "pc_to 0 p' (demo_reserve p q c gs) = demo_reserve p' q c gs"
  "pc_to 1 q' (demo_reserve p q c gs) = demo_reserve p q' c gs"
  "rv_pc (demo_reserve p q c gs) 0 = p" "rv_pc (demo_reserve p q c gs) 1 = q"
  "rv_cur (demo_reserve p q c gs) = c" "rv_end (demo_reserve p q c gs) = 40"
  "(demo_reserve p q c gs)\<lparr>rv_cur := c', rv_granted := (0, x, b) # rv_granted (demo_reserve p q c gs)\<rparr> =
     demo_reserve p q c' ((0, x, b) # gs)"
  by (auto simp: pc_to_def demo_reserve_def fun_eq_iff)

lemma demo_race: "reach (rv_init 0 40) rv_step (demo_reserve (Got 24 0) (Full 24) 24 [(0, 0, 24)])"
proof -
  let ?s = "demo_reserve"
  have "?s Idle Idle 0 [] = \<lparr>rv_cur = 0, rv_end = 40, rv_pc = (\<lambda>_. Idle), rv_granted = []\<rparr>"
    by (auto simp: demo_reserve_def fun_eq_iff)
  then have 0: "reach (rv_init 0 40) rv_step (?s Idle Idle 0 [])" by (intro reach_init) (simp add: rv_init_def)
  have 1: "rv_step (?s Idle q 0 []) (?s (Try 24) q 0 [])" for q
    using rv_call[of "?s Idle q 0 []" 0 0 0 24] by (simp add: demo_pc)
  have 2: "rv_step (?s p Idle 0 []) (?s p (Try 24) 0 [])" for p
    using rv_call[of "?s p Idle 0 []" 1 0 0 24] by (simp only: demo_pc simp_thms)
  have 3: "rv_step (?s (Try 24) q 0 []) (?s (Loaded 24 0) q 0 [])" for q
    using rv_load[of "?s (Try 24) q 0 []" 0 24] by (simp only: demo_pc simp_thms)
  have 4: "rv_step (?s p (Try 24) c gs) (?s p (Loaded 24 c) c gs)" for p c gs
    using rv_load[of "?s p (Try 24) c gs" 1 24] by (simp only: demo_pc simp_thms)
  have 5: "rv_step (?s (Loaded 24 0) q 0 []) (?s (Got 24 0) q 24 [(0, 0, 24)])" for q
    using rv_swap[of "?s (Loaded 24 0) q 0 []" 0 24 0] by (simp add: demo_pc)
  have 6: "rv_step (?s p (Loaded 24 0) 24 gs) (?s p (Try 24) 24 gs)" for p gs
    using rv_retry[of "?s p (Loaded 24 0) 24 gs" 1 24 0] by (simp add: demo_pc(2,4,5,6)[unfolded One_nat_def])
  have 7: "rv_step (?s p (Loaded 24 24) 24 gs) (?s p (Full 24) 24 gs)" for p gs
    using rv_full[of "?s p (Loaded 24 24) 24 gs" 1 24 24] by (simp add: demo_pc(2,4,5,6)[unfolded One_nat_def])
  note 0
  from reach_step[OF this 1] have "reach (rv_init 0 40) rv_step (?s (Try 24) Idle 0 [])" .
  from reach_step[OF this 2] have "reach (rv_init 0 40) rv_step (?s (Try 24) (Try 24) 0 [])" .
  from reach_step[OF this 3] have "reach (rv_init 0 40) rv_step (?s (Loaded 24 0) (Try 24) 0 [])" .
  from reach_step[OF this 4] have "reach (rv_init 0 40) rv_step (?s (Loaded 24 0) (Loaded 24 0) 0 [])" .
  from reach_step[OF this 5] have "reach (rv_init 0 40) rv_step (?s (Got 24 0) (Loaded 24 0) 24 [(0, 0, 24)])" .
  from reach_step[OF this 6] have "reach (rv_init 0 40) rv_step (?s (Got 24 0) (Try 24) 24 [(0, 0, 24)])" .
  from reach_step[OF this 4] have "reach (rv_init 0 40) rv_step (?s (Got 24 0) (Loaded 24 24) 24 [(0, 0, 24)])" .
  from reach_step[OF this 7] show ?thesis .
qed

theorem reservations_disjoint_witness:
  "reach (rv_init 0 40) rv_step (demo_reserve (Got 24 0) (Full 24) 24 [(0, 0, 24)]) \<and> (24::nat) + 24 > 40"
  using reservations_disjoint[OF demo_race] demo_race by (simp add: demo_reserve_def)

end
