(* ===== verification/Sched_Latency.thy ===== *)
theory Sched_Latency
  imports Complex_Main Tsc_Log
begin

text \<open>
  The context-switch benchmark (\<open>scheduler_latency/tester.c\<close>): two threads that wake each other
  through two eventfds and log time stamps, and the table of latencies computed from the two logs.
  The threads are a step system over the two counters and a clock; \<open>n\<close> is the number of rounds.
\<close>

section \<open>The log of a thread\<close>

definition L1_CACHE_BYTES :: nat where "L1_CACHE_BYTES = 64"

text \<open>
  \<open>init_logger\<close>: \<open>mem\<close> is the address \<open>calloc\<close> returned (\<open>None\<close>: out of memory).  The result is the
  address of the log and the log; \<open>x & ~63\<close> is \<open>x div 64 * 64\<close>.  The header is \<open>L1_CACHE_BYTES\<close> long.
\<close>

definition log_size :: "nat \<Rightarrow> nat" where
  "log_size cnt = 2 * cnt * TscLogEntrySize 1"

definition log_request :: "nat \<Rightarrow> nat" where
  "log_request cnt = L1_CACHE_BYTES + log_size cnt + L1_CACHE_BYTES"

definition init_logger :: "nat \<Rightarrow> nat option \<Rightarrow> (nat \<times> tsc_log) res" where
  "init_logger cnt mem =
     (case mem of None \<Rightarrow> Inl (Exit 1)
      | Some a \<Rightarrow>
          let lg = (if a mod L1_CACHE_BYTES \<noteq> 0
                     then (a + L1_CACHE_BYTES) div L1_CACHE_BYTES * L1_CACHE_BYTES else a);
              cur = lg + L1_CACHE_BYTES
          in Inr (lg, \<lparr>tl_cur = cur, tl_end = cur + log_size cnt, tl_overflow = False, tl_mem = (\<lambda>_. 0)\<rparr>))"

section \<open>Sleeper and waker\<close>

definition READ :: nat where "READ = 0"
definition WRITE :: nat where "WRITE = 1"

text \<open>Where a thread is in the body of its loop, and in which iteration.\<close>

datatype s_phase = S_Read | S_Log_Read | S_Log_Write | S_Write
datatype w_phase = W_Log_Write | W_Write | W_Read | W_Log_Read

record pingpong =
  pp_efd1 :: nat
  pp_efd2 :: nat
  pp_clock :: nat
  pp_si :: nat
  pp_sp :: s_phase
  pp_wi :: nat
  pp_wp :: w_phase
  pp_slog :: "(nat \<times> nat) list"
  pp_wlog :: "(nat \<times> nat) list"

text \<open>
  One step of a thread; \<open>d\<close> is how long it takes.  Reading an eventfd blocks while its counter is 0
  and clears it, writing adds to it.  \<open>add_read\<close> and \<open>add_write\<close> stamp with the clock.
\<close>

definition tick :: "nat \<Rightarrow> pingpong \<Rightarrow> pingpong" where
  "tick d s = s\<lparr>pp_clock := pp_clock s + 1 + d\<rparr>"

inductive pp_step :: "nat \<Rightarrow> pingpong \<Rightarrow> pingpong \<Rightarrow> bool" for n where
  s_read: "pp_sp s = S_Read \<Longrightarrow> pp_si s < n \<Longrightarrow> 0 < pp_efd1 s \<Longrightarrow>
    pp_step n s (tick d (s\<lparr>pp_sp := S_Log_Read, pp_efd1 := 0\<rparr>))"
| s_log_read: "pp_sp s = S_Log_Read \<Longrightarrow>
    pp_step n s (tick d (s\<lparr>pp_sp := S_Log_Write, pp_slog := pp_slog s @ [(READ, pp_clock s)]\<rparr>))"
| s_log_write: "pp_sp s = S_Log_Write \<Longrightarrow>
    pp_step n s (tick d (s\<lparr>pp_sp := S_Write, pp_slog := pp_slog s @ [(WRITE, pp_clock s)]\<rparr>))"
| s_write: "pp_sp s = S_Write \<Longrightarrow>
    pp_step n s (tick d (s\<lparr>pp_sp := S_Read, pp_si := pp_si s + 1, pp_efd2 := pp_efd2 s + 1\<rparr>))"
| w_log_write: "pp_wp s = W_Log_Write \<Longrightarrow> pp_wi s < n \<Longrightarrow>
    pp_step n s (tick d (s\<lparr>pp_wp := W_Write, pp_wlog := pp_wlog s @ [(WRITE, pp_clock s)]\<rparr>))"
| w_write: "pp_wp s = W_Write \<Longrightarrow>
    pp_step n s (tick d (s\<lparr>pp_wp := W_Read, pp_efd1 := pp_efd1 s + 1\<rparr>))"
| w_read: "pp_wp s = W_Read \<Longrightarrow> 0 < pp_efd2 s \<Longrightarrow>
    pp_step n s (tick d (s\<lparr>pp_wp := W_Log_Read, pp_efd2 := 0\<rparr>))"
| w_log_read: "pp_wp s = W_Log_Read \<Longrightarrow>
    pp_step n s (tick d (s\<lparr>pp_wp := W_Log_Write, pp_wi := pp_wi s + 1,
                           pp_wlog := pp_wlog s @ [(READ, pp_clock s)]\<rparr>))"

definition pp_init :: "pingpong \<Rightarrow> bool" where
  "pp_init s \<longleftrightarrow> (\<exists>t. s = \<lparr>pp_efd1 = 0, pp_efd2 = 0, pp_clock = t, pp_si = 0, pp_sp = S_Read,
     pp_wi = 0, pp_wp = W_Log_Write, pp_slog = [], pp_wlog = []\<rparr>)"

definition pp_done :: "nat \<Rightarrow> pingpong \<Rightarrow> bool" where
  "pp_done n s \<longleftrightarrow> pp_sp s = S_Read \<and> pp_si s = n \<and> pp_wp s = W_Log_Write \<and> pp_wi s = n"

subsection \<open>Lockstep\<close>

text \<open>The joint positions that occur, with the counters they leave.\<close>

definition lockstep :: "pingpong \<Rightarrow> bool" where
  "lockstep s \<longleftrightarrow>
     (case pp_wp s of
        W_Log_Write \<Rightarrow> pp_sp s = S_Read \<and> pp_si s = pp_wi s \<and> pp_efd1 s = 0 \<and> pp_efd2 s = 0
      | W_Write \<Rightarrow> pp_sp s = S_Read \<and> pp_si s = pp_wi s \<and> pp_efd1 s = 0 \<and> pp_efd2 s = 0
      | W_Read \<Rightarrow>
          (pp_sp s = S_Read \<and> pp_si s = pp_wi s \<and> pp_efd1 s = 1 \<and> pp_efd2 s = 0) \<or>
          (pp_sp s \<noteq> S_Read \<and> pp_si s = pp_wi s \<and> pp_efd1 s = 0 \<and> pp_efd2 s = 0) \<or>
          (pp_sp s = S_Read \<and> pp_si s = pp_wi s + 1 \<and> pp_efd1 s = 0 \<and> pp_efd2 s = 1)
      | W_Log_Read \<Rightarrow> pp_sp s = S_Read \<and> pp_si s = pp_wi s + 1 \<and> pp_efd1 s = 0 \<and> pp_efd2 s = 0)"

definition s_logged :: "pingpong \<Rightarrow> nat" where
  "s_logged s = 2 * pp_si s + (case pp_sp s of S_Log_Write \<Rightarrow> 1 | S_Write \<Rightarrow> 2 | _ \<Rightarrow> 0)"

definition w_logged :: "pingpong \<Rightarrow> nat" where
  "w_logged s = 2 * pp_wi s + (case pp_wp s of W_Log_Write \<Rightarrow> 0 | _ \<Rightarrow> 1)"

definition kinds :: "nat \<Rightarrow> nat \<Rightarrow> (nat \<times> nat) list \<Rightarrow> bool" where
  "kinds a b l \<longleftrightarrow> (\<forall>j < length l. fst (l ! j) = (if even j then a else b))"

definition ordered :: "(nat \<times> nat) list \<Rightarrow> (nat \<times> nat) list \<Rightarrow> bool" where
  "ordered sl wl \<longleftrightarrow> (\<forall>j < length sl. j < length wl \<longrightarrow>
     (if even j then snd (wl ! j) < snd (sl ! j) else snd (sl ! j) < snd (wl ! j)))"

definition pp_inv :: "nat \<Rightarrow> pingpong \<Rightarrow> bool" where
  "pp_inv n s \<longleftrightarrow> lockstep s \<and> pp_wi s \<le> n \<and> (pp_wp s \<noteq> W_Log_Write \<longrightarrow> pp_wi s < n) \<and>
     length (pp_slog s) = s_logged s \<and> length (pp_wlog s) = w_logged s \<and>
     kinds READ WRITE (pp_slog s) \<and> kinds WRITE READ (pp_wlog s) \<and>
     ordered (pp_slog s) (pp_wlog s) \<and>
     (\<forall>x \<in> set (pp_slog s) \<union> set (pp_wlog s). snd x < pp_clock s)"

lemma kinds_append: "kinds a b l \<Longrightarrow> k = (if even (length l) then a else b) \<Longrightarrow> kinds a b (l @ [(k, t)])"
  by (auto simp: kinds_def nth_append less_Suc_eq)

lemma ordered_s:
  assumes "ordered sl wl" "even (length sl) \<longrightarrow> (\<forall>x \<in> set wl. snd x < t)" "odd (length sl) \<longrightarrow> length wl \<le> length sl"
  shows "ordered (sl @ [(k, t)]) wl"
  using assms unfolding ordered_def
  by (auto simp: nth_append less_Suc_eq)

lemma ordered_w:
  assumes "ordered sl wl" "odd (length wl) \<longrightarrow> (\<forall>x \<in> set sl. snd x < t)" "even (length wl) \<longrightarrow> length sl \<le> length wl"
  shows "ordered sl (wl @ [(k, t)])"
  using assms unfolding ordered_def
  by (auto simp: nth_append less_Suc_eq)

lemma tick_simps [simp]:
  "pp_efd1 (tick d s) = pp_efd1 s" "pp_efd2 (tick d s) = pp_efd2 s" "pp_si (tick d s) = pp_si s"
  "pp_sp (tick d s) = pp_sp s" "pp_wi (tick d s) = pp_wi s" "pp_wp (tick d s) = pp_wp s"
  "pp_slog (tick d s) = pp_slog s" "pp_wlog (tick d s) = pp_wlog s" "pp_clock (tick d s) = pp_clock s + 1 + d"
  by (simp_all add: tick_def)

lemma lockstep_tick [simp]: "lockstep (tick d s) = lockstep s"
  "s_logged (tick d s) = s_logged s" "w_logged (tick d s) = w_logged s"
  unfolding lockstep_def s_logged_def w_logged_def tick_simps by (rule refl)+

subsection \<open>The invariant is kept\<close>

lemma pp_inv_clock: "pp_inv n s \<Longrightarrow> x \<in> set (pp_slog s) \<union> set (pp_wlog s) \<Longrightarrow> snd x < pp_clock s"
  by (simp add: pp_inv_def)

lemma pp_inv_tick: "pp_inv n s \<Longrightarrow> pp_inv n (tick d s)"
proof -
  assume inv: "pp_inv n s"
  have "snd x < pp_clock s + 1 + d" if "x \<in> set (pp_slog s) \<union> set (pp_wlog s)" for x
    using pp_inv_clock[OF inv that] by simp
  then show ?thesis using inv
    by (simp add: pp_inv_def)
qed

lemma pp_log_s:
  assumes inv: "pp_inv n s" and ph: "pp_sp s = S_Log_Read \<and> p = S_Log_Write \<and> k = READ \<or>
      pp_sp s = S_Log_Write \<and> p = S_Write \<and> k = WRITE"
  shows "pp_inv n (tick d (s\<lparr>pp_sp := p, pp_slog := pp_slog s @ [(k, pp_clock s)]\<rparr>))"
proof -
  let ?t = "s\<lparr>pp_sp := p, pp_slog := pp_slog s @ [(k, pp_clock s)]\<rparr>"
  have wr: "pp_wp s = W_Read" "pp_si s = pp_wi s" "pp_efd1 s = 0" "pp_efd2 s = 0"
    using inv ph by (auto simp: pp_inv_def lockstep_def split: w_phase.splits)
  have lens: "length (pp_slog s) = s_logged s" "length (pp_wlog s) = w_logged s" using inv by (simp_all add: pp_inv_def)
  have "kinds READ WRITE (pp_slog s @ [(k, pp_clock s)])"
    by (rule kinds_append) (use inv ph lens in \<open>auto simp: pp_inv_def s_logged_def\<close>)
  moreover have "ordered (pp_slog s @ [(k, pp_clock s)]) (pp_wlog s)"
    by (rule ordered_s) (use inv ph lens wr in \<open>auto simp: pp_inv_def s_logged_def w_logged_def\<close>)
  ultimately have kd: "kinds READ WRITE (pp_slog ?t)" "ordered (pp_slog ?t) (pp_wlog ?t)" by simp_all
  have lk: "lockstep (tick d ?t)" using wr ph by (auto simp: lockstep_def)
  have ln: "length (pp_slog ?t) = s_logged (tick d ?t)" "length (pp_wlog ?t) = w_logged (tick d ?t)"
    using lens ph wr by (auto simp: s_logged_def w_logged_def)
  have "snd x < pp_clock s + 1 + d" if "x \<in> set (pp_slog ?t) \<union> set (pp_wlog ?t)" for x
    using pp_inv_clock[OF inv, of x] that by auto
  then show ?thesis using inv kd lk ln by (simp add: pp_inv_def)
qed

lemma pp_log_w:
  assumes inv: "pp_inv n s" and ph: "pp_wp s = W_Log_Write \<and> pp_wi s < n \<and> p = W_Write \<and> k = WRITE \<and> i = pp_wi s \<or>
      pp_wp s = W_Log_Read \<and> p = W_Log_Write \<and> k = READ \<and> i = pp_wi s + 1"
  shows "pp_inv n (tick d (s\<lparr>pp_wp := p, pp_wi := i, pp_wlog := pp_wlog s @ [(k, pp_clock s)]\<rparr>))"
proof -
  let ?t = "s\<lparr>pp_wp := p, pp_wi := i, pp_wlog := pp_wlog s @ [(k, pp_clock s)]\<rparr>"
  have wr: "pp_sp s = S_Read" "pp_efd1 s = 0" "pp_efd2 s = 0"
    "pp_si s = (if pp_wp s = W_Log_Write then pp_wi s else pp_wi s + 1)"
    using inv ph by (auto simp: pp_inv_def lockstep_def)
  have lens: "length (pp_slog s) = s_logged s" "length (pp_wlog s) = w_logged s" using inv by (simp_all add: pp_inv_def)
  have "kinds WRITE READ (pp_wlog s @ [(k, pp_clock s)])"
    by (rule kinds_append) (use inv ph lens in \<open>auto simp: pp_inv_def w_logged_def\<close>)
  moreover have "ordered (pp_slog s) (pp_wlog s @ [(k, pp_clock s)])"
    by (rule ordered_w) (use inv ph lens wr in \<open>auto simp: pp_inv_def s_logged_def w_logged_def\<close>)
  ultimately have kd: "kinds WRITE READ (pp_wlog ?t)" "ordered (pp_slog ?t) (pp_wlog ?t)" by simp_all
  have lk: "lockstep (tick d ?t)" using wr ph by (auto simp: lockstep_def)
  have ln: "length (pp_slog ?t) = s_logged (tick d ?t)" "length (pp_wlog ?t) = w_logged (tick d ?t)"
    using lens ph wr by (auto simp: s_logged_def w_logged_def)
  have lt: "i \<le> n \<and> (p \<noteq> W_Log_Write \<longrightarrow> i < n)" using inv ph by (auto simp: pp_inv_def)
  have "snd x < pp_clock s + 1 + d" if "x \<in> set (pp_slog ?t) \<union> set (pp_wlog ?t)" for x
    using pp_inv_clock[OF inv, of x] that by auto
  then show ?thesis using inv kd lk ln lt by (simp add: pp_inv_def)
qed

text \<open>The steps that only move a thread and a counter.\<close>

lemma pp_move:
  assumes inv: "pp_inv n s" and m: "lockstep t" "s_logged t = s_logged s" "w_logged t = w_logged s"
    and eq: "pp_slog t = pp_slog s" "pp_wlog t = pp_wlog s" "pp_clock t = pp_clock s" "pp_wi t = pp_wi s"
    and w: "pp_wp t \<noteq> W_Log_Write \<longrightarrow> pp_wp s \<noteq> W_Log_Write"
  shows "pp_inv n (tick d t)"
  by (rule pp_inv_tick) (use inv m eq w in \<open>simp add: pp_inv_def\<close>)

lemma pp_inv_step:
  assumes inv: "pp_inv n s" and st: "pp_step n s t"
  shows "pp_inv n t"
proof -
  have lk: "lockstep s" using inv by (simp add: pp_inv_def)
  from st show ?thesis
  proof cases
    case (s_read d)
    show ?thesis unfolding s_read(1)
      by (rule pp_move[OF inv]) (use lk s_read in \<open>auto simp: lockstep_def s_logged_def w_logged_def split: w_phase.splits\<close>)
  next
    case (s_log_read d)
    then show ?thesis using pp_log_s[OF inv, of S_Log_Write READ d] by simp
  next
    case (s_log_write d)
    then show ?thesis using pp_log_s[OF inv, of S_Write WRITE d] by simp
  next
    case (s_write d)
    show ?thesis unfolding s_write(1)
      by (rule pp_move[OF inv]) (use lk s_write in \<open>auto simp: lockstep_def s_logged_def w_logged_def split: w_phase.splits\<close>)
  next
    case (w_log_write d)
    then show ?thesis using pp_log_w[OF inv, of W_Write WRITE "pp_wi s" d] by simp
  next
    case (w_write d)
    show ?thesis unfolding w_write(1)
      by (rule pp_move[OF inv]) (use lk w_write in \<open>auto simp: lockstep_def s_logged_def w_logged_def\<close>)
  next
    case (w_read d)
    show ?thesis unfolding w_read(1)
      by (rule pp_move[OF inv]) (use lk w_read in \<open>auto simp: lockstep_def s_logged_def w_logged_def\<close>)
  next
    case (w_log_read d)
    then show ?thesis using pp_log_w[OF inv, of W_Log_Write READ "pp_wi s + 1" d] by simp
  qed
qed

lemma pp_inv_init: "pp_init s \<Longrightarrow> pp_inv n s"
  by (auto simp: pp_init_def pp_inv_def lockstep_def s_logged_def w_logged_def kinds_def ordered_def)

subsection \<open>Progress\<close>

definition pp_left :: "nat \<Rightarrow> pingpong \<Rightarrow> nat" where
  "pp_left n s = 8 * n - (4 * pp_si s + (case pp_sp s of S_Read \<Rightarrow> 0 | S_Log_Read \<Rightarrow> 1 | S_Log_Write \<Rightarrow> 2 | S_Write \<Rightarrow> 3)
     + 4 * pp_wi s + (case pp_wp s of W_Log_Write \<Rightarrow> 0 | W_Write \<Rightarrow> 1 | W_Read \<Rightarrow> 2 | W_Log_Read \<Rightarrow> 3))"

lemma pp_step_left:
  assumes inv: "pp_inv n s" and st: "pp_step n s t"
  shows "pp_left n t < pp_left n s"
proof -
  have lk: "lockstep s" "pp_wi s \<le> n" "pp_wp s \<noteq> W_Log_Write \<longrightarrow> pp_wi s < n" using inv by (simp_all add: pp_inv_def)
  from st show ?thesis
    by cases (use lk in \<open>auto simp: pp_left_def lockstep_def split: w_phase.splits s_phase.splits\<close>)
qed

lemma pp_no_deadlock:
  assumes inv: "pp_inv n s" and stuck: "\<And>t. \<not> pp_step n s t"
  shows "pp_done n s"
proof -
  have lk: "lockstep s" "pp_wi s \<le> n" "pp_wp s \<noteq> W_Log_Write \<longrightarrow> pp_wi s < n" using inv by (simp_all add: pp_inv_def)
  have no: "pp_sp s \<noteq> S_Log_Read" "pp_sp s \<noteq> S_Log_Write" "pp_sp s \<noteq> S_Write" "pp_wp s \<noteq> W_Write"
    "pp_wp s \<noteq> W_Log_Read" "\<not> (pp_wp s = W_Log_Write \<and> pp_wi s < n)" "\<not> (pp_wp s = W_Read \<and> 0 < pp_efd2 s)"
    "\<not> (pp_sp s = S_Read \<and> pp_si s < n \<and> 0 < pp_efd1 s)"
    using stuck s_log_read[of s n 0] s_log_write[of s n 0] s_write[of s n 0] w_write[of s n 0] w_log_read[of s n 0]
      w_log_write[of s n 0] w_read[of s n 0] s_read[of s n 0] by metis+
  then have "pp_sp s = S_Read" by (cases "pp_sp s") auto
  then show ?thesis using lk no by (cases "pp_wp s") (auto simp: lockstep_def pp_done_def)
qed

interpretation pp: live_system pp_init "pp_step n" "pp_inv n" "pp_step n" "pp_left n" "pp_done n" for n
  by unfold_locales (assumption | (rule pp_inv_init pp_inv_step pp_step_left pp_no_deadlock; assumption))+

section \<open>The table of latencies\<close>

text \<open>
  The loop of \<open>write_times\<close> over the entries of both logs, as (\<open>values[0]\<close>, \<open>tsc\<close>); it stops at the
  end of either.  The quotient is computed in \<open>double\<close> there and is exact here.
\<close>

fun latencies :: "(u64 \<times> u64) list \<Rightarrow> (u64 \<times> u64) list \<Rightarrow> u64 list" where
  "latencies (sc # sl) (wc # wl) =
     (if fst sc = word_of_nat READ then snd sc - snd wc else snd wc - snd sc) # latencies sl wl"
| "latencies _ _ = []"

definition write_times :: "rat \<Rightarrow> (u64 \<times> u64) list \<Rightarrow> (u64 \<times> u64) list \<Rightarrow> rat list" where
  "write_times tsc_khz sl wl = map (\<lambda>l. of_nat (unat (l * 1000)) / tsc_khz) (latencies sl wl)"

text \<open>The entries of a thread's log, as the words that are stored.\<close>

definition stored :: "(nat \<times> nat) list \<Rightarrow> (u64 \<times> u64) list" where
  "stored = map (\<lambda>(k, t). (word_of_nat k, word_of_nat t))"

lemma length_latencies: "length (latencies sl wl) = min (length sl) (length wl)"
  by (induction sl wl rule: latencies.induct) auto

lemma latencies_nth:
  "j < length sl \<Longrightarrow> j < length wl \<Longrightarrow> latencies sl wl ! j =
     (if fst (sl ! j) = word_of_nat READ then snd (sl ! j) - snd (wl ! j) else snd (wl ! j) - snd (sl ! j))"
proof (induction sl wl arbitrary: j rule: latencies.induct)
  case (1 sc sl wc wl)
  then show ?case by (cases j) auto
qed auto

lemma word_diff_nat: "b \<le> a \<Longrightarrow> (word_of_nat a :: u64) - word_of_nat b = word_of_nat (a - b)"
  by (simp add: of_nat_diff)

section \<open>The whole benchmark\<close>

text \<open>
  \<open>main\<close>: the pairs of processors measured, in order, and the file each table goes to.  The clock
  frequency given in MHz is turned into kHz.
\<close>

definition bench_plan :: "string list \<Rightarrow> (int \<times> int \<times> string) list option" where
  "bench_plan argv =
     (if length argv < 6 then None
      else let base = strtol10 (argv ! 1); core = strtol10 (argv ! 2); socket = strtol10 (argv ! 3)
           in Some [(base, base, ''same_core.csv''), (base, core, ''same_socket.csv''), (base, socket, ''cross_socket.csv'')])"

section \<open>Properties\<close>

text \<open>
  C33: The ping-pong always completes: from every reachable state of the two threads, their steps
  come to an end, a state where neither can step is the one where both have finished all \<open>n\<close> rounds,
  and such a state is reached.
\<close>

theorem pingpong_completes:
  assumes "reach pp_init (pp_step n) s"
  shows "(\<exists>t. (pp_step n)\<^sup>*\<^sup>* s t \<and> pp_done n t) \<and> ((\<forall>t. \<not> pp_step n s t) \<longrightarrow> pp_done n s) \<and>
    (\<forall>t. pp_step n s t \<longrightarrow> pp_left n t < pp_left n s)"
  using pp.runs_to_end pp_no_deadlock pp_step_left pp.reach_inv[OF assms] by blast

definition pp_start :: pingpong where
  "pp_start = \<lparr>pp_efd1 = 0, pp_efd2 = 0, pp_clock = 5, pp_si = 0, pp_sp = S_Read,
     pp_wi = 0, pp_wp = W_Log_Write, pp_slog = [], pp_wlog = []\<rparr>"

lemma pp_start_reach: "reach pp_init (pp_step n) pp_start"
  by (rule reach_init) (auto simp: pp_init_def pp_start_def)

theorem pingpong_completes_witness:
  "\<exists>t. (pp_step 3)\<^sup>*\<^sup>* pp_start t \<and> pp_done 3 t"
  using pingpong_completes[OF pp_start_reach] by blast

text \<open>A difference of two stamps in microseconds, far from wrapping.\<close>

lemma unat_times_1000:
  assumes "d * 1000 < 2 ^ 64" shows "unat ((word_of_nat d :: u64) * 1000) = d * 1000"
proof -
  have "(word_of_nat d :: u64) * 1000 = word_of_nat (d * 1000)" by simp
  then show ?thesis using assms by (simp add: unsigned_of_nat take_bit_nat_eq_self del: of_nat_mult)
qed

lemma latency_row:
  assumes len: "length sl = length wl" "j < length sl" and ab: "sl ! j = (ka, ta)" "wl ! j = (kb, tb)"
    and k: "ka = (if even j then READ else WRITE)" and lt: "if even j then tb < ta else ta < tb"
    and clk: "ta \<le> clock" "tb \<le> clock" "clock * 1000 < 2 ^ 64"
  shows "write_times khz (stored sl) (stored wl) ! j = of_nat ((if even j then ta - tb else tb - ta) * 1000) / khz"
proof -
  have len': "length (stored l) = length l" for l by (simp add: stored_def)
  have nth: "stored sl ! j = (word_of_nat ka, word_of_nat ta)" "stored wl ! j = (word_of_nat kb, word_of_nat tb)"
    using len ab by (simp_all add: stored_def)
  have lat: "latencies (stored sl) (stored wl) ! j =
      (if word_of_nat ka = (word_of_nat READ :: u64) then word_of_nat ta - word_of_nat tb else word_of_nat tb - word_of_nat ta)"
    using len by (simp add: latencies_nth len' nth)
  have ne: "(word_of_nat WRITE :: u64) \<noteq> word_of_nat READ" by (simp add: READ_def WRITE_def)
  define d where "d = (if even j then ta - tb else tb - ta)"
  have L: "latencies (stored sl) (stored wl) ! j = word_of_nat d"
  proof (cases "even j")
    case True
    then have e: "ka = READ" "tb \<le> ta" using k lt by simp_all
    have "d = ta - tb" using True by (simp add: d_def)
    then show ?thesis unfolding lat e(1) using word_diff_nat[OF e(2)] by simp
  next
    case False
    then have e: "ka = WRITE" "ta \<le> tb" using k lt by simp_all
    have "d = tb - ta" using False by (simp add: d_def)
    then show ?thesis unfolding lat e(1) if_not_P[OF ne] using word_diff_nat[OF e(2)] by simp
  qed
  have "d \<le> clock" using clk(1,2) by (auto simp: d_def intro: order_trans[OF diff_le_self])
  then have "d * 1000 < 2 ^ 64" using clk(3) by linarith
  note u = unat_times_1000[OF this]
  have "write_times khz (stored sl) (stored wl) ! j = of_nat (unat (latencies (stored sl) (stored wl) ! j * 1000)) / khz"
    using len by (simp add: write_times_def length_latencies len')
  then show ?thesis unfolding d_def[symmetric] L u .
qed

text \<open>
  The table is right: when both threads are done there are \<open>2n\<close> rows, row \<open>j\<close> pairs a write stamp
  of one thread with the later read stamp of the other (the waker's write with the sleeper's read in
  even rows, the sleeper's write with the waker's read in odd ones), and as long as the clock is far
  from wrapping the row is exactly that positive difference in microseconds.
\<close>

theorem latency_table_correct:
  assumes "reach pp_init (pp_step n) s" and "pp_done n s" and "pp_clock s * 1000 < 2 ^ 64"
  shows "length (write_times khz (stored (pp_slog s)) (stored (pp_wlog s))) = 2 * n \<and>
    (\<forall>j < 2 * n.
       (let (rd, wr) = (if even j then (pp_slog s ! j, pp_wlog s ! j) else (pp_wlog s ! j, pp_slog s ! j)) in
        fst rd = READ \<and> fst wr = WRITE \<and> snd wr < snd rd \<and>
        write_times khz (stored (pp_slog s)) (stored (pp_wlog s)) ! j = of_nat ((snd rd - snd wr) * 1000) / khz))"
proof -
  have inv: "pp_inv n s" by (rule pp.reach_inv[OF assms(1)])
  have len: "length (pp_slog s) = 2 * n" "length (pp_wlog s) = 2 * n"
    using inv assms(2) by (auto simp: pp_inv_def pp_done_def s_logged_def w_logged_def)
  have row: "let (rd, wr) = (if even j then (pp_slog s ! j, pp_wlog s ! j) else (pp_wlog s ! j, pp_slog s ! j)) in
        fst rd = READ \<and> fst wr = WRITE \<and> snd wr < snd rd \<and>
        write_times khz (stored (pp_slog s)) (stored (pp_wlog s)) ! j = of_nat ((snd rd - snd wr) * 1000) / khz"
    if j: "j < 2 * n" for j
  proof -
    obtain ka ta kb tb where ab: "pp_slog s ! j = (ka, ta)" "pp_wlog s ! j = (kb, tb)"
      by (cases "pp_slog s ! j", cases "pp_wlog s ! j")
    have k: "ka = (if even j then READ else WRITE)" "kb = (if even j then WRITE else READ)"
      "if even j then tb < ta else ta < tb"
      using inv j len ab by (auto simp: pp_inv_def kinds_def ordered_def)
    have "(ka, ta) \<in> set (pp_slog s)" "(kb, tb) \<in> set (pp_wlog s)" using j len ab by (metis nth_mem)+
    then have "ta \<le> pp_clock s" "tb \<le> pp_clock s" using pp_inv_clock[OF inv] by fastforce+
    from latency_row[OF _ _ ab k(1,3) this assms(3)] show ?thesis using j len k ab by simp
  qed
  moreover have "length (write_times khz (stored (pp_slog s)) (stored (pp_wlog s))) = 2 * n"
    using len by (simp add: write_times_def length_latencies stored_def)
  ultimately show ?thesis by blast
qed

text \<open>One round in eight steps of one tick each.\<close>

definition pp_end :: pingpong where
  "pp_end = \<lparr>pp_efd1 = 0, pp_efd2 = 0, pp_clock = 13, pp_si = 1, pp_sp = S_Read,
     pp_wi = 1, pp_wp = W_Log_Write, pp_slog = [(0, 8), (1, 9)], pp_wlog = [(1, 5), (0, 12)]\<rparr>"

definition pp_at :: "nat \<Rightarrow> nat \<Rightarrow> nat \<Rightarrow> nat \<Rightarrow> s_phase \<Rightarrow> nat \<Rightarrow> w_phase \<Rightarrow> (nat \<times> nat) list \<Rightarrow> (nat \<times> nat) list \<Rightarrow> pingpong" where
  "pp_at e1 e2 c i p j q sl wl = \<lparr>pp_efd1 = e1, pp_efd2 = e2, pp_clock = c, pp_si = i, pp_sp = p,
     pp_wi = j, pp_wp = q, pp_slog = sl, pp_wlog = wl\<rparr>"

lemma pp_end_reach: "reach pp_init (pp_step 1) pp_end"
proof -
  have 0: "pp_start = pp_at 0 0 5 0 S_Read 0 W_Log_Write [] []" by (simp add: pp_at_def pp_start_def)
  have 1: "pp_step 1 (pp_at 0 0 5 0 S_Read 0 W_Log_Write [] []) (pp_at 0 0 6 0 S_Read 0 W_Write [] [(1, 5)])"
    using w_log_write[of "pp_at 0 0 5 0 S_Read 0 W_Log_Write [] []" 1 0] by (simp add: pp_at_def tick_def WRITE_def)
  have 2: "pp_step 1 (pp_at 0 0 6 0 S_Read 0 W_Write [] [(1, 5)]) (pp_at 1 0 7 0 S_Read 0 W_Read [] [(1, 5)])"
    using w_write[of "pp_at 0 0 6 0 S_Read 0 W_Write [] [(1, 5)]" 1 0] by (simp add: pp_at_def tick_def)
  have 3: "pp_step 1 (pp_at 1 0 7 0 S_Read 0 W_Read [] [(1, 5)]) (pp_at 0 0 8 0 S_Log_Read 0 W_Read [] [(1, 5)])"
    using s_read[of "pp_at 1 0 7 0 S_Read 0 W_Read [] [(1, 5)]" 1 0] by (simp add: pp_at_def tick_def)
  have 4: "pp_step 1 (pp_at 0 0 8 0 S_Log_Read 0 W_Read [] [(1, 5)]) (pp_at 0 0 9 0 S_Log_Write 0 W_Read [(0, 8)] [(1, 5)])"
    using s_log_read[of "pp_at 0 0 8 0 S_Log_Read 0 W_Read [] [(1, 5)]" 1 0] by (simp add: pp_at_def tick_def READ_def)
  have 5: "pp_step 1 (pp_at 0 0 9 0 S_Log_Write 0 W_Read [(0, 8)] [(1, 5)]) (pp_at 0 0 10 0 S_Write 0 W_Read [(0, 8), (1, 9)] [(1, 5)])"
    using s_log_write[of "pp_at 0 0 9 0 S_Log_Write 0 W_Read [(0, 8)] [(1, 5)]" 1 0] by (simp add: pp_at_def tick_def WRITE_def)
  have 6: "pp_step 1 (pp_at 0 0 10 0 S_Write 0 W_Read [(0, 8), (1, 9)] [(1, 5)]) (pp_at 0 1 11 1 S_Read 0 W_Read [(0, 8), (1, 9)] [(1, 5)])"
    using s_write[of "pp_at 0 0 10 0 S_Write 0 W_Read [(0, 8), (1, 9)] [(1, 5)]" 1 0] by (simp add: pp_at_def tick_def)
  have 7: "pp_step 1 (pp_at 0 1 11 1 S_Read 0 W_Read [(0, 8), (1, 9)] [(1, 5)]) (pp_at 0 0 12 1 S_Read 0 W_Log_Read [(0, 8), (1, 9)] [(1, 5)])"
    using w_read[of "pp_at 0 1 11 1 S_Read 0 W_Read [(0, 8), (1, 9)] [(1, 5)]" 1 0] by (simp add: pp_at_def tick_def)
  have 8: "pp_step 1 (pp_at 0 0 12 1 S_Read 0 W_Log_Read [(0, 8), (1, 9)] [(1, 5)]) pp_end"
    using w_log_read[of "pp_at 0 0 12 1 S_Read 0 W_Log_Read [(0, 8), (1, 9)] [(1, 5)]" 1 0]
    by (simp add: pp_at_def tick_def READ_def pp_end_def)
  show ?thesis
    by (rule reach_step[OF reach_step[OF reach_step[OF reach_step[OF reach_step[OF reach_step[OF reach_step[OF
        reach_step[OF pp_start_reach[unfolded 0] 1] 2] 3] 4] 5] 6] 7] 8])
qed

theorem latency_table_correct_witness:
  "write_times 1000 (stored (pp_slog pp_end)) (stored (pp_wlog pp_end)) ! 1 = 3"
proof -
  have d: "pp_done 1 pp_end" by (simp add: pp_done_def pp_end_def)
  have c: "pp_clock pp_end * 1000 < 2 ^ 64" by (simp add: pp_end_def)
  have "1 < 2 * (1::nat)" by simp
  from latency_table_correct[OF pp_end_reach d c, of 1000, THEN conjunct2, rule_format, OF this]
  show ?thesis by (simp add: pp_end_def READ_def WRITE_def)
qed

text \<open>
  \<open>init_logger\<close> places the log on a cache-line boundary, header and entries inside the memory it
  asked \<open>calloc\<close> for, and exactly large enough for a thread that runs all its rounds: logging
  \<open>2 cnt\<close> records overflows nothing, and the log decodes to all of them.
\<close>

theorem init_logger_fits:
  assumes "init_logger cnt (Some a) = Inr (lg, l)" and "length rs = 2 * cnt" and "\<forall>r \<in> set rs. length (snd r) = 1"
  shows "a \<le> lg \<and> lg mod L1_CACHE_BYTES = 0 \<and> tl_end l \<le> a + log_request cnt \<and>
    \<not> tl_overflow (log_all 1 rs l) \<and>
    read_log 1 (2 * cnt) (lg + L1_CACHE_BYTES) (tl_mem (log_all 1 rs l)) = map entry_of rs"
proof -
  have l: "tl_cur l = lg + L1_CACHE_BYTES" "tl_end l = lg + L1_CACHE_BYTES + 2 * cnt * TscLogEntrySize 1"
    "\<not> tl_overflow l" and log: "lg = (if a mod 64 \<noteq> 0 then (a + 64) div 64 * 64 else a)"
    using assms(1) by (auto simp: init_logger_def Let_def log_size_def L1_CACHE_BYTES_def split: if_splits)
  have "a \<le> lg \<and> lg mod 64 = 0 \<and> lg \<le> a + 64" unfolding log by presburger
  then have b: "a \<le> lg \<and> lg mod L1_CACHE_BYTES = 0 \<and> tl_end l \<le> a + log_request cnt"
    using l(2) by (simp add: log_request_def log_size_def L1_CACHE_BYTES_def)
  have "holds 1 (lg + L1_CACHE_BYTES) (2 * cnt) [] l" using l by (simp add: holds_def read_log_def)
  from log_all_holds[OF this _ assms(3)]
  have "read_log 1 (2 * cnt) (lg + L1_CACHE_BYTES) (tl_mem (log_all 1 rs l)) = map entry_of rs \<and>
      \<not> tl_overflow (log_all 1 rs l)"
    using assms(2) l(3) by (simp add: holds_def)
  then show ?thesis using b by simp
qed

theorem init_logger_fits_witness:
  "\<exists>lg l. init_logger 1 (Some 1008) = Inr (lg, l) \<and> lg = 1024 \<and>
     \<not> tl_overflow (log_all 1 [(demo_stamp, [0]), (demo_stamp, [1])] l)"
proof -
  obtain lg l where i: "init_logger 1 (Some 1008) = Inr (lg, l)" and "lg = 1024"
    by (simp add: init_logger_def Let_def L1_CACHE_BYTES_def)
  with init_logger_fits[OF i, of "[(demo_stamp, [0]), (demo_stamp, [1])]"] show ?thesis by simp
qed

end
