(* ===== verification/Echo_Epoll.thy ===== *)
theory Echo_Epoll
  imports Echo_Spec Worker_Setup
begin

text \<open>
  The echo server on epoll (\<open>event-tester/epoll.c\<close>), over the tables of Echo_Core.  The system calls
  are a record of functions on a kernel state; a handler that loops until the kernel is done with it
  is a partial function, and \<open>None\<close> means that it does not return.  The handlers are proved to
  implement the abstract echo server of Echo_Spec on the events the system calls report.
\<close>

section \<open>System calls\<close>

text \<open>A \<open>read\<close> of nothing is the end of the stream; \<open>Io_Again\<close> is \<open>EAGAIN\<close>, \<open>Io_Fail\<close> any other error.\<close>

datatype io_reply = Io_Bytes "byte list" | Io_Again | Io_Fail
datatype accept_reply = Acc_Conn int | Acc_Again | Acc_Fail
datatype event_reply = Ev_Count | Ev_Again | Ev_Fail
datatype epoll_reply = Ep_Events "(bool \<times> int) list" | Ep_Error

text \<open>
  \<open>es_cpu\<close> is the processor \<open>SO_INCOMING_CPU\<close> names, \<open>es_notify\<close> the write to the event descriptor of
  a thread, \<open>es_event\<close> the read of the own one.  A \<open>bool\<close> reply is whether the call succeeded; an
  event of \<open>epoll_wait\<close> is whether it has \<open>EPOLLERR\<close> or \<open>EPOLLHUP\<close>, and its descriptor.
\<close>

record 'k ep_sys =
  es_read :: "int \<Rightarrow> nat \<Rightarrow> 'k \<Rightarrow> io_reply \<times> 'k"
  es_write :: "int \<Rightarrow> byte list \<Rightarrow> 'k \<Rightarrow> int \<times> 'k"
  es_add :: "int \<Rightarrow> 'k \<Rightarrow> bool \<times> 'k"
  es_del :: "int \<Rightarrow> 'k \<Rightarrow> bool \<times> 'k"
  es_close :: "int \<Rightarrow> 'k \<Rightarrow> 'k"
  es_accept :: "int \<Rightarrow> 'k \<Rightarrow> accept_reply \<times> 'k"
  es_cpu :: "int \<Rightarrow> 'k \<Rightarrow> nat option \<times> 'k"
  es_notify :: "nat \<Rightarrow> 'k \<Rightarrow> bool \<times> 'k"
  es_event :: "'k \<Rightarrow> event_reply \<times> 'k"
  es_wait :: "'k \<Rightarrow> epoll_reply \<times> 'k"
  es_malloc :: "'k \<Rightarrow> bool \<times> 'k"
  es_calloc :: "'k \<Rightarrow> bool \<times> 'k"

section \<open>Closing\<close>

definition on_close_ep :: "'k ep_sys \<Rightarrow> nat option \<Rightarrow> echo \<Rightarrow> 'k \<Rightarrow> (echo \<times> 'k) res" where
  "on_close_ep sys p a k =
     rbind (deref p) (\<lambda>c.
     let closed_fd = cn_fd (conn a c) in
     rbind (set_conn_slot closed_fd None a) (\<lambda>a1.
     let (deleted, k1) = es_del sys closed_fd k in
     if \<not> deleted then Inl (Exit 1)
     else
       let k2 = es_close sys closed_fd k1;
           a2 = a1\<lparr>closed_fds := closed_fd # closed_fds a1, conn_count := conn_count a1 + 1\<rparr>
       in rbind (free_conn c a2) (\<lambda>a3. Inr (a3, k2))))"

section \<open>Reading and writing\<close>

text \<open>How the first loop of \<open>on_read\<close> ends, with its local cursor.\<close>

datatype read_end = R_Full | R_Eof | R_Wait

partial_function (option) read_loop ::
  "'k ep_sys \<Rightarrow> nat \<Rightarrow> nat \<Rightarrow> echo \<Rightarrow> 'k \<Rightarrow> (read_end \<times> nat \<times> echo \<times> 'k) res option" where
  "read_loop sys c cursor a k =
     (let (r, k1) = es_read sys (cn_fd (conn a c)) (msg_size a - cursor) k in
      case r of
        Io_Again \<Rightarrow> Some (Inr (R_Wait, cursor, a, k1))
      | Io_Fail \<Rightarrow> Some (Inr (R_Wait, cursor, a, k1))
      | Io_Bytes bs \<Rightarrow>
          if bs = [] then Some (Inr (R_Eof, cursor, a, k1))
          else (case store_msg (cn_buffer (conn a c)) cursor bs a of
                  Inl e \<Rightarrow> Some (Inl e)
                | Inr a1 \<Rightarrow>
                    (let cursor1 = cursor + length bs in
                     if cursor1 < msg_size a then read_loop sys c cursor1 a1 k1
                     else Some (Inr (R_Full, cursor1, a1, k1)))))"

text \<open>
  The second loop: whether all was written, or the connection is to be closed.  After any error, also
  a permanent one, \<open>continue\<close> goes on to the test of the loop and tries again.
\<close>

partial_function (option) write_loop ::
  "'k ep_sys \<Rightarrow> nat \<Rightarrow> nat \<Rightarrow> echo \<Rightarrow> 'k \<Rightarrow> (bool \<times> 'k) res option" where
  "write_loop sys c cursor a k =
     (case deref (cn_buffer (conn a c)) of
        Inl e \<Rightarrow> Some (Inl e)
      | Inr b \<Rightarrow>
          (let (n, k1) = es_write sys (cn_fd (conn a c)) (take (msg_size a - cursor) (drop cursor (msg a b))) k in
           if n = 0 then Some (Inr (False, k1))
           else (let cursor1 = (if n < 0 then cursor else cursor + nat n) in
                 if cursor1 < msg_size a then write_loop sys c cursor1 a k1
                 else Some (Inr (True, k1)))))"

declare read_loop.simps [code] write_loop.simps [code]

text \<open>What \<open>on_read\<close> does once it has the whole message.\<close>

definition send_back :: "'k ep_sys \<Rightarrow> nat \<Rightarrow> echo \<Rightarrow> 'k \<Rightarrow> (echo \<times> 'k) res option" where
  "send_back sys c a k =
     (let a1 = upd_conn c (\<lambda>cn. cn\<lparr>cn_cursor := 0, cn_state := WRITING\<rparr>) a in
      Option.bind (write_loop sys c 0 a1 k) (\<lambda>w.
        case w of
          Inl e \<Rightarrow> Some (Inl e)
        | Inr (sent, k1) \<Rightarrow>
            Some (if sent then Inr (upd_conn c (\<lambda>cn. cn\<lparr>cn_state := READING\<rparr>) a1, k1)
                  else on_close_ep sys (Some c) a1 k1)))"

fun after_read :: "'k ep_sys \<Rightarrow> nat \<Rightarrow> read_end \<times> nat \<times> echo \<times> 'k \<Rightarrow> (echo \<times> 'k) res option" where
  "after_read sys c (R_Eof, cursor, a, k) = Some (on_close_ep sys (Some c) a k)"
| "after_read sys c (R_Wait, cursor, a, k) =
     Some (Inr (if cursor > cn_cursor (conn a c) then upd_conn c (\<lambda>cn. cn\<lparr>cn_cursor := cursor\<rparr>) a else a, k))"
| "after_read sys c (R_Full, cursor, a, k) = send_back sys c a k"

definition on_read_ep :: "'k ep_sys \<Rightarrow> nat option \<Rightarrow> echo \<Rightarrow> 'k \<Rightarrow> (echo \<times> 'k) res option" where
  "on_read_ep sys p a k =
     (case deref p of
        Inl e \<Rightarrow> Some (Inl e)
      | Inr c \<Rightarrow>
          if cn_fd (conn a c) < 0 then Some (Inr (a, k))
          else (let (granted, k0) = es_calloc sys k in
            case ensure_buffer granted c a of
              Inl e \<Rightarrow> Some (Inl e)
            | Inr a1 \<Rightarrow>
                (let a2 = upd_conn c (\<lambda>cn. cn\<lparr>cn_event_count := cn_event_count cn + 1\<rparr>) a1 in
                 Option.bind (read_loop sys c (cn_cursor (conn a2 c)) a2 k0) (\<lambda>r.
                   case r of Inl e \<Rightarrow> Some (Inl e) | Inr y \<Rightarrow> after_read sys c y))))"

section \<open>New connections\<close>

text \<open>
  \<open>on_accept\<close> hands every connection to the thread of the processor it arrives on; it returns when
  there is none left.
\<close>

partial_function (option) on_accept_ep ::
  "'k ep_sys \<Rightarrow> int \<Rightarrow> echo \<Rightarrow> incoming \<Rightarrow> 'k \<Rightarrow> (echo \<times> incoming \<times> 'k) res option" where
  "on_accept_ep sys listen a q k =
     (let (granted, k1) = es_malloc sys k in
      if \<not> granted then Some (Inl (Exit 1))
      else let (r, k2) = es_accept sys listen k1 in
        case r of
          Acc_Again \<Rightarrow> Some (Inr (a, q, k2))
        | Acc_Fail \<Rightarrow> Some (Inl (Exit 1))
        | Acc_Conn fd \<Rightarrow>
            (let a1 = a\<lparr>accept_count := accept_count a + 1\<rparr>; (cpu, k3) = es_cpu sys fd k2 in
             case cpu of
               None \<Rightarrow> Some (Inl (Exit 1))
             | Some i \<Rightarrow>
                 (let q1 = q(i := fd # q i); (sent, k4) = es_notify sys i k3 in
                  if \<not> sent then Some (Inl (Exit 1)) else on_accept_ep sys listen a1 q1 k4)))"

text \<open>\<open>handle_new_conns\<close>, for the connections it finds in its list.\<close>

primrec handle_new_conns :: "'k ep_sys \<Rightarrow> int list \<Rightarrow> echo \<Rightarrow> 'k \<Rightarrow> (echo \<times> 'k) res" where
  "handle_new_conns sys [] a k = Inr (a, k)"
| "handle_new_conns sys (fd # fds) a k =
     (let (granted, k0) = es_calloc sys k in
      rbind (new_conn granted fd a) (\<lambda>(c, a1).
      rbind (set_conn_slot fd (Some c) a1) (\<lambda>a2.
      let (added, k1) = es_add sys (cn_fd (conn a2 c)) k0 in
      if \<not> added then Inl (Exit 1)
      else handle_new_conns sys fds (upd_conn c (\<lambda>cn. cn\<lparr>cn_state := READING\<rparr>) a2) k1)))"

definition on_event :: "'k ep_sys \<Rightarrow> echo \<Rightarrow> incoming \<Rightarrow> 'k \<Rightarrow> (echo \<times> incoming \<times> 'k) res" where
  "on_event sys a q k =
     (let (r, k1) = es_event sys k in
      case r of
        Ev_Again \<Rightarrow> Inr (a, q, k1)
      | Ev_Fail \<Rightarrow> Inl (Exit 1)
      | Ev_Count \<Rightarrow> rbind (handle_new_conns sys (q (index a)) a k1) (\<lambda>(a1, k2). Inr (a1, q(index a := []), k2)))"

section \<open>The event loop\<close>

text \<open>
  One event of \<open>epoll_wait\<close>; \<open>listen\<close> and \<open>event_fd\<close> are the descriptors of the thread.  After the
  clean-up of a broken connection the event is handled once more, like any other.
\<close>

definition handle_event ::
  "'k ep_sys \<Rightarrow> int \<Rightarrow> int \<Rightarrow> bool \<times> int \<Rightarrow> echo \<Rightarrow> incoming \<Rightarrow> 'k \<Rightarrow> (echo \<times> incoming \<times> 'k) res option" where
  "handle_event sys listen event_fd ev a q k =
     (let (err, fd) = ev in
      case (if err then
              if fd = listen \<or> fd = event_fd then Inl (Exit 1)
              else rbind (conn_slot a fd) (\<lambda>p. on_close_ep sys p a k)
            else Inr (a, k)) of
        Inl e \<Rightarrow> Some (Inl e)
      | Inr (a1, k1) \<Rightarrow>
          if fd = listen then on_accept_ep sys listen a1 q k1
          else if fd = event_fd then Some (on_event sys a1 q k1)
          else (case conn_slot a1 fd of
                  Inl e \<Rightarrow> Some (Inl e)
                | Inr p \<Rightarrow> Option.bind (on_read_ep sys p a1 k1) (\<lambda>r.
                    case r of Inl e \<Rightarrow> Some (Inl e) | Inr (a2, k2) \<Rightarrow> Some (Inr (a2, q, k2)))))"

primrec handle_events ::
  "'k ep_sys \<Rightarrow> int \<Rightarrow> int \<Rightarrow> (bool \<times> int) list \<Rightarrow> echo \<Rightarrow> incoming \<Rightarrow> 'k \<Rightarrow> (echo \<times> incoming \<times> 'k) res option" where
  "handle_events sys listen event_fd [] a q k = Some (Inr (a, q, k))"
| "handle_events sys listen event_fd (ev # evs) a q k =
     Option.bind (handle_event sys listen event_fd ev a q k) (\<lambda>r.
       case r of Inl e \<Rightarrow> Some (Inl e) | Inr (a1, q1, k1) \<Rightarrow> handle_events sys listen event_fd evs a1 q1 k1)"

text \<open>The first rounds of the loop, and the loop itself, which only ends with an error.\<close>

primrec serve_rounds ::
  "nat \<Rightarrow> 'k ep_sys \<Rightarrow> int \<Rightarrow> int \<Rightarrow> echo \<Rightarrow> incoming \<Rightarrow> 'k \<Rightarrow> (echo \<times> incoming \<times> 'k) res option" where
  "serve_rounds 0 sys listen event_fd a q k = Some (Inr (a, q, k))"
| "serve_rounds (Suc m) sys listen event_fd a q k =
     (let (r, k1) = es_wait sys k in
      case r of
        Ep_Error \<Rightarrow> Some (Inl (Exit 1))
      | Ep_Events evs \<Rightarrow>
          if evs = [] then Some (Inl (Exit 1))
          else Option.bind (handle_events sys listen event_fd evs a q k1) (\<lambda>r.
            case r of Inl e \<Rightarrow> Some (Inl e) | Inr (a1, q1, k2) \<Rightarrow> serve_rounds m sys listen event_fd a1 q1 k2))"

partial_function (option) worker_loop_ep ::
  "'k ep_sys \<Rightarrow> int \<Rightarrow> int \<Rightarrow> echo \<Rightarrow> incoming \<Rightarrow> 'k \<Rightarrow> stop option" where
  "worker_loop_ep sys listen event_fd a q k =
     (let (r, k1) = es_wait sys k in
      case r of
        Ep_Error \<Rightarrow> Some (Exit 1)
      | Ep_Events evs \<Rightarrow>
          if evs = [] then Some (Exit 1)
          else Option.bind (handle_events sys listen event_fd evs a q k1) (\<lambda>r.
            case r of Inl e \<Rightarrow> Some e | Inr (a1, q1, k2) \<Rightarrow> worker_loop_ep sys listen event_fd a1 q1 k2))"

declare on_accept_ep.simps [code] worker_loop_ep.simps [code]

lemma worker_loop_rounds:
  "worker_loop_ep sys listen event_fd a q k =
     Option.bind (serve_rounds m sys listen event_fd a q k) (\<lambda>r.
       case r of Inl e \<Rightarrow> Some e | Inr (a1, q1, k1) \<Rightarrow> worker_loop_ep sys listen event_fd a1 q1 k1)"
proof (induction m arbitrary: a q k)
  case 0
  then show ?case by simp
next
  case (Suc m)
  obtain r k1 where w: "es_wait sys k = (r, k1)" by force
  show ?case
  proof (cases r)
    case Ep_Error
    then show ?thesis using w by (subst worker_loop_ep.simps) simp
  next
    case (Ep_Events evs)
    show ?thesis
    proof (cases "evs \<noteq> [] \<and> (\<exists>z. handle_events sys listen event_fd evs a q k1 = Some (Inr z))")
      case True
      then obtain a1 q1 k2 where "handle_events sys listen event_fd evs a q k1 = Some (Inr (a1, q1, k2))" by auto
      then show ?thesis using True w Ep_Events Suc.IH[of a1 q1 k2] by (subst worker_loop_ep.simps) simp
    next
      case False
      then show ?thesis using w Ep_Events
        by (subst worker_loop_ep.simps, cases "handle_events sys listen event_fd evs a q k1") (auto split: sum.splits)
    qed
  qed
qed

section \<open>A kernel that records what it does\<close>

text \<open>
  The trace of a run is what the system calls report, as network events, and the bytes the writes
  took.  A descriptor that enters the interest list is a connection from then on.
\<close>

record 'k traced =
  tr_k :: 'k
  tr_events :: "net_event list"
  tr_sent :: "(int \<times> byte list) list"

definition observe :: "net_event list \<Rightarrow> 'k traced \<Rightarrow> 'k traced" where
  "observe evs t = t\<lparr>tr_events := tr_events t @ evs\<rparr>"

definition read_events :: "int \<Rightarrow> io_reply \<Rightarrow> net_event list" where
  "read_events fd r =
     (case r of
        Io_Bytes bs \<Rightarrow> if bs = [] then [Hangup fd] else [Got fd bs]
      | Io_Again \<Rightarrow> []
      | Io_Fail \<Rightarrow> [Io_Error fd])"

definition write_events :: "int \<Rightarrow> int \<Rightarrow> net_event list" where
  "write_events fd n = (if n = 0 then [Hangup fd] else if n < 0 then [Io_Error fd] else [Sent fd (nat n)])"

definition lift_call :: "('k \<Rightarrow> 'r \<times> 'k) \<Rightarrow> 'k traced \<Rightarrow> 'r \<times> 'k traced" where
  "lift_call f t = (let (r, k1) = f (tr_k t) in (r, t\<lparr>tr_k := k1\<rparr>))"

definition traced_sys :: "'k ep_sys \<Rightarrow> 'k traced ep_sys" where
  "traced_sys sys =
     \<lparr>es_read = (\<lambda>fd n t. let (r, t1) = lift_call (es_read sys fd n) t in (r, observe (read_events fd r) t1)),
      es_write = (\<lambda>fd bs t. let (n, t1) = lift_call (es_write sys fd bs) t
                             in (n, observe (write_events fd n) (t1\<lparr>tr_sent := tr_sent t1 @ [(fd, take (nat n) bs)]\<rparr>))),
      es_add = (\<lambda>fd t. let (added, t1) = lift_call (es_add sys fd) t
                        in (added, if added then observe [Accepted fd fd] t1 else t1)),
      es_del = (\<lambda>fd. lift_call (es_del sys fd)),
      es_close = (\<lambda>fd t. t\<lparr>tr_k := es_close sys fd (tr_k t)\<rparr>),
      es_accept = (\<lambda>l. lift_call (es_accept sys l)),
      es_cpu = (\<lambda>fd. lift_call (es_cpu sys fd)),
      es_notify = (\<lambda>i. lift_call (es_notify sys i)),
      es_event = lift_call (es_event sys),
      es_wait = lift_call (es_wait sys),
      es_malloc = lift_call (es_malloc sys),
      es_calloc = lift_call (es_calloc sys)\<rparr>"

lemma traced_calls:
  "es_del (traced_sys sys) fd t = lift_call (es_del sys fd) t"
  "es_close (traced_sys sys) fd t = t\<lparr>tr_k := es_close sys fd (tr_k t)\<rparr>"
  "es_accept (traced_sys sys) l t = lift_call (es_accept sys l) t"
  "es_cpu (traced_sys sys) fd t = lift_call (es_cpu sys fd) t"
  "es_notify (traced_sys sys) i t = lift_call (es_notify sys i) t"
  "es_event (traced_sys sys) t = lift_call (es_event sys) t"
  "es_wait (traced_sys sys) t = lift_call (es_wait sys) t"
  "es_malloc (traced_sys sys) t = lift_call (es_malloc sys) t"
  "es_calloc (traced_sys sys) t = lift_call (es_calloc sys) t"
  "es_add (traced_sys sys) fd t =
     (let (added, t1) = lift_call (es_add sys fd) t in (added, if added then observe [Accepted fd fd] t1 else t1))"
  by (simp_all add: traced_sys_def)

lemma lift_call_eq: "f (tr_k t) = (r, k1) \<Longrightarrow> lift_call f t = (r, t\<lparr>tr_k := k1\<rparr>)"
  by (simp add: lift_call_def)

text \<open>The sessions in the tables; a connection without a buffer yet counts as an empty one.\<close>

definition lazy_sessions :: "echo \<Rightarrow> int \<Rightarrow> session option" where
  "lazy_sessions a fd =
     map_option (\<lambda>v. \<lparr>s_cursor = cn_cursor (fst v),
                      s_msg = (case snd v of None \<Rightarrow> replicate (msg_size a) 0 | Some m \<Rightarrow> m)\<rparr>) (view a fd)"

definition adv ::
  "nat \<Rightarrow> (int \<Rightarrow> session option) \<Rightarrow> 'k traced \<Rightarrow> (int \<Rightarrow> session option) \<Rightarrow> 'k traced \<Rightarrow> bool" where
  "adv n s t s' t' \<longleftrightarrow>
     (\<exists>evs out. tr_events t' = tr_events t @ evs \<and> tr_sent t' = tr_sent t @ out \<and>
        runs n evs s s' (\<lambda>fd. sent_on fd out) \<and> conserves evs s s' (\<lambda>fd. sent_on fd out))"

lemma adv_same: "tr_events t' = tr_events t \<Longrightarrow> tr_sent t' = tr_sent t \<Longrightarrow> adv n s t s t'"
  unfolding adv_def by (rule exI[of _ "[]"], rule exI[of _ "[]"]) simp

lemma adv_trans:
  assumes "adv n s t s1 t1" "adv n s1 t1 s2 t2"
  shows "adv n s t s2 t2"
proof -
  from assms(1) obtain evs out where 1: "tr_events t1 = tr_events t @ evs" "tr_sent t1 = tr_sent t @ out"
    "runs n evs s s1 (\<lambda>fd. sent_on fd out)" "conserves evs s s1 (\<lambda>fd. sent_on fd out)" by (auto simp: adv_def)
  from assms(2) obtain evs' out' where 2: "tr_events t2 = tr_events t1 @ evs'" "tr_sent t2 = tr_sent t1 @ out'"
    "runs n evs' s1 s2 (\<lambda>fd. sent_on fd out')" "conserves evs' s1 s2 (\<lambda>fd. sent_on fd out')" by (auto simp: adv_def)
  show ?thesis unfolding adv_def
    using runs_append[OF 1(3) 2(3)] conserves_append[OF 1(4) 2(4)]
    by (intro exI[of _ "evs @ evs'"] exI[of _ "out @ out'"]) (simp add: 1(1,2) 2(1,2))
qed

lemma observe_simps [simp]:
  "tr_k (observe evs t) = tr_k t" "tr_events (observe evs t) = tr_events t @ evs" "tr_sent (observe evs t) = tr_sent t"
  by (simp_all add: observe_def)

section \<open>What the handlers rely on\<close>

text \<open>
  The kernel's side: \<open>opn\<close> are the open descriptors of the worker's clients, \<open>reg\<close> those in its
  interest list.  A call moves no more than it was asked to, a new connection has a new descriptor in
  the range of the table, and \<open>epoll_wait\<close> reports each registered descriptor at most once.
\<close>

locale epoll_kernel =
  fixes sys :: "'k ep_sys" and reg opn :: "'k \<Rightarrow> int set" and mx listen event_fd :: int
  assumes rd: "es_read sys fd n k = (r, k') \<Longrightarrow>
      reg k' = reg k \<and> opn k' = opn k \<and> (\<forall>bs. r = Io_Bytes bs \<longrightarrow> length bs \<le> n)"
    and wr: "es_write sys fd bs k = (j, k') \<Longrightarrow> reg k' = reg k \<and> opn k' = opn k \<and> j \<le> int (length bs)"
    and ad: "es_add sys fd k = (fin, k') \<Longrightarrow>
      opn k' = opn k \<and> reg k' = (if fin then insert fd (reg k) else reg k)"
    and dl: "es_del sys fd k = (fin, k') \<Longrightarrow> opn k' = opn k \<and> reg k' = (if fin then reg k - {fd} else reg k)"
    and cl: "opn (es_close sys fd k) = opn k - {fd} \<and> reg (es_close sys fd k) = reg k - {fd}"
    and ac: "es_accept sys l k = (c, k') \<Longrightarrow> reg k' = reg k \<and>
      (case c of Acc_Conn fd \<Rightarrow> 0 \<le> fd \<and> fd < mx \<and> fd \<notin> opn k \<and> opn k' = insert fd (opn k) | _ \<Rightarrow> opn k' = opn k)"
    and cp: "es_cpu sys fd k = (i, k') \<Longrightarrow> reg k' = reg k \<and> opn k' = opn k"
    and nt: "es_notify sys m k = (b, k') \<Longrightarrow> reg k' = reg k \<and> opn k' = opn k"
    and evt: "es_event sys k = (e, k') \<Longrightarrow> reg k' = reg k \<and> opn k' = opn k"
    and mal: "es_malloc sys k = (b, k') \<Longrightarrow> reg k' = reg k \<and> opn k' = opn k"
    and cal: "es_calloc sys k = (b, k') \<Longrightarrow> reg k' = reg k \<and> opn k' = opn k"
    and wt: "es_wait sys k = (w, k') \<Longrightarrow> reg k' = reg k \<and> opn k' = opn k \<and>
      (\<forall>evs. w = Ep_Events evs \<longrightarrow> distinct (map snd evs) \<and> snd ` set evs \<subseteq> reg k \<union> {listen, event_fd})"

text \<open>A kernel with memory to spare that reports no broken connections.\<close>

locale quiet_kernel = epoll_kernel +
  assumes granted: "es_calloc sys k = (b, k') \<Longrightarrow> b"
    and no_error: "es_wait sys k = (Ep_Events evs, k') \<Longrightarrow> True \<notin> fst ` set evs"

section \<open>The handlers implement the abstract server\<close>

lemmas read_loop_induct = read_loop.raw_induct[rotated 1, consumes 1, case_names step]
lemmas on_accept_ep_induct = on_accept_ep.raw_induct[rotated 1, consumes 1, case_names step]
lemmas write_loop_induct = write_loop.raw_induct[rotated 1, consumes 1, case_names step]

text \<open>The first loop always ends; the second ends if no write fails, and never if all do.\<close>

lemma store_msg_size: "store_msg p off bs e = Inr e' \<Longrightarrow> msg_size e' = msg_size e"
  by (auto simp: store_msg_def rbind_eq_Inr_iff split: if_splits)

lemma read_loop_returns: "\<exists>r. read_loop sys c cursor a k = Some r"
proof (induction "msg_size a - cursor" arbitrary: cursor a k rule: less_induct)
  case less
  obtain q k1 where q: "es_read sys (cn_fd (conn a c)) (msg_size a - cursor) k = (q, k1)" by force
  show ?case
  proof (cases "\<exists>bs a1. q = Io_Bytes bs \<and> bs \<noteq> [] \<and> store_msg (cn_buffer (conn a c)) cursor bs a = Inr a1 \<and>
      cursor + length bs < msg_size a")
    case True
    then obtain bs a1 where 1: "q = Io_Bytes bs" "bs \<noteq> []" "store_msg (cn_buffer (conn a c)) cursor bs a = Inr a1"
      "cursor + length bs < msg_size a" by blast
    have "msg_size a1 - (cursor + length bs) < msg_size a - cursor"
      using 1(2,4) store_msg_size[OF 1(3)] by (cases bs) auto
    from less[OF this] show ?thesis using q 1 by (subst read_loop.simps) (simp add: Let_def)
  next
    case False
    then show ?thesis using q by (subst read_loop.simps) (auto split: io_reply.splits sum.splits simp: Let_def)
  qed
qed

lemma write_loop_returns:
  assumes "\<And>fd bs k. 0 \<le> fst (es_write sys fd bs k)"
  shows "\<exists>r. write_loop sys c cursor a k = Some r"
proof (induction "msg_size a - cursor" arbitrary: cursor k rule: less_induct)
  case less
  show ?case
  proof (cases "deref (cn_buffer (conn a c))")
    case (Inl e)
    then show ?thesis by (subst write_loop.simps) simp
  next
    case (Inr b)
    obtain n k1 where n: "es_write sys (cn_fd (conn a c)) (take (msg_size a - cursor) (drop cursor (msg a b))) k = (n, k1)" by force
    then have pos: "0 \<le> n" using assms by (metis fst_conv)
    show ?thesis
    proof (cases "0 < n \<and> cursor + nat n < msg_size a")
      case True
      then have "msg_size a - (cursor + nat n) < msg_size a - cursor" by auto
      from less[OF this] show ?thesis using n Inr True by (subst write_loop.simps) (simp add: Let_def)
    next
      case False
      then show ?thesis using n Inr pos by (subst write_loop.simps) (auto simp: Let_def)
    qed
  qed
qed

lemma write_loop_spins:
  "write_loop sys c cursor a k = Some r \<Longrightarrow> (\<forall>bs k. fst (es_write sys (cn_fd (conn a c)) bs k) < 0) \<longrightarrow>
     cursor < msg_size a \<longrightarrow> cn_buffer (conn a c) = None"
proof (induction rule: write_loop_induct)
  case (step rec sys c cursor a k r)
  show ?case
  proof (intro impI)
    assume neg: "\<forall>bs k. fst (es_write sys (cn_fd (conn a c)) bs k) < 0" and lt: "cursor < msg_size a"
    show "cn_buffer (conn a c) = None"
    proof (rule ccontr)
      assume "cn_buffer (conn a c) \<noteq> None"
      then obtain b where b: "cn_buffer (conn a c) = Some b" by blast
      obtain n k1 where n: "es_write sys (cn_fd (conn a c)) (take (msg_size a - cursor) (drop cursor (msg a b))) k = (n, k1)" by force
      then have "n < 0" using neg by (metis fst_conv)
      then have "rec sys c cursor a k1 = Some r" using step(2) n b lt by (simp add: deref_def Let_def)
      from step(1)[OF this] neg lt b show False by simp
    qed
  qed
qed

text \<open>The session when the first loop ends: a complete message, none, or the part that came.\<close>

definition read_session :: "read_end \<Rightarrow> nat \<Rightarrow> byte list \<Rightarrow> session option" where
  "read_session e k m =
     (case e of R_Full \<Rightarrow> Some \<lparr>s_cursor = 0, s_msg = m\<rparr> | R_Eof \<Rightarrow> None | R_Wait \<Rightarrow> Some \<lparr>s_cursor = k, s_msg = m\<rparr>)"

lemma open_msg:
  assumes "echo_wf a" "conns a fd = Some c" "cn_buffer (conn a c) = Some b"
  shows "length (msg a b) = msg_size a" "view a fd = Some (conn a c, Some (msg a b))"
  using echo_wfD(3)[OF assms(1,2)] assms(2,3) by (simp_all add: conn_wf_def view_def view_at_def)

text \<open>The outcome of the first loop, over the sessions of the other connections.\<close>

definition read_done ::
  "int \<Rightarrow> nat \<Rightarrow> nat \<Rightarrow> byte list \<Rightarrow> echo \<Rightarrow> 'k traced \<Rightarrow> read_end \<times> nat \<times> echo \<times> 'k traced \<Rightarrow> bool" where
  "read_done fd c cursor m a t y \<longleftrightarrow> (case y of (e, cursor', a', t') \<Rightarrow>
     \<exists>m' evs. echo_wf a' \<and> conns a' = conns a \<and> conn_cache a' = conn_cache a \<and> same_config a a' \<and>
       view a' = (view a)(fd := Some (conn a c, Some m')) \<and>
       cursor \<le> cursor' \<and> (e \<noteq> R_Full \<longrightarrow> cursor' < msg_size a) \<and> (e = R_Full \<longrightarrow> cursor' = msg_size a) \<and>
       tr_events t' = tr_events t @ evs \<and> tr_sent t' = tr_sent t \<and>
       (Hangup fd \<in> set evs \<longleftrightarrow> e = R_Eof) \<and> (\<forall>x. x \<noteq> fd \<longrightarrow> got_on x evs = []) \<and>
       take cursor' m' = take cursor m @ got_on fd evs \<and>
       (\<forall>s. runs (msg_size a) evs (s(fd := Some \<lparr>s_cursor = cursor, s_msg = m\<rparr>))
              (s(fd := read_session e cursor' m')) (\<lambda>_. [])))"

lemma read_done_stop:
  assumes "echo_wf a" "conns a fd = Some c" "cn_buffer (conn a c) = Some b" "cursor < msg_size a"
    "tr_events t' = tr_events t @ evs" "tr_sent t' = tr_sent t" "evs = read_events fd r"
    "(r = Io_Bytes [] \<and> e = R_Eof) \<or> ((r = Io_Again \<or> r = Io_Fail) \<and> e = R_Wait)"
  shows "read_done fd c cursor (msg a b) a t (e, cursor, a, t')"
proof -
  note o = open_msg[OF assms(1-3)]
  have v: "view a = (view a)(fd := Some (conn a c, Some (msg a b)))" using o(2) by (simp add: fun_upd_idem)
  have r: "runs (msg_size a) evs (s(fd := Some \<lparr>s_cursor = cursor, s_msg = msg a b\<rparr>))
      (s(fd := read_session e cursor (msg a b))) (\<lambda>_. [])" for s
  proof -
    from assms(8) consider "r = Io_Bytes []" "e = R_Eof" | "r = Io_Again" "e = R_Wait" | "r = Io_Fail" "e = R_Wait" by blast
    then show ?thesis
    proof cases
      case 1
      then show ?thesis using runs_hangup[of "msg_size a" fd "s(fd := Some \<lparr>s_cursor = cursor, s_msg = msg a b\<rparr>)"]
        by (simp add: assms(7) read_events_def read_session_def)
    qed (simp_all add: assms(7) read_events_def read_session_def runs_io_error)
  qed
  have "(Hangup fd \<in> set evs \<longleftrightarrow> e = R_Eof) \<and> got_on x evs = []" for x
    using assms(7,8) by (auto simp: read_events_def)
  then show ?thesis unfolding read_done_def
    using assms(1,4,5,6,8) v r by (auto intro!: exI[of _ "msg a b"] exI[of _ evs])
qed

lemma read_done_full:
  assumes "echo_wf a" "conns a fd = Some c" "cn_buffer (conn a c) = Some b" "cursor < msg_size a" "bs \<noteq> []"
    "cursor + length bs \<le> msg_size a"
    "echo_wf a1" "conns a1 = conns a" "conn_cache a1 = conn_cache a" "same_config a a1"
    "view a1 = (view a)(fd := Some (conn a c, Some (splice cursor bs (msg a b))))"
    "tr_events t1 = tr_events t @ [Got fd bs]" "tr_sent t1 = tr_sent t"
  shows "cursor + length bs = msg_size a \<Longrightarrow> read_done fd c cursor (msg a b) a t (R_Full, cursor + length bs, a1, t1)"
    "cursor + length bs < msg_size a \<Longrightarrow>
       read_done fd c (cursor + length bs) (splice cursor bs (msg a b)) a1 t1 y \<Longrightarrow> read_done fd c cursor (msg a b) a t y"
proof -
  let ?m = "splice cursor bs (msg a b)"
  note o = open_msg[OF assms(1-3)]
  have le: "cursor + length bs \<le> length (msg a b)" using assms(6) o(1) by simp
  have tk: "take (cursor + length bs) ?m = take cursor (msg a b) @ bs" by (rule take_splice[OF le])
  have rn: "runs (msg_size a) [Got fd bs] (s(fd := Some \<lparr>s_cursor = cursor, s_msg = msg a b\<rparr>))
      (s(fd := Some \<lparr>s_cursor = (if cursor + length bs < msg_size a then cursor + length bs else 0), s_msg = ?m\<rparr>)) (\<lambda>_. [])" for s
    using runs_got[of "s(fd := Some \<lparr>s_cursor = cursor, s_msg = msg a b\<rparr>)" fd cursor "msg a b" "msg_size a" bs] by simp
  { assume "cursor + length bs = msg_size a"
    then show "read_done fd c cursor (msg a b) a t (R_Full, cursor + length bs, a1, t1)"
      unfolding read_done_def using assms(7-13) tk rn
      by (auto intro!: exI[of _ ?m] exI[of _ "[Got fd bs]"] simp: read_session_def) }
  assume lt: "cursor + length bs < msg_size a" and dn: "read_done fd c (cursor + length bs) ?m a1 t1 y"
  obtain e k a' t' where y: "y = (e, k, a', t')" by (cases y)
  from dn[unfolded read_done_def y prod.case] obtain m' evs where d: "echo_wf a'" "conns a' = conns a1" "conn_cache a' = conn_cache a1" "same_config a1 a'"
      "view a' = (view a1)(fd := Some (conn a1 c, Some m'))" "cursor + length bs \<le> k" "e \<noteq> R_Full \<longrightarrow> k < msg_size a1"
      "e = R_Full \<longrightarrow> k = msg_size a1" "tr_events t' = tr_events t1 @ evs" "tr_sent t' = tr_sent t1"
      "Hangup fd \<in> set evs \<longleftrightarrow> e = R_Eof" "\<forall>x. x \<noteq> fd \<longrightarrow> got_on x evs = []"
      "take k m' = take (cursor + length bs) ?m @ got_on fd evs"
      "\<forall>s. runs (msg_size a1) evs (s(fd := Some \<lparr>s_cursor = cursor + length bs, s_msg = ?m\<rparr>)) (s(fd := read_session e k m')) (\<lambda>_. [])"
    by blast
  have sz: "msg_size a1 = msg_size a" using assms(10) by (simp add: same_config_def)
  have cn: "conn a1 c = conn a c" using assms(9) by (simp add: conn_def)
  have "runs (msg_size a) (Got fd bs # evs) (s(fd := Some \<lparr>s_cursor = cursor, s_msg = msg a b\<rparr>)) (s(fd := read_session e k m')) (\<lambda>_. [])" for s
    using runs_append[OF rn[of s]] d(14)[unfolded sz] lt by fastforce
  moreover have "view a' = (view a)(fd := Some (conn a c, Some m'))" using d(5) assms(11) by (simp add: cn)
  moreover have "take k m' = take cursor (msg a b) @ got_on fd (Got fd bs # evs)" using d(13) tk by simp
  moreover have "conns a' = conns a \<and> conn_cache a' = conn_cache a \<and> same_config a a' \<and> cursor \<le> k"
    using d(2,3,6) assms(8,9) same_config_trans[OF assms(10) d(4)] by simp
  moreover have "tr_events t' = tr_events t @ (Got fd bs # evs) \<and> tr_sent t' = tr_sent t" using d(9,10) assms(12,13) by simp
  moreover have "(Hangup fd \<in> set (Got fd bs # evs) \<longleftrightarrow> e = R_Eof) \<and> (\<forall>x. x \<noteq> fd \<longrightarrow> got_on x (Got fd bs # evs) = [])"
    using d(11,12) by simp
  ultimately show "read_done fd c cursor (msg a b) a t y"
    unfolding read_done_def y prod.case using d(1,7,8)[unfolded sz] by blast
qed

text \<open>The outcome of the second loop.\<close>

definition write_done ::
  "nat \<Rightarrow> int \<Rightarrow> nat \<Rightarrow> byte list \<Rightarrow> 'k traced \<Rightarrow> bool \<times> 'k traced \<Rightarrow> bool" where
  "write_done n fd cursor m t y \<longleftrightarrow> (case y of (sent, t') \<Rightarrow>
     \<exists>evs out. tr_events t' = tr_events t @ evs \<and> tr_sent t' = tr_sent t @ out \<and>
       (Hangup fd \<in> set evs \<longleftrightarrow> \<not> sent) \<and> (\<forall>x. got_on x evs = []) \<and> (\<forall>x. x \<noteq> fd \<longrightarrow> sent_on x out = []) \<and>
       (sent \<longrightarrow> sent_on fd out = drop cursor m) \<and>
       (\<forall>s. runs n evs (s(fd := Some \<lparr>s_cursor = cursor, s_msg = m\<rparr>))
              (s(fd := (if sent then Some \<lparr>s_cursor = 0, s_msg = m\<rparr> else None))) (\<lambda>x. sent_on x out)))"

lemma write_done_first:
  assumes "tr_events t1 = tr_events t @ write_events fd j" "tr_sent t1 = tr_sent t @ [(fd, take (nat j) (drop cursor m))]"
    "length m = n" "cursor < n" "j \<le> int (n - cursor)"
  shows "j = 0 \<Longrightarrow> write_done n fd cursor m t (False, t1)"
    "0 < j \<Longrightarrow> cursor + nat j = n \<Longrightarrow> write_done n fd cursor m t (True, t1)"
    "j < 0 \<Longrightarrow> write_done n fd cursor m t1 y \<Longrightarrow> write_done n fd cursor m t y"
    "0 < j \<Longrightarrow> cursor + nat j < n \<Longrightarrow> write_done n fd (cursor + nat j) m t1 y \<Longrightarrow> write_done n fd cursor m t y"
proof -
  let ?w = "[(fd, take (nat j) (drop cursor m))]"
  let ?s = "\<lambda>s. s(fd := Some \<lparr>s_cursor = cursor, s_msg = m\<rparr>)"
  { assume j: "j = 0"
    have "runs n [Hangup fd] (?s s) (s(fd := None)) (\<lambda>x. sent_on x ?w)" for s
      using runs_hangup[of n fd "?s s"] j by (simp cong: if_cong)
    then show "write_done n fd cursor m t (False, t1)"
      unfolding write_done_def using assms j by (auto simp: write_events_def intro!: exI[of _ "[Hangup fd]"] exI[of _ ?w]) }
  have sent: "runs n [Sent fd (nat j)] (?s s)
      (s(fd := Some \<lparr>s_cursor = (if cursor + nat j < n then cursor + nat j else 0), s_msg = m\<rparr>)) (\<lambda>x. sent_on x ?w)" for s
    using runs_sent[of "?s s" fd cursor m n "nat j"] by (auto simp: runs_def)
  { assume j: "0 < j" "cursor + nat j = n"
    then show "write_done n fd cursor m t (True, t1)"
      unfolding write_done_def using assms sent
      by (auto simp: write_events_def intro!: exI[of _ "[Sent fd (nat j)]"] exI[of _ ?w]) }
  { assume j: "j < 0" and "write_done n fd cursor m t1 y"
    then obtain k t' evs out where y: "y = (k, t')" and d: "tr_events t' = tr_events t1 @ evs" "tr_sent t' = tr_sent t1 @ out"
      "Hangup fd \<in> set evs \<longleftrightarrow> \<not> k" "\<forall>x. got_on x evs = []" "\<forall>x. x \<noteq> fd \<longrightarrow> sent_on x out = []"
      "k \<longrightarrow> sent_on fd out = drop cursor m"
      "\<forall>s. runs n evs (?s s) (s(fd := (if k then Some \<lparr>s_cursor = 0, s_msg = m\<rparr> else None))) (\<lambda>x. sent_on x out)"
      unfolding write_done_def by (cases y) blast
    have "runs n (Io_Error fd # evs) (?s s) (s(fd := (if k then Some \<lparr>s_cursor = 0, s_msg = m\<rparr> else None)))
        (\<lambda>x. sent_on x (?w @ out))" for s
      using runs_append[OF runs_io_error[of n fd "?s s"] d(7)[rule_format, of s]] j by (simp cong: if_cong)
    then show "write_done n fd cursor m t y"
      unfolding write_done_def y prod.case using assms(1,2) j d(1-6)
      by (intro exI[of _ "Io_Error fd # evs"] exI[of _ "?w @ out"]) (simp add: write_events_def) }
  assume j: "0 < j" "cursor + nat j < n" and "write_done n fd (cursor + nat j) m t1 y"
  then obtain k t' evs out where y: "y = (k, t')" and d: "tr_events t' = tr_events t1 @ evs" "tr_sent t' = tr_sent t1 @ out"
    "Hangup fd \<in> set evs \<longleftrightarrow> \<not> k" "\<forall>x. got_on x evs = []" "\<forall>x. x \<noteq> fd \<longrightarrow> sent_on x out = []"
    "k \<longrightarrow> sent_on fd out = drop (cursor + nat j) m"
    "\<forall>s. runs n evs (s(fd := Some \<lparr>s_cursor = cursor + nat j, s_msg = m\<rparr>))
        (s(fd := (if k then Some \<lparr>s_cursor = 0, s_msg = m\<rparr> else None))) (\<lambda>x. sent_on x out)"
    unfolding write_done_def by (cases y) blast
  have "runs n (Sent fd (nat j) # evs) (?s s) (s(fd := (if k then Some \<lparr>s_cursor = 0, s_msg = m\<rparr> else None)))
      (\<lambda>x. sent_on x (?w @ out))" for s
    using runs_append[OF sent[of s, simplified j if_True] d(7)[rule_format, of s]] by simp
  moreover have "take (nat j) (drop cursor m) @ drop (cursor + nat j) m = drop cursor m"
    by (metis add.commute append_take_drop_id drop_drop)
  ultimately show "write_done n fd cursor m t y"
    unfolding write_done_def y prod.case using assms(1,2) j d(1-6)
    by (intro exI[of _ "Sent fd (nat j) # evs"] exI[of _ "?w @ out"]) (simp add: write_events_def)
qed

context epoll_kernel
begin

definition keeps :: "'k traced \<Rightarrow> 'k traced \<Rightarrow> bool" where
  "keeps t t' \<longleftrightarrow> reg (tr_k t') = reg (tr_k t) \<and> opn (tr_k t') = opn (tr_k t)"

lemma keeps_trans: "keeps t t1 \<Longrightarrow> keeps t1 t2 \<Longrightarrow> keeps t t2"
  by (simp add: keeps_def)

lemma keeps_refl [simp]: "keeps t t"
  by (simp add: keeps_def)

lemma traced_read:
  assumes "es_read (traced_sys sys) fd n t = (r, t1)"
  shows "keeps t t1" "tr_events t1 = tr_events t @ read_events fd r" "tr_sent t1 = tr_sent t"
    "r = Io_Bytes bs \<Longrightarrow> length bs \<le> n"
proof -
  obtain q k1 where k: "es_read sys fd n (tr_k t) = (q, k1)" by force
  with assms have e: "r = q" "t1 = observe (read_events fd q) (t\<lparr>tr_k := k1\<rparr>)"
    by (auto simp: traced_sys_def lift_call_def)
  show "keeps t t1" "tr_events t1 = tr_events t @ read_events fd r" "tr_sent t1 = tr_sent t"
    "r = Io_Bytes bs \<Longrightarrow> length bs \<le> n"
    using rd[OF k] by (simp_all add: e keeps_def)
qed

lemma traced_write:
  assumes "es_write (traced_sys sys) fd bs t = (n, t1)"
  shows "keeps t t1" "tr_events t1 = tr_events t @ write_events fd n" "tr_sent t1 = tr_sent t @ [(fd, take (nat n) bs)]"
    "n \<le> int (length bs)"
proof -
  obtain j k1 where k: "es_write sys fd bs (tr_k t) = (j, k1)" by force
  with assms have e: "n = j" "t1 = observe (write_events fd j) ((t\<lparr>tr_k := k1\<rparr>)\<lparr>tr_sent := tr_sent t @ [(fd, take (nat j) bs)]\<rparr>)"
    by (auto simp: traced_sys_def lift_call_def)
  show "keeps t t1" "tr_events t1 = tr_events t @ write_events fd n" "tr_sent t1 = tr_sent t @ [(fd, take (nat n) bs)]"
    "n \<le> int (length bs)"
    using wr[OF k] by (simp_all add: e keeps_def observe_def)
qed

lemma read_loop_run:
  "read_loop S c cursor a t = Some r \<Longrightarrow> S = traced_sys sys \<longrightarrow> echo_wf a \<longrightarrow> conns a fd = Some c \<longrightarrow>
     cn_buffer (conn a c) = Some b \<longrightarrow> cursor < msg_size a \<longrightarrow>
     (\<exists>y. r = Inr y \<and> keeps t (snd (snd (snd y))) \<and> read_done fd c cursor (msg a b) a t y)"
proof (induction rule: read_loop_induct)
  case (step rec S c cursor a t r)
  show ?case
  proof (intro impI)
    assume S: "S = traced_sys sys" and wf: "echo_wf a" and c: "conns a fd = Some c"
      and b: "cn_buffer (conn a c) = Some b" and lt: "cursor < msg_size a"
    have cfd: "cn_fd (conn a c) = fd" using open_in_range[OF wf c] by simp
    obtain q t1 where q: "es_read (traced_sys sys) fd (msg_size a - cursor) t = (q, t1)" by force
    note tr = traced_read[OF q]
    note run = step(2)[unfolded S cfd q Let_def prod.case]
    show "\<exists>y. r = Inr y \<and> keeps t (snd (snd (snd y))) \<and> read_done fd c cursor (msg a b) a t y"
    proof (cases "\<exists>bs. q = Io_Bytes bs \<and> bs \<noteq> []")
      case False
      define e where "e = (if q = Io_Bytes [] then R_Eof else R_Wait)"
      have "r = Inr (e, cursor, a, t1)" using run False by (cases q) (auto simp: e_def)
      moreover have "(q = Io_Bytes [] \<and> e = R_Eof) \<or> ((q = Io_Again \<or> q = Io_Fail) \<and> e = R_Wait)"
        using False by (cases q) (auto simp: e_def)
      ultimately show ?thesis using read_done_stop[OF wf c b lt tr(2,3) refl] tr(1) by auto
    next
      case True
      then obtain bs where bs: "q = Io_Bytes bs" "bs \<noteq> []" by blast
      have le: "cursor + length bs \<le> msg_size a" using tr(4)[OF bs(1)] lt by simp
      from store_msg_open[OF wf c b this] obtain a1 where a1: "store_msg (cn_buffer (conn a c)) cursor bs a = Inr a1"
        "echo_wf a1" "conns a1 = conns a" "conn_cache a1 = conn_cache a" "same_config a a1"
        "view a1 = (view a)(fd := Some (conn a c, Some (splice cursor bs (msg a b))))" by blast
      have ev: "tr_events t1 = tr_events t @ [Got fd bs]" using tr(2) bs by (simp add: read_events_def)
      note full = read_done_full[OF wf c b lt bs(2) le a1(2-6) ev tr(3)]
      show ?thesis
      proof (cases "cursor + length bs < msg_size a")
        case lt': True
        have cn: "conn a1 c = conn a c" "conns a1 fd = Some c" "msg_size a1 = msg_size a"
          using a1(3-5) c by (simp_all add: conn_def same_config_def)
        have "msg a1 b = splice cursor bs (msg a b)"
          using open_msg(2)[OF a1(2) cn(2)] a1(6) b by (simp add: cn(1))
        moreover have "rec S c (cursor + length bs) a1 t1 = Some r" using run bs a1(1) a1(5) lt' by (simp add: S same_config_def)
        note step(1)[OF this]
        ultimately obtain y where "r = Inr y" "keeps t1 (snd (snd (snd y)))"
          "read_done fd c (cursor + length bs) (splice cursor bs (msg a b)) a1 t1 y"
          using S a1(2) cn b lt' by auto
        then show ?thesis using full(2)[OF lt'] keeps_trans[OF tr(1)] by auto
      next
        case False
        then have eq: "cursor + length bs = msg_size a" using le by simp
        have "r = Inr (R_Full, cursor + length bs, a1, t1)"
          using run bs a1(1,5) eq by (simp add: same_config_def)
        then show ?thesis using full(1)[OF eq] tr(1) by simp
      qed
    qed
  qed
qed

lemma write_loop_run:
  "write_loop S c cursor a t = Some r \<Longrightarrow> S = traced_sys sys \<longrightarrow> echo_wf a \<longrightarrow> conns a fd = Some c \<longrightarrow>
     cn_buffer (conn a c) = Some b \<longrightarrow> cursor < msg_size a \<longrightarrow>
     (\<exists>y. r = Inr y \<and> keeps t (snd y) \<and> write_done (msg_size a) fd cursor (msg a b) t y)"
proof (induction rule: write_loop_induct)
  case (step rec S c cursor a t r)
  show ?case
  proof (intro impI)
    assume S: "S = traced_sys sys" and wf: "echo_wf a" and c: "conns a fd = Some c"
      and b: "cn_buffer (conn a c) = Some b" and lt: "cursor < msg_size a"
    have cfd: "cn_fd (conn a c) = fd" using open_in_range[OF wf c] by simp
    note len = open_msg(1)[OF wf c b]
    have tk: "take (msg_size a - cursor) (drop cursor (msg a b)) = drop cursor (msg a b)" using len by simp
    obtain j t1 where q: "es_write (traced_sys sys) fd (drop cursor (msg a b)) t = (j, t1)" by force
    note tr = traced_write[OF q]
    have j: "j \<le> int (msg_size a - cursor)" using tr(4) len by simp
    note first = write_done_first[OF tr(2,3) len lt j]
    note run = step(2)[unfolded S cfd b deref_def option.case sum.case tk q Let_def prod.case]
    consider "j = 0" | "0 < j" "cursor + nat j = msg_size a" | "j < 0" | "0 < j" "cursor + nat j < msg_size a"
      using j lt by linarith
    then show "\<exists>y. r = Inr y \<and> keeps t (snd y) \<and> write_done (msg_size a) fd cursor (msg a b) t y"
    proof cases
      case 1
      then show ?thesis using run first(1) tr(1) by auto
    next
      case 2
      then have "r = Inr (True, t1)" using run by simp
      then show ?thesis using first(2)[OF 2] tr(1) by simp
    next
      case 3
      then have "rec S c cursor a t1 = Some r" using run lt by (simp add: S)
      from step(1)[OF this] S wf c b lt obtain y where "r = Inr y" "keeps t1 (snd y)"
        "write_done (msg_size a) fd cursor (msg a b) t1 y" by blast
      then show ?thesis using first(3)[OF 3] keeps_trans[OF tr(1)] by blast
    next
      case 4
      then have "rec S c (cursor + nat j) a t1 = Some r" using run by (simp add: S)
      from step(1)[OF this] S wf c b 4 obtain y where "r = Inr y" "keeps t1 (snd y)"
        "write_done (msg_size a) fd (cursor + nat j) (msg a b) t1 y" by blast
      then show ?thesis using first(4)[OF 4] keeps_trans[OF tr(1)] by blast
    qed
  qed
qed

end

lemma lazy_upd:
  "view a' = (view a)(fd := Some (cn, Some m)) \<Longrightarrow> msg_size a' = msg_size a \<Longrightarrow>
     lazy_sessions a' = (lazy_sessions a)(fd := Some \<lparr>s_cursor = cn_cursor cn, s_msg = m\<rparr>)"
  by (rule ext) (simp add: lazy_sessions_def cong: option.case_cong)

lemma lazy_new:
  "view a' = (view a)(fd := Some (cn, None)) \<Longrightarrow> msg_size a' = msg_size a \<Longrightarrow>
     lazy_sessions a' = (lazy_sessions a)(fd := Some \<lparr>s_cursor = cn_cursor cn, s_msg = replicate (msg_size a) 0\<rparr>)"
  by (rule ext) (simp add: lazy_sessions_def cong: option.case_cong)

lemma lazy_del:
  "view a' = (view a)(fd := None) \<Longrightarrow> msg_size a' = msg_size a \<Longrightarrow> lazy_sessions a' = (lazy_sessions a)(fd := None)"
  by (rule ext) (simp add: lazy_sessions_def cong: option.case_cong)

lemma lazy_cong: "view a' = view a \<Longrightarrow> msg_size a' = msg_size a \<Longrightarrow> lazy_sessions a' = lazy_sessions a"
  by (rule ext) (simp add: lazy_sessions_def cong: option.case_cong)

lemma lazy_open:
  assumes "conns a fd = Some c"
  shows "lazy_sessions a fd = Some \<lparr>s_cursor = cn_cursor (conn a c),
     s_msg = (case cn_buffer (conn a c) of None \<Rightarrow> replicate (msg_size a) 0 | Some b \<Rightarrow> msg a b)\<rparr>"
  using assms by (auto simp: lazy_sessions_def view_def view_at_def split: option.splits)

context epoll_kernel
begin

text \<open>
  The invariant: the table holds exactly the registered descriptors, and the connections that wait to
  be taken over are open, in range and not in the table yet.
\<close>

definition ep_inv :: "echo \<Rightarrow> incoming \<Rightarrow> 'k traced \<Rightarrow> bool" where
  "ep_inv a q t \<longleftrightarrow> echo_wf a \<and> 0 < msg_size a \<and> max_fd a = mx \<and>
     (\<forall>fd. conns a fd \<noteq> None \<longleftrightarrow> fd \<in> reg (tr_k t)) \<and>
     reg (tr_k t) \<subseteq> opn (tr_k t) \<and> set (q (index a)) \<subseteq> opn (tr_k t) - reg (tr_k t) \<and> distinct (q (index a)) \<and>
     (\<forall>fd \<in> set (q (index a)). 0 \<le> fd \<and> fd < mx)"

definition starved :: bool where
  "starved \<longleftrightarrow> (\<exists>k. \<not> fst (es_calloc sys k))"

text \<open>What a handler of descriptor \<open>fd\<close> has done.\<close>

definition handled :: "int \<Rightarrow> echo \<Rightarrow> 'k traced \<Rightarrow> echo \<Rightarrow> incoming \<Rightarrow> 'k traced \<Rightarrow> bool" where
  "handled fd a t a' q' t' \<longleftrightarrow> ep_inv a' q' t' \<and> same_config a a' \<and>
     adv (msg_size a) (lazy_sessions a) t (lazy_sessions a') t' \<and>
     (\<forall>x. x \<noteq> fd \<longrightarrow> conns a x \<noteq> None \<longrightarrow> conns a' x \<noteq> None)"

lemma ep_inv_keep:
  assumes "ep_inv a q t" "echo_wf a'" "conns a' = conns a" "same_config a a'" "keeps t t'"
  shows "ep_inv a' q t'"
  using assms by (simp add: ep_inv_def keeps_def same_config_def)

lemma on_close_run:
  assumes "ep_inv a q t" "conns a fd = Some c" "cn_buffer (conn a c) = Some b"
  shows "case on_close_ep (traced_sys sys) (Some c) a t of
      Inl x \<Rightarrow> x = Exit 1
    | Inr (a', t') \<Rightarrow> ep_inv a' q t' \<and> view a' = (view a)(fd := None) \<and> conns a' = (conns a)(fd := None) \<and> same_config a a' \<and>
        tr_events t' = tr_events t \<and> tr_sent t' = tr_sent t"
proof -
  have wf: "echo_wf a" using assms(1) by (simp add: ep_inv_def)
  have r: "0 \<le> fd" "fd < max_fd a" "cn_fd (conn a c) = fd" using open_in_range[OF wf assms(2)] by auto
  obtain d k1 where k1: "es_del sys fd (tr_k t) = (d, k1)" by force
  let ?ax = "a\<lparr>closed_fds := fd # closed_fds a, conn_count := conn_count a + 1\<rparr>"
  have wx: "echo_wf ?ax" "view ?ax = view a" using wf echo_wf_cong(1)[of ?ax a] echo_wf_cong(2)[of ?ax a] by simp_all
  have cx: "conns ?ax fd = Some c" "cn_buffer (conn ?ax c) = Some b" using assms by (simp_all add: conn_def)
  from release_conn[OF wx(1) cx] obtain a' where a': "free_conn c (?ax\<lparr>conns := (conns ?ax)(fd := None)\<rparr>) = Inr a'"
    "echo_wf a'" "conns a' = (conns ?ax)(fd := None)" "same_config ?ax a'" "view a' = (view ?ax)(fd := None)" by blast
  have eq: "a\<lparr>conns := (conns a)(fd := None), closed_fds := fd # closed_fds a, conn_count := Suc (conn_count a)\<rparr> =
      ?ax\<lparr>conns := (conns ?ax)(fd := None)\<rparr>" by simp
  show ?thesis
  proof (cases d)
    case False
    then show ?thesis using k1 r
      by (simp add: on_close_ep_def deref_def set_conn_slot_def traced_sys_def lift_call_def)
  next
    case True
    let ?t = "t\<lparr>tr_k := es_close sys fd k1\<rparr>"
    have "on_close_ep (traced_sys sys) (Some c) a t = Inr (a', ?t)"
      using k1 r True a'(1)[folded eq] by (simp add: on_close_ep_def deref_def set_conn_slot_def traced_sys_def lift_call_def Let_def)
    moreover have "opn (tr_k ?t) = opn (tr_k t) - {fd}" "reg (tr_k ?t) = reg (tr_k t) - {fd}"
      using dl[OF k1] cl[of fd k1] True by auto
    then have "ep_inv a' q ?t" using assms(1,2) a'(2-4) by (auto simp: ep_inv_def same_config_def)
    ultimately show ?thesis using a' wx(2) by (simp add: same_config_def)
  qed
qed

end

context epoll_kernel
begin

text \<open>From the buffer of the connection to the start of the first loop: nothing a session shows.\<close>

lemma read_start:
  assumes inv: "ep_inv a q t" and c: "conns a fd = Some c" and e: "ensure_buffer g c a = Inr a1"
  obtains b where "cn_buffer (conn a1 c) = Some b" "conns a1 fd = Some c" "ep_inv a1 q t" "same_config a a1"
    "conns a1 = conns a" "lazy_sessions a1 = lazy_sessions a"
    "lazy_sessions a1 fd = Some \<lparr>s_cursor = cn_cursor (conn a1 c), s_msg = msg a1 b\<rparr>"
proof -
  have wf: "echo_wf a" using inv by (simp add: ep_inv_def)
  from ensure_buffer_open[OF wf c e] obtain b m where 1: "echo_wf a1" "conns a1 = conns a" "same_config a a1"
    "conn a1 c = (conn a c)\<lparr>cn_buffer := Some b\<rparr>"
    "m = (case cn_buffer (conn a c) of None \<Rightarrow> replicate (msg_size a) 0 | Some b' \<Rightarrow> msg a b')" "msg a1 b = m"
    "view a1 = (view a)(fd := Some ((conn a c)\<lparr>cn_buffer := Some b\<rparr>, Some m))" by blast
  have sz: "msg_size a1 = msg_size a" using 1(3) by (simp add: same_config_def)
  have l: "lazy_sessions a1 = (lazy_sessions a)(fd := Some \<lparr>s_cursor = cn_cursor (conn a c), s_msg = m\<rparr>)"
    using lazy_upd[OF 1(7) sz] by simp
  then have "lazy_sessions a1 = lazy_sessions a" using lazy_open[OF c] 1(5) by (simp add: fun_upd_idem)
  moreover have "ep_inv a1 q t" by (rule ep_inv_keep[OF inv 1(1,2,3)]) simp
  moreover have "lazy_sessions a1 fd = Some \<lparr>s_cursor = cn_cursor (conn a1 c), s_msg = msg a1 b\<rparr>"
    unfolding l 1(4,6) by simp
  ultimately show thesis using that[of b] 1(2-4) c by simp
qed

text \<open>Counting an event or noting a cursor below the message size keeps the table in order.\<close>

lemma ep_upd_conn:
  assumes inv: "ep_inv a q t" and c: "conns a fd = Some c" and b: "cn_buffer (conn a c) = Some b"
    and f: "cn_fd (f (conn a c)) = fd" "cn_buffer (f (conn a c)) = Some b" "cn_cursor (f (conn a c)) < msg_size a"
  shows "ep_inv (upd_conn c f a) q t" "same_config a (upd_conn c f a)"
    "lazy_sessions (upd_conn c f a) = (lazy_sessions a)(fd := Some \<lparr>s_cursor = cn_cursor (f (conn a c)), s_msg = msg a b\<rparr>)"
proof -
  have wf: "echo_wf a" using inv by (simp add: ep_inv_def)
  have "cn_fd (conn a c) = fd" using open_in_range[OF wf c] by simp
  then have "echo_wf (upd_conn c f a)" using f b by (intro echo_wf_upd_conn wf) simp_all
  then show "ep_inv (upd_conn c f a) q t" by (rule ep_inv_keep[OF inv]) simp_all
  show "same_config a (upd_conn c f a)" by simp
  have "view (upd_conn c f a) = (view a)(fd := Some (f (conn a c), Some (msg a b)))"
    using view_upd_conn[OF wf c, of f] f(2) by simp
  then show "lazy_sessions (upd_conn c f a) = (lazy_sessions a)(fd := Some \<lparr>s_cursor = cn_cursor (f (conn a c)), s_msg = msg a b\<rparr>)"
    by (rule lazy_upd) simp
qed

lemma on_close_sessions:
  assumes inv: "ep_inv a q t" and c: "conns a fd = Some c" and b: "cn_buffer (conn a c) = Some b"
    and run: "on_close_ep (traced_sys sys) (Some c) a t = Inr (a', t')"
  shows "ep_inv a' q t'" "same_config a a'" "conns a' = (conns a)(fd := None)"
    "tr_events t' = tr_events t" "tr_sent t' = tr_sent t" "lazy_sessions a' = (lazy_sessions a)(fd := None)"
proof -
  note cl = on_close_run[OF inv c b, unfolded run sum.case prod.case]
  then have "msg_size a' = msg_size a" by (simp add: same_config_def)
  with cl show "lazy_sessions a' = (lazy_sessions a)(fd := None)" by (intro lazy_del) simp_all
qed (use on_close_run[OF inv c b] run in simp_all)

lemma on_close_exit:
  "ep_inv a q t \<Longrightarrow> conns a fd = Some c \<Longrightarrow> cn_buffer (conn a c) = Some b \<Longrightarrow>
     on_close_ep (traced_sys sys) (Some c) a t = Inl x \<Longrightarrow> x = Exit 1"
  using on_close_run[of a q t fd c b] by simp

text \<open>A full message \<open>m\<close> was sent back on \<open>fd\<close>, and the session is empty again; or it was closed.\<close>

definition sent_back :: "int \<Rightarrow> byte list \<Rightarrow> echo \<Rightarrow> 'k traced \<Rightarrow> echo \<Rightarrow> incoming \<Rightarrow> 'k traced \<Rightarrow> bool" where
  "sent_back fd m a t a' q' t' \<longleftrightarrow> ep_inv a' q' t' \<and> same_config a a' \<and> (\<forall>x. x \<noteq> fd \<longrightarrow> conns a' x = conns a x) \<and>
     (\<exists>evs out. tr_events t' = tr_events t @ evs \<and> tr_sent t' = tr_sent t @ out \<and>
        (\<forall>x. x \<noteq> fd \<longrightarrow> sent_on x out = []) \<and> (\<forall>x. got_on x evs = []) \<and>
        (Hangup fd \<notin> set evs \<longrightarrow> sent_on fd out = m \<and>
           lazy_sessions a' = (lazy_sessions a)(fd := Some \<lparr>s_cursor = 0, s_msg = m\<rparr>)) \<and>
        (\<exists>x. lazy_sessions a' = (lazy_sessions a)(fd := x)) \<and>
        runs (msg_size a) evs ((lazy_sessions a)(fd := Some \<lparr>s_cursor = 0, s_msg = m\<rparr>)) (lazy_sessions a')
          (\<lambda>x. sent_on x out))"

lemma send_back_run:
  assumes inv: "ep_inv a q t" and c: "conns a fd = Some c" and b: "cn_buffer (conn a c) = Some b"
    and run: "send_back (traced_sys sys) c a t = Some r"
  shows "case r of Inl x \<Rightarrow> x = Exit 1 | Inr (a', t') \<Rightarrow> sent_back fd (msg a b) a t a' q t'"
proof -
  let ?f = "\<lambda>cn. cn\<lparr>cn_cursor := 0, cn_state := WRITING\<rparr>" and ?g = "\<lambda>cn. cn\<lparr>cn_state := READING\<rparr>"
  have sz: "0 < msg_size a" and wf: "echo_wf a" using inv by (simp_all add: ep_inv_def)
  have cfd: "cn_fd (conn a c) = fd" using open_in_range[OF wf c] by simp
  define a1 where "a1 = upd_conn c ?f a"
  note u = ep_upd_conn[OF inv c b, of ?f, folded a1_def]
  have a1: "ep_inv a1 q t" "lazy_sessions a1 = (lazy_sessions a)(fd := Some \<lparr>s_cursor = 0, s_msg = msg a b\<rparr>)"
    using u b cfd sz by simp_all
  have wf1: "echo_wf a1" using a1(1) by (simp add: ep_inv_def)
  have c1: "conns a1 = conns a" "conns a1 fd = Some c" "cn_buffer (conn a1 c) = Some b" "msg a1 b = msg a b"
    "msg_size a1 = msg_size a" "cn_fd (conn a1 c) = fd" "same_config a a1"
    using c b cfd by (simp_all add: a1_def conn_upd_conn)
  from run obtain w where w: "write_loop (traced_sys sys) c 0 a1 t = Some w"
    unfolding send_back_def a1_def[symmetric] Let_def by (cases "write_loop (traced_sys sys) c 0 a1 t") auto
  from write_loop_run[OF w, of fd b] wf1 c1 sz obtain sent t1 where y: "w = Inr (sent, t1)" "keeps t t1"
    "write_done (msg_size a) fd 0 (msg a b) t (sent, t1)" by auto
  have r: "r = (if sent then Inr (upd_conn c ?g a1, t1) else on_close_ep (traced_sys sys) (Some c) a1 t1)"
    using run w y(1) unfolding send_back_def Let_def a1_def by auto
  from y(3)[unfolded write_done_def prod.case] obtain evs out where d: "tr_events t1 = tr_events t @ evs"
    "tr_sent t1 = tr_sent t @ out" "Hangup fd \<in> set evs \<longleftrightarrow> \<not> sent" "\<forall>x. got_on x evs = []"
    "\<forall>x. x \<noteq> fd \<longrightarrow> sent_on x out = []" "sent \<longrightarrow> sent_on fd out = drop 0 (msg a b)"
    "\<forall>s. runs (msg_size a) evs (s(fd := Some \<lparr>s_cursor = 0, s_msg = msg a b\<rparr>))
        (s(fd := (if sent then Some \<lparr>s_cursor = 0, s_msg = msg a b\<rparr> else None))) (\<lambda>x. sent_on x out)" by blast
  have i1: "ep_inv a1 q t1" by (rule ep_inv_keep[OF a1(1) wf1 refl _ y(2)]) simp
  show ?thesis
  proof (cases sent)
    case True
    define a2 where "a2 = upd_conn c ?g a1"
    have "cn_cursor (conn a1 c) = 0" by (simp add: a1_def conn_upd_conn)
    then have a2: "ep_inv a2 q t1" "same_config a1 a2" "lazy_sessions a2 = (lazy_sessions a)(fd := Some \<lparr>s_cursor = 0, s_msg = msg a b\<rparr>)"
      using ep_upd_conn[OF i1 c1(2,3), of ?g] c1 sz a1(2) by (simp_all add: a2_def)
    have "conns a2 = conns a" by (simp add: a2_def c1(1))
    then show ?thesis unfolding r a2_def[symmetric] sent_back_def using True a2 d same_config_trans[OF c1(7) a2(2)]
      by (auto intro!: exI[of _ evs] exI[of _ out])
  next
    case False
    show ?thesis
    proof (cases r)
      case (Inl x)
      then show ?thesis using on_close_exit[OF i1 c1(2,3)] r False by simp
    next
      case (Inr z)
      obtain a' t' where z: "r = Inr (a', t')" using Inr by (cases z) simp
      note cl = on_close_sessions[OF i1 c1(2,3) r[unfolded if_not_P[OF False], symmetric, unfolded z]]
      have l: "lazy_sessions a' = (lazy_sessions a)(fd := None)" using cl(6) a1(2) by simp
      show ?thesis unfolding z sum.case prod.case sent_back_def l
        using cl c1(1) d False same_config_trans[OF c1(7) cl(2)] by (auto intro!: exI[of _ evs] exI[of _ out])
    qed
  qed
qed

text \<open>
  One call of \<open>on_read\<close> on an open connection.  What its read loop leaves: the buffer holds \<open>m\<close>
  with the received bytes up to \<open>k\<close>, everything else is as it was.
\<close>

definition read_to ::
  "read_end \<Rightarrow> nat \<Rightarrow> byte list \<Rightarrow> net_event list \<Rightarrow> int \<Rightarrow> nat \<Rightarrow> nat \<Rightarrow> incoming \<Rightarrow>
     echo \<Rightarrow> 'k traced \<Rightarrow> echo \<Rightarrow> 'k traced \<Rightarrow> bool" where
  "read_to e k m evs fd c b q a t a1 t1 \<longleftrightarrow>
     ep_inv a1 q t1 \<and> conns a fd = Some c \<and> cn_buffer (conn a c) = Some b \<and>
     conns a1 = conns a \<and> conn a1 c = conn a c \<and> same_config a a1 \<and> msg a1 b = m \<and>
     lazy_sessions a fd = Some \<lparr>s_cursor = cn_cursor (conn a c), s_msg = msg a b\<rparr> \<and>
     lazy_sessions a1 = (lazy_sessions a)(fd := Some \<lparr>s_cursor = cn_cursor (conn a c), s_msg = m\<rparr>) \<and>
     cn_cursor (conn a c) \<le> k \<and> (e \<noteq> R_Full \<longrightarrow> k < msg_size a) \<and> (e = R_Full \<longrightarrow> take k m = m) \<and>
     tr_events t1 = tr_events t @ evs \<and> tr_sent t1 = tr_sent t \<and>
     (Hangup fd \<in> set evs \<longleftrightarrow> e = R_Eof) \<and> (\<forall>x. x \<noteq> fd \<longrightarrow> got_on x evs = []) \<and>
     take k m = take (cn_cursor (conn a c)) (msg a b) @ got_on fd evs \<and>
     runs (msg_size a) evs (lazy_sessions a) ((lazy_sessions a)(fd := read_session e k m)) (\<lambda>_. [])"

lemma read_toI:
  assumes inv: "ep_inv a q t" and c: "conns a fd = Some c" and b: "cn_buffer (conn a c) = Some b"
    and d: "read_done fd c (cn_cursor (conn a c)) (msg a b) a t (e, k, a1, t1)" "keeps t t1"
  obtains m evs where "read_to e k m evs fd c b q a t a1 t1"
proof -
  let ?n = "msg_size a" and ?s = "lazy_sessions a"
  have s: "?s fd = Some \<lparr>s_cursor = cn_cursor (conn a c), s_msg = msg a b\<rparr>" using lazy_open[OF c] b by simp
  from d(1)[unfolded read_done_def prod.case] obtain m evs where m: "echo_wf a1" "conns a1 = conns a" "conn_cache a1 = conn_cache a"
    "same_config a a1" "view a1 = (view a)(fd := Some (conn a c, Some m))" "cn_cursor (conn a c) \<le> k"
    "e \<noteq> R_Full \<longrightarrow> k < ?n" "e = R_Full \<longrightarrow> k = ?n" "tr_events t1 = tr_events t @ evs" "tr_sent t1 = tr_sent t"
    "Hangup fd \<in> set evs \<longleftrightarrow> e = R_Eof" "\<forall>x. x \<noteq> fd \<longrightarrow> got_on x evs = []"
    "take k m = take (cn_cursor (conn a c)) (msg a b) @ got_on fd evs"
    "\<forall>s. runs ?n evs (s(fd := Some \<lparr>s_cursor = cn_cursor (conn a c), s_msg = msg a b\<rparr>)) (s(fd := read_session e k m)) (\<lambda>_. [])"
    by blast
  have rn: "runs ?n evs ?s (?s(fd := read_session e k m)) (\<lambda>_. [])"
    using m(14)[rule_format, of ?s] s by (simp add: fun_upd_idem)
  have sz: "msg_size a1 = ?n" using m(4) by (simp add: same_config_def)
  have c1: "conns a1 fd = Some c" "conn a1 c = conn a c" "cn_buffer (conn a1 c) = Some b" using c b m(2,3) by (simp_all add: conn_def)
  have mb: "msg a1 b = m" using open_msg(2)[OF m(1) c1(1,3)] m(5) by simp
  have l1: "lazy_sessions a1 = ?s(fd := Some \<lparr>s_cursor = cn_cursor (conn a c), s_msg = m\<rparr>)"
    using lazy_upd[OF m(5) sz] by simp
  have full: "e = R_Full \<longrightarrow> take k m = m" using open_msg(1)[OF m(1) c1(1,3)] m(8) mb sz by simp
  have "read_to e k m evs fd c b q a t a1 t1"
    unfolding read_to_def
    by (intro conjI ep_inv_keep[OF inv m(1,2,4) d(2)] c b c1 m(2,4) mb s l1 m(6,7) full m(9-13) rn)
  then show thesis by (rule that)
qed

lemma after_read_full:
  assumes rt: "read_to R_Full k m evs fd c b q a t a1 t1" and run: "send_back (traced_sys sys) c a1 t1 = Some r"
  shows "case r of Inl x \<Rightarrow> x = Exit 1 | Inr (a', t') \<Rightarrow> handled fd a t a' q t'"
proof -
  let ?n = "msg_size a" and ?s = "lazy_sessions a"
  note m = rt[unfolded read_to_def]
  have i1: "ep_inv a1 q t1" "conns a1 fd = Some c" "cn_buffer (conn a1 c) = Some b" "conns a1 = conns a"
    "same_config a a1" "msg a1 b = m" "msg_size a1 = ?n" using m by (simp_all add: same_config_def)
  note sb = send_back_run[OF i1(1-3) run]
  show ?thesis
  proof (cases r)
    case (Inl x) then show ?thesis using sb by simp
  next
    case (Inr z)
    obtain a' t' where z: "r = Inr (a', t')" using Inr by (cases z) simp
    have l1: "(lazy_sessions a1)(fd := v) = ?s(fd := v)" for v using m by simp
    from sb[unfolded z sum.case prod.case i1(6) sent_back_def i1(7) l1]
    obtain evs2 out x where w: "ep_inv a' q t'" "same_config a1 a'"
      "\<forall>x. x \<noteq> fd \<longrightarrow> conns a' x = conns a1 x" "tr_events t' = tr_events t1 @ evs2" "tr_sent t' = tr_sent t1 @ out"
      "\<forall>x. x \<noteq> fd \<longrightarrow> sent_on x out = []" "\<forall>x. got_on x evs2 = []"
      "Hangup fd \<notin> set evs2 \<longrightarrow> sent_on fd out = m \<and> lazy_sessions a' = ?s(fd := Some \<lparr>s_cursor = 0, s_msg = m\<rparr>)"
      "lazy_sessions a' = ?s(fd := x)"
      "runs ?n evs2 (?s(fd := Some \<lparr>s_cursor = 0, s_msg = m\<rparr>)) (lazy_sessions a') (\<lambda>x. sent_on x out)"
      by blast
    have "runs ?n evs ?s (?s(fd := Some \<lparr>s_cursor = 0, s_msg = m\<rparr>)) (\<lambda>_. [])" using m by (simp add: read_session_def)
    from runs_append[OF this w(10)] have "runs ?n (evs @ evs2) ?s (lazy_sessions a') (\<lambda>x. sent_on x out)" by simp
    moreover have "conserves (evs @ evs2) ?s (lazy_sessions a') (\<lambda>x. sent_on x out)"
    proof (rule conserves_one[of fd])
      show "lazy_sessions a' y = ?s y \<and> sent_on y out = [] \<and> got_on y (evs @ evs2) = []" if "y \<noteq> fd" for y
        using that w(6,7,9) m by simp
      show "\<exists>y. lazy_sessions a' fd = Some y \<and> pend x @ got_on fd (evs @ evs2) = sent_on fd out @ pend y"
        if "?s fd = Some x" "Hangup fd \<notin> set (evs @ evs2)" for x
        using that w(7,8) m by (auto simp: pend_def)
    qed
    ultimately have "adv ?n ?s t (lazy_sessions a') t'"
      unfolding adv_def using m w(4,5) by (intro exI[of _ "evs @ evs2"] exI[of _ out]) simp
    then show ?thesis using w(1,3) i1(4) same_config_trans[OF i1(5) w(2)] by (simp add: z handled_def)
  qed
qed

lemma after_read_eof:
  assumes rt: "read_to R_Eof k m evs fd c b q a t a1 t1" and run: "on_close_ep (traced_sys sys) (Some c) a1 t1 = r"
  shows "case r of Inl x \<Rightarrow> x = Exit 1 | Inr (a', t') \<Rightarrow> handled fd a t a' q t'"
proof -
  note m = rt[unfolded read_to_def]
  have i1: "ep_inv a1 q t1" "conns a1 fd = Some c" "cn_buffer (conn a1 c) = Some b" "same_config a a1" using m by simp_all
  show ?thesis
  proof (cases r)
    case (Inl x) then show ?thesis using on_close_exit[OF i1(1-3)] run by simp
  next
    case (Inr z)
    obtain a' t' where z: "r = Inr (a', t')" using Inr by (cases z) simp
    note cl = on_close_sessions[OF i1(1-3) run[unfolded z]]
    have l: "lazy_sessions a' = (lazy_sessions a)(fd := None)" using cl(6) m by simp
    have "conserves evs (lazy_sessions a) ((lazy_sessions a)(fd := None)) (\<lambda>x. [])"
      using m by (intro conserves_one[of fd]) simp_all
    then have "adv (msg_size a) (lazy_sessions a) t (lazy_sessions a') t'"
      unfolding adv_def l using m cl(4,5) by (intro exI[of _ evs] exI[of _ "[]"]) (simp add: read_session_def)
    then show ?thesis using cl(1,3) m same_config_trans[OF i1(4) cl(2)] by (simp add: z handled_def)
  qed
qed

lemma after_read_wait:
  assumes rt: "read_to R_Wait k m evs fd c b q a t a1 t1"
    and a2: "a2 = (if k > cn_cursor (conn a1 c) then upd_conn c (\<lambda>cn. cn\<lparr>cn_cursor := k\<rparr>) a1 else a1)"
  shows "handled fd a t a2 q t1"
proof -
  let ?f = "\<lambda>cn. cn\<lparr>cn_cursor := k\<rparr>" and ?s = "lazy_sessions a"
  note m = rt[unfolded read_to_def]
  have i1: "ep_inv a1 q t1" "conns a1 fd = Some c" "cn_buffer (conn a1 c) = Some b" "conn a1 c = conn a c"
    "msg_size a1 = msg_size a" using m by (simp_all add: same_config_def)
  have k: "k < msg_size a" "\<not> k > cn_cursor (conn a1 c) \<Longrightarrow> k = cn_cursor (conn a c)" using m by auto
  have fd: "cn_fd (conn a c) = fd" using open_in_range[OF _ i1(2)] i1(1,4) by (simp add: ep_inv_def)
  have u: "ep_inv a2 q t1" "same_config a a2" "lazy_sessions a2 = ?s(fd := Some \<lparr>s_cursor = k, s_msg = m\<rparr>)" "conns a2 = conns a"
    using ep_upd_conn[OF i1(1-3), of ?f] fd k m by (auto simp: a2 i1(4,5))
  have "conserves evs ?s (lazy_sessions a2) (\<lambda>x. [])"
    using m by (intro conserves_one[of fd]) (auto simp: u(3) pend_def)
  then have "adv (msg_size a) ?s t (lazy_sessions a2) t1"
    unfolding adv_def using m u(3) by (intro exI[of _ evs] exI[of _ "[]"]) (simp add: read_session_def)
  then show ?thesis using u(1,2,4) by (simp add: handled_def)
qed

lemma after_read_run:
  assumes "ep_inv a q t" "conns a fd = Some c" "cn_buffer (conn a c) = Some b"
    and "read_done fd c (cn_cursor (conn a c)) (msg a b) a t (e, k, a1, t1)" "keeps t t1"
    and run: "after_read (traced_sys sys) c (e, k, a1, t1) = Some r"
  shows "case r of Inl x \<Rightarrow> x = Exit 1 | Inr (a', t') \<Rightarrow> handled fd a t a' q t'"
proof -
  obtain m evs where rt: "read_to e k m evs fd c b q a t a1 t1" using read_toI[OF assms(1-5)] .
  show ?thesis
  proof (cases e)
    case R_Full then show ?thesis using after_read_full rt run by simp
  next
    case R_Eof then show ?thesis using after_read_eof rt run by simp
  next
    case R_Wait then show ?thesis using after_read_wait[OF rt[unfolded R_Wait] refl] run by auto
  qed
qed

lemma ep_inv_keeps: "ep_inv a q t \<Longrightarrow> keeps t t' \<Longrightarrow> ep_inv a q t'"
  by (simp add: ep_inv_def keeps_def)

lemma on_read_run:
  assumes inv: "ep_inv a q t" and c: "conns a fd = Some c" and run: "on_read_ep (traced_sys sys) (Some c) a t = Some r"
  shows "case r of Inl x \<Rightarrow> x = Exit 1 \<or> starved | Inr (a', t') \<Rightarrow> handled fd a t a' q t'"
proof -
  have wf: "echo_wf a" using inv by (simp add: ep_inv_def)
  have fd: "\<not> cn_fd (conn a c) < 0" using open_in_range[OF wf c] by simp
  obtain g k0 where g: "es_calloc sys (tr_k t) = (g, k0)" by force
  define t0 where "t0 = t\<lparr>tr_k := k0\<rparr>"
  have t0: "es_calloc (traced_sys sys) t = (g, t0)" using g by (simp add: traced_sys_def lift_call_def t0_def)
  have k0: "keeps t t0" using cal[OF g] by (simp add: keeps_def t0_def)
  show ?thesis
  proof (cases "ensure_buffer g c a")
    case (Inl x)
    then have "\<not> g" using ensure_buffer_ok[OF echo_wfD(2)[OF wf], of c] by auto
    then have starved using g by (auto simp: starved_def intro!: exI[of _ "tr_k t"])
    then show ?thesis using run fd t0 Inl by (auto simp: on_read_ep_def deref_def)
  next
    case (Inr a1)
    from read_start[OF ep_inv_keeps[OF inv k0] c Inr] obtain b where a1: "cn_buffer (conn a1 c) = Some b" "conns a1 fd = Some c"
      "ep_inv a1 q t0" "same_config a a1" "conns a1 = conns a" "lazy_sessions a1 = lazy_sessions a"
      "lazy_sessions a1 fd = Some \<lparr>s_cursor = cn_cursor (conn a1 c), s_msg = msg a1 b\<rparr>" by blast
    have wf1: "echo_wf a1" using a1(3) by (simp add: ep_inv_def)
    let ?g = "\<lambda>cn. cn\<lparr>cn_event_count := cn_event_count cn + 1\<rparr>"
    define a2 where "a2 = upd_conn c ?g a1"
    have r1: "cn_fd (conn a1 c) = fd" "cn_cursor (conn a1 c) < msg_size a1" using open_in_range[OF wf1 a1(2)] by auto
    have l2: "lazy_sessions a2 = lazy_sessions a"
      using ep_upd_conn(3)[OF a1(3,2,1), of ?g] r1 a1(1,6,7) by (simp add: a2_def fun_upd_idem)
    have i2: "ep_inv a2 q t0" using ep_upd_conn(1)[OF a1(3,2,1), of ?g] r1 a1(1) by (simp add: a2_def)
    have a2: "echo_wf a2" "conns a2 fd = Some c" "cn_buffer (conn a2 c) = Some b" "conns a2 = conns a" "same_config a a2"
      "cn_cursor (conn a2 c) < msg_size a2"
      using i2 a1 r1 by (simp_all add: a2_def ep_inv_def conn_upd_conn)
    have run': "Option.bind (read_loop (traced_sys sys) c (cn_cursor (conn a2 c)) a2 t0)
        (\<lambda>r. case r of Inl e \<Rightarrow> Some (Inl e) | Inr y \<Rightarrow> after_read (traced_sys sys) c y) = Some r"
      using run fd t0 Inr by (simp add: on_read_ep_def deref_def Let_def a2_def)
    then obtain w where w: "read_loop (traced_sys sys) c (cn_cursor (conn a2 c)) a2 t0 = Some w"
      by (cases "read_loop (traced_sys sys) c (cn_cursor (conn a2 c)) a2 t0") auto
    from read_loop_run[OF w, of fd b] a2 obtain e k a3 t3 where y: "w = Inr (e, k, a3, t3)" "keeps t0 t3"
      "read_done fd c (cn_cursor (conn a2 c)) (msg a2 b) a2 t0 (e, k, a3, t3)" by auto
    have "after_read (traced_sys sys) c (e, k, a3, t3) = Some r" using run' w y(1) by simp
    note ar = after_read_run[OF i2 a2(2,3) y(3,2) this]
    have sz: "msg_size a2 = msg_size a" using a2(5) by (simp add: same_config_def)
    have "adv (msg_size a) (lazy_sessions a) t (lazy_sessions a2) t0"
      unfolding l2 by (rule adv_same) (simp_all add: t0_def)
    then show ?thesis using ar adv_trans same_config_trans[OF a2(5)] a2(4)
      by (fastforce simp: handled_def sz split: sum.splits)
  qed
qed

text \<open>A part of the loop: the invariant holds again, and the sessions advanced with the trace.\<close>

definition served :: "echo \<Rightarrow> 'k traced \<Rightarrow> echo \<Rightarrow> incoming \<Rightarrow> 'k traced \<Rightarrow> bool" where
  "served a t a' q' t' \<longleftrightarrow> ep_inv a' q' t' \<and> same_config a a' \<and>
     adv (msg_size a) (lazy_sessions a) t (lazy_sessions a') t'"

lemma handled_served: "handled fd a t a' q' t' \<Longrightarrow> served a t a' q' t'"
  by (simp add: handled_def served_def)

lemma served_refl: "ep_inv a q t \<Longrightarrow> served a t a q t"
  unfolding served_def by (intro conjI same_config_refl adv_same refl)

lemma served_quiet:
  "ep_inv a' q' t' \<Longrightarrow> same_config a a' \<Longrightarrow> lazy_sessions a' = lazy_sessions a \<Longrightarrow>
     tr_events t' = tr_events t \<Longrightarrow> tr_sent t' = tr_sent t \<Longrightarrow> served a t a' q' t'"
  unfolding served_def by (simp add: adv_same)

lemma served_trans:
  assumes "served a t a1 q1 t1" "served a1 t1 a' q' t'" shows "served a t a' q' t'"
proof -
  have "msg_size a1 = msg_size a" using assms(1) by (simp add: served_def same_config_def)
  then show ?thesis using assms adv_trans same_config_trans unfolding served_def by metis
qed

text \<open>Accepting hands connections over; it changes no session.\<close>

lemma ep_inv_push:
  assumes "ep_inv a q t" "0 \<le> fd" "fd < mx" "fd \<notin> opn (tr_k t)" "reg (tr_k t') = reg (tr_k t)"
    "opn (tr_k t') = insert fd (opn (tr_k t))"
  shows "ep_inv a (q(i := fd # q i)) t'"
proof -
  have "fd \<notin> reg (tr_k t)" "fd \<notin> set (q (index a))" using assms(1,4) by (auto simp: ep_inv_def)
  then show ?thesis using assms unfolding ep_inv_def by (cases "i = index a") (auto simp: subset_iff)
qed

definition accepted_only :: "echo \<Rightarrow> 'k traced \<Rightarrow> (echo \<times> incoming \<times> 'k traced) res \<Rightarrow> bool" where
  "accepted_only a t r \<longleftrightarrow>
     (case r of Inl x \<Rightarrow> x = Exit 1
      | Inr (a', q', t') \<Rightarrow> ep_inv a' q' t' \<and> same_config a a' \<and> conns a' = conns a \<and>
          lazy_sessions a' = lazy_sessions a \<and> tr_events t' = tr_events t \<and> tr_sent t' = tr_sent t)"

text \<open>One accepted connection, from the successful \<open>accept4\<close> to the next turn of the loop.\<close>

lemma handover_run:
  assumes inv: "ep_inv a q t" and f1: "fd \<notin> opn (tr_k t)" "0 \<le> fd" "fd < mx"
    and k: "reg k2 = reg (tr_k t)" "opn k2 = insert fd (opn (tr_k t))"
    and run: "(case lift_call (es_cpu sys fd) (t\<lparr>tr_k := k2\<rparr>) of (None, k3) \<Rightarrow> Some (Inl (Exit 1))
       | (Some i, k3) \<Rightarrow> (case lift_call (es_notify sys i) k3 of (b, k4) \<Rightarrow>
           if \<not> b then Some (Inl (Exit 1))
           else rec (a\<lparr>accept_count := accept_count a + 1\<rparr>) (q(i := fd # q i)) k4)) = Some r"
    and rec: "\<And>a q t r. ep_inv a q t \<Longrightarrow> rec a q t = Some r \<Longrightarrow> accepted_only a t r"
  shows "accepted_only a t r"
proof -
  let ?a1 = "a\<lparr>accept_count := accept_count a + 1\<rparr>"
  obtain i k3 where i: "es_cpu sys fd k2 = (i, k3)" by force
  note run1 = run[unfolded lift_call_eq[of "es_cpu sys fd" "t\<lparr>tr_k := k2\<rparr>", simplified, OF i] Let_def prod.case]
  show ?thesis
  proof (cases i)
    case None
    then show ?thesis using run1 by (auto simp: accepted_only_def)
  next
    case (Some j)
    obtain b k4 where b: "es_notify sys j k3 = (b, k4)" by force
    have l4: "lift_call (es_notify sys j) (t\<lparr>tr_k := k3\<rparr>) = (b, t\<lparr>tr_k := k4\<rparr>)"
      using lift_call_eq[of "es_notify sys j" "t\<lparr>tr_k := k3\<rparr>" b k4] b by simp
    let ?q = "q(j := fd # q j)" and ?t4 = "t\<lparr>tr_k := k4\<rparr>"
    show ?thesis
    proof (cases b)
      case False
      then show ?thesis using run1 l4 Some by (auto simp: accepted_only_def)
    next
      case True
      have a1: "echo_wf ?a1 = echo_wf a" "view ?a1 = view a" using echo_wf_cong(1,2)[of ?a1 a] by simp_all
      then have l1: "lazy_sessions ?a1 = lazy_sessions a" by (intro lazy_cong) simp_all
      have "ep_inv a ?q ?t4" by (rule ep_inv_push[OF inv]) (use f1 k cp[OF i] nt[OF b] in auto)
      then have "ep_inv ?a1 ?q ?t4" using a1 by (simp add: ep_inv_def)
      moreover have "rec ?a1 ?q ?t4 = Some r" using run1 l4 Some True by simp
      ultimately have "accepted_only ?a1 ?t4 r" by (rule rec)
      then show ?thesis using l1 by (auto simp: accepted_only_def same_config_def split: sum.splits)
    qed
  qed
qed

lemma on_accept_run:
  "on_accept_ep S l a q t = Some r \<Longrightarrow> S = traced_sys sys \<longrightarrow> ep_inv a q t \<longrightarrow> accepted_only a t r"
proof (induction rule: on_accept_ep_induct)
  case (step rec S l a q t r)
  show ?case
  proof (intro impI)
    assume S: "S = traced_sys sys" and inv: "ep_inv a q t"
    obtain g k1 where g: "es_malloc sys (tr_k t) = (g, k1)" by force
    obtain c k2 where c: "es_accept sys l k1 = (c, k2)" by force
    note f1 = mal[OF g] and f2 = ac[OF c]
    have l2: "lift_call (es_malloc sys) t = (g, t\<lparr>tr_k := k1\<rparr>)"
      "lift_call (es_accept sys l) (t\<lparr>tr_k := k1\<rparr>) = (c, t\<lparr>tr_k := k2\<rparr>)"
      using lift_call_eq[of "es_malloc sys" t g k1] lift_call_eq[of "es_accept sys l" "t\<lparr>tr_k := k1\<rparr>" c k2] g c by simp_all
    note run = step(2)[unfolded S traced_calls l2 Let_def prod.case]
    show "accepted_only a t r"
    proof (cases "g \<and> (\<exists>fd. c = Acc_Conn fd)")
      case False
      have "ep_inv a q (t\<lparr>tr_k := k2\<rparr>)" if "c = Acc_Again" using inv f1 f2 that by (simp add: ep_inv_def)
      then show ?thesis using run False by (cases c) (auto simp: accepted_only_def split: if_splits)
    next
      case True
      then obtain fd where fd: "g" "c = Acc_Conn fd" by blast
      have "accepted_only a t r" if "ep_inv a q t" "rec (traced_sys sys) l a q t = Some r" for a q t r
        using step(1)[OF that(2)] that(1) by simp
      from handover_run[OF inv _ _ _ _ _ _ this, of fd k2] show ?thesis using f1 f2 fd run by simp
    qed
  qed
qed

text \<open>Taking over a connection that waits.\<close>

lemma new_conn_run:
  assumes inv: "ep_inv a (q(index a := fd # fds)) t" and n: "new_conn g fd a = Inr (c, a1)"
    and fin: "es_add sys fd (tr_k t0) = (True, k1)" and t0: "keeps t t0"
  shows "set_conn_slot fd (Some c) a1 = Inr (a1\<lparr>conns := (conns a1)(fd := Some c)\<rparr>)"
    "cn_fd (conn (a1\<lparr>conns := (conns a1)(fd := Some c)\<rparr>) c) = fd"
    "a2 = upd_conn c (\<lambda>cn. cn\<lparr>cn_state := READING\<rparr>) (a1\<lparr>conns := (conns a1)(fd := Some c)\<rparr>) \<Longrightarrow>
       ep_inv a2 (q(index a := fds)) (t1\<lparr>tr_k := k1\<rparr>) \<and> same_config a a2 \<and> conns a2 = (conns a)(fd := Some c) \<and>
       conns a fd = None \<and>
       lazy_sessions a2 = (lazy_sessions a)(fd := Some \<lparr>s_cursor = 0, s_msg = replicate (msg_size a) 0\<rparr>)"
proof -
  have i: "echo_wf a" "0 < msg_size a" "conns a fd = None" "0 \<le> fd" "fd < max_fd a" "fd \<in> opn (tr_k t)"
    using inv by (auto simp: ep_inv_def)
  from new_conn_open[OF i(1) n i(3,4,5,2)]
  have nc: "echo_wf (a1\<lparr>conns := (conns a1)(fd := Some c)\<rparr>)"
    "view (a1\<lparr>conns := (conns a1)(fd := Some c)\<rparr>) = (view a)(fd := Some (zero_connection\<lparr>cn_fd := fd\<rparr>, None))"
    "conns a1 = conns a" "same_config a a1" "conn a1 c = zero_connection\<lparr>cn_fd := fd\<rparr>" by blast+
  let ?b = "a1\<lparr>conns := (conns a1)(fd := Some c)\<rparr>" and ?f = "\<lambda>cn. cn\<lparr>cn_state := READING\<rparr>"
  have b: "conns ?b fd = Some c" "conn ?b c = zero_connection\<lparr>cn_fd := fd\<rparr>" "msg_size ?b = msg_size a" "same_config a ?b"
    using nc(4,5) by (simp_all add: conn_def same_config_def)
  show "set_conn_slot fd (Some c) a1 = Inr ?b" using i nc(4) by (simp add: set_conn_slot_def same_config_def)
  show "cn_fd (conn ?b c) = fd" by (simp add: b(2))
  assume a2: "a2 = upd_conn c ?f ?b"
  have "view a2 = (view ?b)(fd := Some (?f (conn ?b c), map_option (msg ?b) (cn_buffer (?f (conn ?b c)))))"
    unfolding a2 by (rule view_upd_conn[OF nc(1) b(1)])
  then have v: "view a2 = (view a)(fd := Some (zero_connection\<lparr>cn_fd := fd, cn_state := READING\<rparr>, None))"
    unfolding b(2) nc(2) by (simp add: zero_connection_def)
  have w: "echo_wf a2" unfolding a2 using b i by (intro echo_wf_upd_conn nc(1)) (simp_all add: zero_connection_def)
  have cf: "same_config a a2" "conns a2 = (conns a)(fd := Some c)" using b(4) nc(3) by (simp_all add: a2)
  have "lazy_sessions a2 = (lazy_sessions a)(fd := Some \<lparr>s_cursor = 0, s_msg = replicate (msg_size a) 0\<rparr>)"
    using lazy_new[OF v] cf(1) by (simp add: same_config_def zero_connection_def)
  moreover have "opn k1 = opn (tr_k t)" "reg k1 = insert fd (reg (tr_k t))"
    using ad[OF fin] t0 by (auto simp: keeps_def)
  then have "ep_inv a2 (q(index a := fds)) (t1\<lparr>tr_k := k1\<rparr>)"
    using inv w cf by (auto simp: ep_inv_def same_config_def)
  ultimately show "ep_inv a2 (q(index a := fds)) (t1\<lparr>tr_k := k1\<rparr>) \<and> same_config a a2 \<and> conns a2 = (conns a)(fd := Some c) \<and>
       conns a fd = None \<and> lazy_sessions a2 = (lazy_sessions a)(fd := Some \<lparr>s_cursor = 0, s_msg = replicate (msg_size a) 0\<rparr>)"
    using cf i(3) by blast
qed

lemma new_conn_taken:
  assumes inv: "ep_inv a (q(index a := fd # fds)) t" and n: "new_conn g fd a = Inr (c, a1)"
    and fin: "es_add sys fd (tr_k t0) = (True, k1)"
    and t0: "keeps t t0" "tr_events t0 = tr_events t" "tr_sent t0 = tr_sent t"
    and a2: "a2 = upd_conn c (\<lambda>cn. cn\<lparr>cn_state := READING\<rparr>) (a1\<lparr>conns := (conns a1)(fd := Some c)\<rparr>)"
    and t1: "t1 = observe [Accepted fd fd] (t0\<lparr>tr_k := k1\<rparr>)"
  shows "served a t a2 (q(index a2 := fds)) t1" "conns a2 = (conns a)(fd := Some c)" "index a2 = index a"
proof -
  have t1': "t1 = (observe [Accepted fd fd] t0)\<lparr>tr_k := k1\<rparr>" by (simp add: t1 observe_def)
  note nc = new_conn_run(3)[OF inv n fin t0(1) a2, of "observe [Accepted fd fd] t0", folded t1']
  show ix: "index a2 = index a" "conns a2 = (conns a)(fd := Some c)" using nc by (simp_all add: same_config_def)
  have "lazy_sessions a fd = None" using nc by (simp add: lazy_sessions_def)
  then have "conserves [Accepted fd fd] (lazy_sessions a) (lazy_sessions a2) (\<lambda>_. [])"
    using nc by (intro conserves_one[of fd]) simp_all
  then have "adv (msg_size a) (lazy_sessions a) t (lazy_sessions a2) t1"
    unfolding adv_def using runs_accepted[of "msg_size a" fd fd "lazy_sessions a"] nc t0(2,3)
    by (intro exI[of _ "[Accepted fd fd]"] exI[of _ "[]"]) (simp add: t1)
  then show "served a t a2 (q(index a2 := fds)) t1" using nc unfolding served_def ix(1) by blast
qed

lemma new_conns_run:
  "ep_inv a (q(index a := fds)) t \<Longrightarrow> handle_new_conns (traced_sys sys) fds a t = r \<Longrightarrow>
     (case r of Inl x \<Rightarrow> x = Exit 1 \<or> starved
      | Inr (a', t') \<Rightarrow> served a t a' (q(index a := [])) t' \<and> (\<forall>x. conns a x \<noteq> None \<longrightarrow> conns a' x \<noteq> None))"
proof (induction fds arbitrary: a t)
  case Nil
  then have r: "r = Inr (a, t)" by simp
  show ?case unfolding r sum.case prod.case using served_refl[OF Nil.prems(1)] by blast
next
  case (Cons fd fds)
  obtain g k0 where g: "es_calloc sys (tr_k t) = (g, k0)" by force
  define t0 where "t0 = t\<lparr>tr_k := k0\<rparr>"
  have t0: "es_calloc (traced_sys sys) t = (g, t0)" using g by (simp add: traced_calls lift_call_def t0_def)
  have kp: "keeps t t0" using cal[OF g] by (simp add: keeps_def t0_def)
  have wf: "echo_wf a" using Cons.prems(1) by (simp add: ep_inv_def)
  show ?case
  proof (cases "new_conn g fd a")
    case (Inl x)
    then have "\<not> g" using new_conn_ok[OF echo_wfD(1)[OF wf], of fd] by auto
    then have starved using g by (auto simp: starved_def intro!: exI[of _ "tr_k t"])
    then show ?thesis using Cons.prems(2) t0 Inl by auto
  next
    case (Inr p)
    obtain c a1 where p: "p = (c, a1)" by force
    obtain fin k1 where fin: "es_add sys fd k0 = (fin, k1)" by force
    from new_conn_open[OF wf Inr[unfolded p]] Cons.prems(1)
    have "same_config a a1" "conn a1 c = zero_connection\<lparr>cn_fd := fd\<rparr>" by (auto simp: ep_inv_def)
    then have st: "set_conn_slot fd (Some c) a1 = Inr (a1\<lparr>conns := (conns a1)(fd := Some c)\<rparr>)"
      "cn_fd (conn (a1\<lparr>conns := (conns a1)(fd := Some c)\<rparr>) c) = fd"
      using Cons.prems(1) by (auto simp: ep_inv_def set_conn_slot_def same_config_def conn_def)
    show ?thesis
    proof (cases fin)
      case False
      then show ?thesis using Cons.prems(2) t0 Inr p fin st
        by (auto simp: traced_calls lift_call_def t0_def Let_def)
    next
      case True
      define a2 where "a2 = upd_conn c (\<lambda>cn. cn\<lparr>cn_state := READING\<rparr>) (a1\<lparr>conns := (conns a1)(fd := Some c)\<rparr>)"
      define t1 where "t1 = observe [Accepted fd fd] (t0\<lparr>tr_k := k1\<rparr>)"
      have "es_add sys fd (tr_k t0) = (True, k1)" using fin True by (simp add: t0_def)
      from new_conn_taken[OF Cons.prems(1) Inr[unfolded p] this kp _ _ a2_def t1_def]
      have nc: "served a t a2 (q(index a2 := fds)) t1" "conns a2 = (conns a)(fd := Some c)" "index a2 = index a"
        by (simp_all add: t0_def)
      have r: "handle_new_conns (traced_sys sys) fds a2 t1 = r"
        using Cons.prems(2) t0 Inr p fin True st
        by (simp add: traced_calls lift_call_def t0_def t1_def a2_def Let_def)
      have "ep_inv a2 (q(index a2 := fds)) t1" using nc(1) by (simp add: served_def)
      note ih = Cons.IH[OF this r, unfolded nc(3)]
      have k: "conns a2 x \<noteq> None" if "conns a x \<noteq> None" for x using that unfolding nc(2) by simp
      show ?thesis
      proof (cases r)
        case (Inl x) then show ?thesis using ih by simp
      next
        case (Inr z)
        then show ?thesis using ih k served_trans[OF nc(1)] by (cases z) (simp del: not_None_eq)
      qed
    qed
  qed
qed

text \<open>The hand-over event: every connection that waits is taken over.\<close>

lemma on_event_run:
  assumes inv: "ep_inv a q t" and run: "on_event (traced_sys sys) a q t = r"
  shows "case r of Inl x \<Rightarrow> x = Exit 1 \<or> starved | Inr (a', q', t') \<Rightarrow> handled fd a t a' q' t'"
proof -
  obtain e k1 where e: "es_event sys (tr_k t) = (e, k1)" by force
  define t1 where "t1 = t\<lparr>tr_k := k1\<rparr>"
  have t1: "es_event (traced_sys sys) t = (e, t1)" using e by (simp add: traced_calls lift_call_def t1_def)
  have kp: "keeps t t1" using evt[OF e] by (simp add: keeps_def t1_def)
  note i1 = ep_inv_keeps[OF inv kp]
  have s1: "served a t a q t1" by (rule served_quiet[OF i1]) (simp_all add: t1_def)
  show ?thesis
  proof (cases e)
    case Ev_Count
    have q: "q(index a := q (index a)) = q" by simp
    show ?thesis
    proof (cases "handle_new_conns (traced_sys sys) (q (index a)) a t1")
      case (Inl x)
      then have "r = Inl x" using run t1 Ev_Count by (simp add: on_event_def)
      then show ?thesis using new_conns_run[of a q "q (index a)" t1, unfolded q, OF i1 Inl] by simp
    next
      case (Inr z)
      obtain a' t' where z: "z = (a', t')" by force
      have rr: "r = Inr (a', q(index a := []), t')" using run t1 Ev_Count Inr z by (simp add: on_event_def)
      note nc = new_conns_run[of a q "q (index a)" t1, unfolded q, OF i1 Inr[unfolded z], unfolded sum.case prod.case]
      then have "served a t a' (q(index a := [])) t'" using served_trans[OF s1] by blast
      then show ?thesis using nc unfolding rr sum.case prod.case handled_def served_def by blast
    qed
  next
    case Ev_Again
    then have "r = Inr (a, q, t1)" using run t1 by (simp add: on_event_def)
    then show ?thesis using s1 by (simp add: handled_def served_def)
  next
    case Ev_Fail
    then show ?thesis using run t1 by (auto simp: on_event_def)
  qed
qed

text \<open>One event of \<open>epoll_wait\<close> without an error, on a descriptor of the thread or of an open connection.\<close>

lemma handle_event_run:
  assumes inv: "ep_inv a q t" and fd: "fd = listen \<or> fd = event_fd \<or> conns a fd \<noteq> None"
    and run: "handle_event (traced_sys sys) listen event_fd (False, fd) a q t = Some r"
  shows "case r of Inl x \<Rightarrow> x = Exit 1 \<or> starved | Inr (a', q', t') \<Rightarrow> handled fd a t a' q' t'"
proof -
  consider (acc) "fd = listen" | (ev) "fd \<noteq> listen" "fd = event_fd" | (io) "fd \<noteq> listen" "fd \<noteq> event_fd" by blast
  then show ?thesis
  proof cases
    case acc
    then have r: "on_accept_ep (traced_sys sys) listen a q t = Some r" using run by (simp add: handle_event_def)
    show ?thesis using on_accept_run[OF r] inv
      by (cases r) (auto simp: accepted_only_def handled_def adv_same)
  next
    case ev
    then show ?thesis using run by (intro on_event_run[OF inv]) (simp add: handle_event_def)
  next
    case io
    then obtain c where c: "conns a fd = Some c" using fd by auto
    have wf: "echo_wf a" using inv by (simp add: ep_inv_def)
    have "Option.bind (on_read_ep (traced_sys sys) (Some c) a t)
        (\<lambda>r. case r of Inl e \<Rightarrow> Some (Inl e) | Inr (a2, k2) \<Rightarrow> Some (Inr (a2, q, k2))) = Some r"
      using run io conn_slot_open[OF wf c] by (simp add: handle_event_def)
    then obtain y where y: "on_read_ep (traced_sys sys) (Some c) a t = Some y"
      "r = (case y of Inl e \<Rightarrow> Inl e | Inr (a2, k2) \<Rightarrow> Inr (a2, q, k2))"
      by (cases "on_read_ep (traced_sys sys) (Some c) a t") (auto split: sum.splits)
    show ?thesis using on_read_run[OF inv c y(1)] y(2) by (cases y) auto
  qed
qed

text \<open>The batch of events of one \<open>epoll_wait\<close>.\<close>

lemma handle_events_run:
  "ep_inv a q t \<Longrightarrow> distinct (map snd evs) \<Longrightarrow>
   \<forall>ev \<in> set evs. \<not> fst ev \<and> (snd ev = listen \<or> snd ev = event_fd \<or> conns a (snd ev) \<noteq> None) \<Longrightarrow>
   handle_events (traced_sys sys) listen event_fd evs a q t = Some r \<Longrightarrow>
   (case r of Inl x \<Rightarrow> x = Exit 1 \<or> starved | Inr (a', q', t') \<Rightarrow> served a t a' q' t')"
proof (induction evs arbitrary: a q t)
  case Nil
  then have r: "r = Inr (a, q, t)" by simp
  show ?case unfolding r sum.case prod.case by (rule served_refl[OF Nil.prems(1)])
next
  case (Cons ev evs)
  obtain fd where ev: "ev = (False, fd)" "fd = listen \<or> fd = event_fd \<or> conns a fd \<noteq> None"
    using Cons.prems(3) by (cases ev) auto
  from Cons.prems(4) obtain y where y: "handle_event (traced_sys sys) listen event_fd (False, fd) a q t = Some y"
    "(case y of Inl e \<Rightarrow> Some (Inl e) | Inr (a1, q1, t1) \<Rightarrow>
        handle_events (traced_sys sys) listen event_fd evs a1 q1 t1) = Some r"
    unfolding ev(1) by (cases "handle_event (traced_sys sys) listen event_fd (False, fd) a q t") auto
  note h = handle_event_run[OF Cons.prems(1) ev(2) y(1)]
  show ?case
  proof (cases y)
    case (Inl x)
    then show ?thesis using y(2) h by auto
  next
    case (Inr z)
    obtain a1 q1 t1 where z: "z = (a1, q1, t1)" by (cases z)
    have h1: "handled fd a t a1 q1 t1" using h by (simp add: Inr z)
    have "\<not> fst e \<and> (snd e = listen \<or> snd e = event_fd \<or> conns a1 (snd e) \<noteq> None)" if e: "e \<in> set evs" for e
    proof -
      have "snd e \<noteq> fd" using Cons.prems(2) e by (auto simp: ev)
      moreover have "\<not> fst e \<and> (snd e = listen \<or> snd e = event_fd \<or> conns a (snd e) \<noteq> None)"
        using Cons.prems(3) e by (simp del: not_None_eq)
      ultimately show ?thesis using h1 unfolding handled_def by blast
    qed
    then have ok: "\<forall>e \<in> set evs. \<not> fst e \<and> (snd e = listen \<or> snd e = event_fd \<or> conns a1 (snd e) \<noteq> None)" by blast
    have "ep_inv a1 q1 t1" "distinct (map snd evs)" using h1 Cons.prems(2) by (simp_all add: handled_def)
    moreover have "handle_events (traced_sys sys) listen event_fd evs a1 q1 t1 = Some r" using y(2) Inr z by simp
    ultimately have "case r of Inl x \<Rightarrow> x = Exit 1 \<or> starved | Inr (a', q', t') \<Rightarrow> served a1 t1 a' q' t'"
      using Cons.IH ok by blast
    then show ?thesis using served_trans[OF handled_served[OF h1]] by (cases r) auto
  qed
qed

end

text \<open>Rounds of the loop on a quiet kernel.\<close>

context quiet_kernel
begin

lemma not_starved: "\<not> starved"
proof
  assume starved
  then obtain k where "\<not> fst (es_calloc sys k)" by (auto simp: starved_def)
  then show False using granted[OF prod.collapse[symmetric], of k] by simp
qed

lemma rounds_run:
  "ep_inv a q t \<Longrightarrow> serve_rounds m (traced_sys sys) listen event_fd a q t = Some r \<Longrightarrow>
   (case r of Inl x \<Rightarrow> x = Exit 1 | Inr (a', q', t') \<Rightarrow> served a t a' q' t')"
proof (induction m arbitrary: a q t)
  case 0
  then have r: "r = Inr (a, q, t)" by simp
  show ?case unfolding r sum.case prod.case by (rule served_refl[OF "0.prems"(1)])
next
  case (Suc m)
  obtain w k1 where w: "es_wait sys (tr_k t) = (w, k1)" by force
  define t1 where "t1 = t\<lparr>tr_k := k1\<rparr>"
  have t1: "es_wait (traced_sys sys) t = (w, t1)" using w by (simp add: traced_calls lift_call_def t1_def)
  have kp: "keeps t t1" using wt[OF w] by (simp add: keeps_def t1_def)
  note i1 = ep_inv_keeps[OF Suc.prems(1) kp]
  have s1: "served a t a q t1" by (rule served_quiet[OF i1]) (simp_all add: t1_def)
  show ?case
  proof (cases "\<exists>evs. w = Ep_Events evs \<and> evs \<noteq> []")
    case False
    then have "r = Inl (Exit 1)" using Suc.prems(2) t1 by (cases w) auto
    then show ?thesis by simp
  next
    case True
    then obtain evs where evs: "w = Ep_Events evs" "evs \<noteq> []" by blast
    have d: "distinct (map snd evs)" "snd ` set evs \<subseteq> reg (tr_k t) \<union> {listen, event_fd}" "True \<notin> fst ` set evs"
      using wt[OF w] evs no_error[OF w[unfolded evs(1)]] by auto
    have ok: "\<forall>ev \<in> set evs. \<not> fst ev \<and> (snd ev = listen \<or> snd ev = event_fd \<or> conns a (snd ev) \<noteq> None)"
    proof
      fix ev assume ev: "ev \<in> set evs"
      then have "snd ev \<in> reg (tr_k t) \<union> {listen, event_fd}" "\<not> fst ev" using d(2,3) by auto
      then show "\<not> fst ev \<and> (snd ev = listen \<or> snd ev = event_fd \<or> conns a (snd ev) \<noteq> None)"
        using Suc.prems(1) unfolding ep_inv_def by blast
    qed
    from Suc.prems(2) obtain y where y: "handle_events (traced_sys sys) listen event_fd evs a q t1 = Some y"
      "(case y of Inl e \<Rightarrow> Some (Inl e) | Inr (a1, q1, k2) \<Rightarrow>
          serve_rounds m (traced_sys sys) listen event_fd a1 q1 k2) = Some r"
      using t1 evs by (cases "handle_events (traced_sys sys) listen event_fd evs a q t1") auto
    note h = handle_events_run[OF i1 d(1) ok y(1)]
    show ?thesis
    proof (cases y)
      case (Inl x)
      then show ?thesis using h y(2) not_starved by auto
    next
      case (Inr z)
      obtain a2 q2 t2 where z: "z = (a2, q2, t2)" by (cases z)
      have s2: "served a t a2 q2 t2" using served_trans[OF s1] h by (simp add: Inr z)
      then have "ep_inv a2 q2 t2" by (simp add: served_def)
      moreover have "serve_rounds m (traced_sys sys) listen event_fd a2 q2 t2 = Some r" using y(2) Inr z by simp
      ultimately have "case r of Inl x \<Rightarrow> x = Exit 1 | Inr (a', q', t') \<Rightarrow> served a2 t2 a' q' t'" by (rule Suc.IH)
      then show ?thesis using served_trans[OF s2] by (cases r) auto
    qed
  qed
qed

end

end
