(* ===== verification/Epoll_Service.thy ===== *)
theory Epoll_Service
  imports Echo_Epoll
begin

text \<open>
  The echo server on epoll from its first \<open>epoll_wait\<close> on: what it serves, when it returns, and how
  it stops.  A simulated network provides the contract of the system calls.
\<close>

section \<open>A simulated network\<close>

text \<open>
  Connections that wait to be accepted, chunks under way in the order they arrive, connections the
  client has closed, open and registered descriptors, and the counter behind the event descriptor.
  A write takes everything; with nothing ready the wait fails, where the system call would block.
\<close>

record sim =
  si_queue :: "int list"
  si_in :: "(int \<times> byte list) list"
  si_hup :: "int list"
  si_open :: "int list"
  si_reg :: "int list"
  si_count :: nat

fun take_chunk :: "int \<Rightarrow> nat \<Rightarrow> (int \<times> byte list) list \<Rightarrow> byte list \<times> (int \<times> byte list) list" where
  "take_chunk fd n [] = ([], [])"
| "take_chunk fd n ((g, bs) # xs) =
     (if g = fd then (take n bs, if length bs \<le> n then xs else (g, drop n bs) # xs)
      else (let (cs, ys) = take_chunk fd n xs in (cs, (g, bs) # ys)))"

definition sim_read :: "int \<Rightarrow> nat \<Rightarrow> sim \<Rightarrow> io_reply \<times> sim" where
  "sim_read fd n k =
     (if fd \<notin> fst ` set (si_in k) then (if fd \<in> set (si_hup k) then Io_Bytes [] else Io_Again, k)
      else let (bs, xs) = take_chunk fd n (si_in k) in (Io_Bytes bs, k\<lparr>si_in := xs\<rparr>))"

definition sim_accept :: "int \<Rightarrow> int \<Rightarrow> sim \<Rightarrow> accept_reply \<times> sim" where
  "sim_accept mx l k =
     (case si_queue k of
        [] \<Rightarrow> (Acc_Again, k)
      | fd # xs \<Rightarrow>
          if 0 \<le> fd \<and> fd < mx \<and> fd \<notin> set (si_open k)
          then (Acc_Conn fd, k\<lparr>si_queue := xs, si_open := fd # si_open k\<rparr>) else (Acc_Fail, k))"

definition sim_event :: "sim \<Rightarrow> event_reply \<times> sim" where
  "sim_event k = (if si_count k = 0 then (Ev_Again, k) else (Ev_Count, k\<lparr>si_count := 0\<rparr>))"

definition sim_wait :: "int \<Rightarrow> int \<Rightarrow> sim \<Rightarrow> epoll_reply \<times> sim" where
  "sim_wait l e k =
     (let ready = (if 0 < si_count k then [e] else []) @ (if si_queue k \<noteq> [] then [l] else []) @
        filter (\<lambda>fd. fd \<noteq> l \<and> fd \<noteq> e \<and> (fd \<in> fst ` set (si_in k) \<or> fd \<in> set (si_hup k))) (remdups (si_reg k))
      in if ready = [] \<or> l = e then (Ep_Error, k) else (Ep_Events (map (Pair False) ready), k))"

definition sim_sys :: "int \<Rightarrow> int \<Rightarrow> int \<Rightarrow> sim ep_sys" where
  "sim_sys mx l e =
     \<lparr>es_read = sim_read,
      es_write = (\<lambda>fd bs k. (int (length bs), k)),
      es_add = (\<lambda>fd k. (True, k\<lparr>si_reg := fd # si_reg k\<rparr>)),
      es_del = (\<lambda>fd k. (True, k\<lparr>si_reg := filter (\<lambda>x. x \<noteq> fd) (si_reg k)\<rparr>)),
      es_close = (\<lambda>fd k. k\<lparr>si_reg := filter (\<lambda>x. x \<noteq> fd) (si_reg k), si_open := filter (\<lambda>x. x \<noteq> fd) (si_open k)\<rparr>),
      es_accept = sim_accept mx,
      es_cpu = (\<lambda>fd k. (Some 0, k)),
      es_notify = (\<lambda>i k. (True, k\<lparr>si_count := si_count k + 1\<rparr>)),
      es_event = sim_event,
      es_wait = sim_wait l e,
      es_malloc = (\<lambda>k. (True, k)),
      es_calloc = (\<lambda>k. (True, k))\<rparr>"

lemma take_chunk_le: "length (fst (take_chunk fd n xs)) \<le> n"
  by (induction xs rule: take_chunk.induct) (auto simp: case_prod_beta Let_def)

interpretation sim: quiet_kernel "sim_sys mx l e" "\<lambda>k. set (si_reg k)" "\<lambda>k. set (si_open k)" mx l e for mx l e
proof unfold_locales
  show "set (si_reg k') = set (si_reg k) \<and> set (si_open k') = set (si_open k) \<and> (\<forall>bs. r = Io_Bytes bs \<longrightarrow> length bs \<le> n)"
    if "es_read (sim_sys mx l e) fd n k = (r, k')" for fd n k r k'
    using that take_chunk_le[of fd n "si_in k"]
    by (auto simp: sim_sys_def sim_read_def Let_def case_prod_beta split: if_splits)
  show "set (si_reg k') = set (si_reg k) \<and>
      (case c of Acc_Conn fd \<Rightarrow> 0 \<le> fd \<and> fd < mx \<and> fd \<notin> set (si_open k) \<and> set (si_open k') = insert fd (set (si_open k))
       | _ \<Rightarrow> set (si_open k') = set (si_open k))"
    if "es_accept (sim_sys mx l e) lf k = (c, k')" for lf k c k'
    using that by (auto simp: sim_sys_def sim_accept_def split: list.splits if_splits)
  show "set (si_reg k') = set (si_reg k) \<and> set (si_open k') = set (si_open k) \<and>
      (\<forall>evs. w = Ep_Events evs \<longrightarrow> distinct (map snd evs) \<and> snd ` set evs \<subseteq> set (si_reg k) \<union> {l, e})"
    if "es_wait (sim_sys mx l e) k = (w, k')" for w k k'
    using that by (auto simp: sim_sys_def sim_wait_def Let_def o_def split: if_splits)
  show "True \<notin> fst ` set evs" if "es_wait (sim_sys mx l e) k = (Ep_Events evs, k')" for evs k k'
    using that by (auto simp: sim_sys_def sim_wait_def Let_def split: if_splits)
qed (auto simp: sim_sys_def sim_event_def split: if_splits)

section \<open>Setting a worker up\<close>

text \<open>The results of the calls \<open>worker_func\<close> makes on top of those of \<open>setup_env\<close>.\<close>

record epoll_env = setup_env +
  pe_eventfd :: int
  pe_epoll :: int
  pe_add_event :: int
  pe_add_listen :: int

record epoll_io = worker_io +
  ei_event :: int
  ei_epoll :: int

definition epoll_setup ::
  "epoll_env \<Rightarrow> int \<Rightarrow> nat \<Rightarrow> (nat \<Rightarrow> nat) \<Rightarrow> nat \<Rightarrow> nat \<Rightarrow> (echo \<times> epoll_io) res" where
  "epoll_setup su mx sz at nr my_cpu =
     (if \<not> su_calloc_me su then Inl (Exit 1)
      else if \<not> my_cpu < nr then Inl (Fault OutOfBounds)
      else if pe_eventfd su < 0 then Inl (Exit 1)
      else
        rbind (init_cache_or_exit (su_msg_header su) (su_msg_entry su) (replicate sz 0) 1024) (\<lambda>mc.
        rbind (init_cache_or_exit (su_conn_header su) (su_conn_entry su) zero_connection 1024) (\<lambda>cc.
        rbind (open_listener (su_sock su)) (\<lambda>l.
        if pe_epoll su < 0 then Inl (Exit 1)
        else if pe_add_event su \<noteq> 0 then Inl (Exit 1)
        else if pe_add_listen su \<noteq> 0 then Inl (Exit 1)
        else rbind (setup_perf (su_perf su) my_cpu) (\<lambda>p.
          Inr (fresh_echo mx sz at my_cpu cc mc,
               \<lparr>io_listen = l, io_perf = p, ei_event = pe_eventfd su, ei_epoll = pe_epoll su\<rparr>))))))"

text \<open>A worker without connections, as the set-up leaves it.\<close>

definition idle :: "int \<Rightarrow> echo \<Rightarrow> bool" where
  "idle mx a \<longleftrightarrow> echo_wf a \<and> 0 < msg_size a \<and> max_fd a = mx \<and> (\<forall>fd. conns a fd = None)"

lemma idle_fresh:
  assumes "init_cache_or_exit h f (replicate sz 0) n = Inr mc" "init_cache_or_exit h' f' zero_connection n' = Inr cc" "0 < sz"
  shows "idle mx (fresh_echo mx sz at i cc mc)"
proof -
  have "echo_wf (fresh_echo mx sz at i cc mc)"
    using fresh_echo_wf init_cache_or_exit_Inr[OF assms(1)] init_cache_or_exit_Inr[OF assms(2)] by blast
  then show ?thesis using assms(3) by (simp add: idle_def fresh_echo_def)
qed

lemma epoll_setup_idle:
  assumes "epoll_setup su mx sz at nr i = Inr (a, io)" "0 < sz"
  shows "idle mx a \<and> msg_size a = sz \<and> index a = i"
proof -
  from assms obtain mc cc where c: "init_cache_or_exit (su_msg_header su) (su_msg_entry su) (replicate sz 0) 1024 = Inr mc"
    "init_cache_or_exit (su_conn_header su) (su_conn_entry su) zero_connection 1024 = Inr cc"
    "a = fresh_echo mx sz at i cc mc"
    by (auto simp: epoll_setup_def rbind_eq_Inr_iff split: if_splits)
  show ?thesis using idle_fresh[OF c(1,2) assms(2)] c(3) by (simp add: fresh_echo_def)
qed

definition fresh_trace :: "'k \<Rightarrow> 'k traced" where
  "fresh_trace k = \<lparr>tr_k = k, tr_events = [], tr_sent = []\<rparr>"

text \<open>Rounds from there on.\<close>

lemma rounds_served:
  assumes a: "idle mx a" and k: "quiet_kernel sys reg opn mx l e" "reg k = {}" "opn k = {}" "q (index a) = []"
    and run: "serve_rounds m (traced_sys sys) l e a q (fresh_trace k) = Some r"
  shows "case r of Inl x \<Rightarrow> x = Exit 1
    | Inr (a', q', t') \<Rightarrow> epoll_kernel.ep_inv reg opn mx a' q' t' \<and> same_config a a' \<and>
        adv (msg_size a) (\<lambda>_. None) (fresh_trace k) (lazy_sessions a') t'"
proof -
  note K = quiet_kernel.axioms(1)[OF k(1)]
  have inv: "epoll_kernel.ep_inv reg opn mx a q (fresh_trace k)"
    using a k by (simp add: epoll_kernel.ep_inv_def[OF K] fresh_trace_def idle_def)
  have l: "lazy_sessions a = (\<lambda>_. None)" using a by (auto simp: idle_def lazy_sessions_def)
  show ?thesis using quiet_kernel.rounds_run[OF k(1) inv run] unfolding epoll_kernel.served_def[OF K] l .
qed

section \<open>Properties\<close>


text \<open>
  C12: While a connection of the epoll server stays open, between any two rounds it neither loses nor
  makes up nor reorders a byte: what was pending and what it received since are what it sent since
  and what is pending then, and less than a message is pending.
\<close>

theorem epoll_conserves_bytes:
  assumes "idle mx a" and "quiet_kernel sys reg opn mx l e" "reg k = {}" "opn k = {}" "q (index a) = []"
    and "serve_rounds m (traced_sys sys) l e a q (fresh_trace k) = Some (Inr (a1, q1, t1))"
    and "serve_rounds j (traced_sys sys) l e a1 q1 t1 = Some (Inr (a2, q2, t2))"
    and "lazy_sessions a1 fd = Some x" "tr_events t2 = tr_events t1 @ evs" "Hangup fd \<notin> set evs"
  shows "\<exists>y out. lazy_sessions a2 fd = Some y \<and> tr_sent t2 = tr_sent t1 @ out \<and>
    pend x @ got_on fd evs = sent_on fd out @ pend y \<and> length (pend y) < msg_size a"
proof -
  note s = rounds_served[OF assms(1-6), unfolded sum.case prod.case]
  have i: "msg_size a1 = msg_size a" using s by (simp add: same_config_def)
  note t = quiet_kernel.rounds_run[OF assms(2) _ assms(7),
    unfolded sum.case prod.case epoll_kernel.served_def[OF quiet_kernel.axioms(1)[OF assms(2)]] i]
  have s2: "epoll_kernel.ep_inv reg opn mx a2 q2 t2" "same_config a1 a2"
    "adv (msg_size a) (lazy_sessions a1) t1 (lazy_sessions a2) t2" using t s by blast+
  from s2(3) obtain evs' out where e: "tr_events t2 = tr_events t1 @ evs'" "tr_sent t2 = tr_sent t1 @ out"
    "conserves evs' (lazy_sessions a1) (lazy_sessions a2) (\<lambda>fd. sent_on fd out)" by (auto simp: adv_def)
  have "evs' = evs" using e(1) assms(9) by simp
  with e(3) assms(8,10) obtain y where y: "lazy_sessions a2 fd = Some y" "pend x @ got_on fd evs = sent_on fd out @ pend y"
    by (auto simp: conserves_def)
  then obtain c where c: "conns a2 fd = Some c" by (auto simp: lazy_sessions_def view_def)
  have wf: "echo_wf a2" "msg_size a2 = msg_size a"
    using s2(1,2) i epoll_kernel.ep_inv_def[OF quiet_kernel.axioms(1)[OF assms(2)]] by (auto simp: same_config_def)
  have "s_cursor y < msg_size a" using lazy_open[OF c] y(1) open_in_range[OF wf(1) c] wf(2) by simp
  then show ?thesis using y e(2) by (intro exI[of _ y] exI[of _ out]) (simp add: pend_def)
qed

text \<open>
  C22: \<open>on_read\<close> of the epoll server returns, on any tables and any open or closed connection, if
  writes of something do not fail; a connection whose writes keep failing makes it try for ever.
\<close>

theorem on_read_returns_unless_writes_fail:
  "((\<forall>fd bs k. 0 \<le> fst (es_write sys fd bs k)) \<longrightarrow> (\<exists>r. on_read_ep sys p a k = Some r)) \<and>
    ((\<forall>bs k. fst (es_write sys (cn_fd (conn a c)) bs k) < 0) \<longrightarrow> cursor < msg_size a \<longrightarrow>
       cn_buffer (conn a c) \<noteq> None \<longrightarrow> write_loop sys c cursor a k = None)"
proof (intro conjI impI)
  assume w: "\<forall>fd bs k. 0 \<le> fst (es_write sys fd bs k)"
  have sb: "\<exists>r. send_back sys c a1 k1 = Some r" for c a1 k1
  proof -
    have "\<exists>r. write_loop sys c 0 (upd_conn c (\<lambda>cn. cn\<lparr>cn_cursor := 0, cn_state := WRITING\<rparr>) a1) k1 = Some r"
      by (rule write_loop_returns) (use w in simp)
    then show ?thesis by (auto simp: send_back_def Let_def split: sum.splits)
  qed
  then have ar: "\<exists>r. after_read sys c y = Some r" for c y
    by (cases "(sys, c, y)" rule: after_read.cases) auto
  show "\<exists>r. on_read_ep sys p a k = Some r"
  proof (cases "\<exists>c k0 a1 g. deref p = Inr c \<and> \<not> cn_fd (conn a c) < 0 \<and> es_calloc sys k = (g, k0) \<and> ensure_buffer g c a = Inr a1")
    case True
    then obtain c k0 a1 g where 1: "deref p = Inr c" "\<not> cn_fd (conn a c) < 0" "es_calloc sys k = (g, k0)" "ensure_buffer g c a = Inr a1"
      by blast
    obtain r where "read_loop sys c (cn_cursor (conn (upd_conn c (\<lambda>cn. cn\<lparr>cn_event_count := cn_event_count cn + 1\<rparr>) a1) c))
        (upd_conn c (\<lambda>cn. cn\<lparr>cn_event_count := cn_event_count cn + 1\<rparr>) a1) k0 = Some r"
      by (rule exE[OF read_loop_returns])
    then show ?thesis using 1 ar by (cases r) (simp_all add: on_read_ep_def Let_def)
  next
    case False
    then show ?thesis
      by (cases "deref p"; cases "es_calloc sys k") (auto simp: on_read_ep_def Let_def split: sum.splits)
  qed
next
  assume "\<forall>bs k. fst (es_write sys (cn_fd (conn a c)) bs k) < 0" "cursor < msg_size a" "cn_buffer (conn a c) \<noteq> None"
  then show "write_loop sys c cursor a k = None" using write_loop_spins[of sys c cursor a k] by (cases "write_loop sys c cursor a k") auto
qed

text \<open>
  C38: An event with \<open>EPOLLERR\<close> or \<open>EPOLLHUP\<close> on an open connection stops the server: either the
  descriptor cannot be taken out of the interest list and it exits, or the connection is cleaned up,
  its slot emptied, and then handled once more through the empty slot.
\<close>

theorem broken_connection_faults:
  assumes "echo_wf a" "conns a fd = Some c" "fd \<noteq> listen" "fd \<noteq> event_fd"
  shows "handle_event sys listen event_fd (True, fd) a q k =
    Some (Inl (if fst (es_del sys fd k) then Fault NullDeref else Exit 1))"
proof -
  have sl: "conn_slot a fd = Inr (Some c)" by (rule conn_slot_open[OF assms(1,2)])
  have r: "0 \<le> fd" "fd < max_fd a" "cn_fd (conn a c) = fd" using open_in_range[OF assms(1,2)] by auto
  obtain d k1 where d: "es_del sys fd k = (d, k1)" by force
  let ?ax = "a\<lparr>closed_fds := fd # closed_fds a, conn_count := conn_count a + 1\<rparr>"
  have wx: "echo_wf ?ax" using assms(1) echo_wf_cong(1)[of ?ax a] by simp
  have eq: "a\<lparr>conns := (conns a)(fd := None), closed_fds := fd # closed_fds a, conn_count := Suc (conn_count a)\<rparr> =
      ?ax\<lparr>conns := (conns ?ax)(fd := None)\<rparr>" by simp
  show ?thesis
  proof (cases "cn_buffer (conn a c)")
    case None
    then have "free_conn c (?ax\<lparr>conns := (conns ?ax)(fd := None)\<rparr>) = Inl (Fault NullDeref)"
      by (simp add: free_conn_def cache_free_def conn_def)
    note fc = this[folded eq]
    show ?thesis using sl r d assms(3,4) fc
      by (simp add: handle_event_def on_close_ep_def deref_def set_conn_slot_def Let_def)
  next
    case (Some b)
    then have "conns ?ax fd = Some c" "cn_buffer (conn ?ax c) = Some b" using assms(2) by (simp_all add: conn_def)
    from release_conn[OF wx this] obtain a' where a': "free_conn c (?ax\<lparr>conns := (conns ?ax)(fd := None)\<rparr>) = Inr a'"
      "conns a' = (conns ?ax)(fd := None)" "same_config ?ax a'" by blast
    have "conn_slot a' fd = Inr None" using a'(2,3) r by (simp add: conn_slot_def same_config_def)
    then show ?thesis using sl r d assms(3,4) a'(1)[folded eq]
      by (simp add: handle_event_def on_close_ep_def on_read_ep_def deref_def set_conn_slot_def Let_def)
  qed
qed

section \<open>A run\<close>

text \<open>
  A worker with messages of four bytes on descriptors 3 (listening) and 4 (events), and a client on
  descriptor 5 that sends its message in two chunks, half of the next one, and closes.
\<close>

definition demo_sim :: sim where
  "demo_sim = \<lparr>si_queue = [5], si_in = [(5, [1, 2]), (5, [3, 4, 5, 6])], si_hup = [], si_open = [], si_reg = [], si_count = 0\<rparr>"

definition small_echo :: echo where
  "small_echo =
     (case (init_cache_or_exit True (\<lambda>_. True) (replicate 4 0) 2, init_cache_or_exit True (\<lambda>_. True) zero_connection 2) of
        (Inr mc, Inr cc) \<Rightarrow> fresh_echo 10 4 (\<lambda>b. b) 0 cc mc
      | _ \<Rightarrow> fresh_echo 10 4 (\<lambda>b. b) 0 (empty_cache zero_connection) (empty_cache []))"

lemma small_echo_idle: "idle 10 small_echo \<and> msg_size small_echo = 4"
proof -
  obtain mc where mc: "init_cache_or_exit True (\<lambda>_. True) (replicate 4 (0 :: byte)) 2 = Inr mc"
    by (rule exE[OF init_cache_granted])
  obtain cc where cc: "init_cache_or_exit True (\<lambda>_. True) zero_connection 2 = Inr cc"
    by (rule exE[OF init_cache_granted])
  have "idle 10 (fresh_echo 10 4 (\<lambda>b. b) 0 cc mc)" by (rule idle_fresh[OF mc cc]) simp
  then show ?thesis by (simp add: small_echo_def mc cc) (simp add: fresh_echo_def)
qed

definition demo_rounds :: "nat \<Rightarrow> (echo \<times> incoming \<times> sim traced) res option" where
  "demo_rounds m = serve_rounds m (traced_sys (sim_sys 10 3 4)) 3 4 small_echo (\<lambda>_. []) (fresh_trace demo_sim)"

definition demo_more :: "echo \<Rightarrow> incoming \<Rightarrow> sim traced \<Rightarrow> (echo \<times> incoming \<times> sim traced) res option" where
  "demo_more = serve_rounds 1 (traced_sys (sim_sys 10 3 4)) 3 4"

lemma epoll_demo_run:
  "case demo_rounds 3 of
     Some (Inr (a, q, t)) \<Rightarrow>
       tr_events t = [Accepted 5 5, Got 5 [1, 2], Got 5 [3, 4], Sent 5 4] \<and> tr_sent t = [(5, [1, 2, 3, 4])] \<and>
       lazy_sessions a 5 = Some \<lparr>s_cursor = 0, s_msg = [1, 2, 3, 4]\<rparr> \<and>
       (case demo_more a q t of
          Some (Inr (a2, q2, t2)) \<Rightarrow> tr_events t2 = tr_events t @ [Got 5 [5, 6]]
        | _ \<Rightarrow> False)
   | _ \<Rightarrow> False"
  by code_simp

lemma demo_obtain:
  obtains a q t a2 q2 t2 where "demo_rounds 3 = Some (Inr (a, q, t))" "tr_sent t = [(5, [1, 2, 3, 4])]"
    "lazy_sessions a 5 = Some \<lparr>s_cursor = 0, s_msg = [1, 2, 3, 4]\<rparr>"
    "demo_more a q t = Some (Inr (a2, q2, t2))"
    "tr_events t2 = tr_events t @ [Got 5 [5, 6]]"
    "tr_events t = [Accepted 5 5, Got 5 [1, 2], Got 5 [3, 4], Sent 5 4]"
proof -
  obtain z where z: "demo_rounds 3 = Some (Inr z)"
    using epoll_demo_run by (cases "demo_rounds 3"; cases "the (demo_rounds 3)") auto
  obtain a q t where zz: "z = (a, q, t)" by (cases z)
  obtain w where w: "demo_more a q t = Some (Inr w)"
    using epoll_demo_run z zz by (cases "demo_more a q t"; cases "the (demo_more a q t)") auto
  obtain a2 q2 t2 where "w = (a2, q2, t2)" by (cases w)
  then show thesis using that[of a q t a2 q2 t2] epoll_demo_run z zz w by simp
qed


theorem epoll_conserves_bytes_witness:
  "\<exists>y out. pend \<lparr>s_cursor = 0, s_msg = [1, 2, 3, 4]\<rparr> @ [5, 6] = sent_on 5 out @ pend y \<and> length (pend y) < 4"
proof -
  obtain a q t a2 q2 t2 where d: "demo_rounds 3 = Some (Inr (a, q, t))"
    "lazy_sessions a 5 = Some \<lparr>s_cursor = 0, s_msg = [1, 2, 3, 4]\<rparr>"
    "demo_more a q t = Some (Inr (a2, q2, t2))"
    "tr_events t2 = tr_events t @ [Got 5 [5, 6]]" by (rule demo_obtain) blast
  have "\<exists>y out. lazy_sessions a2 5 = Some y \<and> tr_sent t2 = tr_sent t @ out \<and>
      pend \<lparr>s_cursor = 0, s_msg = [1, 2, 3, 4]\<rparr> @ got_on 5 [Got 5 [5, 6]] = sent_on 5 out @ pend y \<and>
      length (pend y) < msg_size small_echo"
    by (rule epoll_conserves_bytes[OF _ sim.quiet_kernel_axioms _ _ _ d(1)[unfolded demo_rounds_def] d(3)[unfolded demo_more_def] d(2,4)])
      (use small_echo_idle in \<open>simp_all add: demo_sim_def\<close>)
  then show ?thesis using small_echo_idle by auto
qed

text \<open>A peer whose writes always fail, and an open connection with its buffer.\<close>

definition stuck_sys :: "sim ep_sys" where
  "stuck_sys = (sim_sys 10 3 4)\<lparr>es_write := (\<lambda>fd bs k. (- 1, k))\<rparr>"

definition open_echo :: echo where
  "open_echo =
     (case new_conn True 5 small_echo of
        Inr (c, a) \<Rightarrow> (case ensure_buffer True c (a\<lparr>conns := (conns a)(5 := Some c)\<rparr>) of Inr a1 \<Rightarrow> a1 | _ \<Rightarrow> small_echo)
      | _ \<Rightarrow> small_echo)"

lemma open_echo_run:
  "conns open_echo 5 \<noteq> None \<and> cn_buffer (conn open_echo (the (conns open_echo 5))) \<noteq> None \<and> msg_size open_echo = 4"
  by code_simp

lemma open_echo_wf: "echo_wf open_echo"
proof -
  note w = small_echo_idle[unfolded idle_def]
  obtain c a where n: "new_conn True 5 small_echo = Inr (c, a)" using new_conn_ok echo_wfD(1) w by blast
  have "echo_wf small_echo" "conns small_echo 5 = None" "(0 :: int) \<le> 5" "(5 :: int) < max_fd small_echo" "0 < msg_size small_echo"
    using w by auto
  from new_conn_open[OF this(1) n this(2-5)]
  have a: "echo_wf (a\<lparr>conns := (conns a)(5 := Some c)\<rparr>)" by blast
  obtain a1 where e: "ensure_buffer True c (a\<lparr>conns := (conns a)(5 := Some c)\<rparr>) = Inr a1"
    using ensure_buffer_ok[OF echo_wfD(2)[OF a]] by blast
  have "conns (a\<lparr>conns := (conns a)(5 := Some c)\<rparr>) 5 = Some c" by simp
  from ensure_buffer_open[OF a this e] have "echo_wf a1" by blast
  then show ?thesis using n e by (simp add: open_echo_def)
qed

theorem on_read_returns_unless_writes_fail_witness:
  "(\<exists>r. on_read_ep (sim_sys 10 3 4) (conns open_echo 5) open_echo demo_sim = Some r) \<and>
   write_loop stuck_sys (the (conns open_echo 5)) 0 open_echo demo_sim = None"
proof
  have "\<forall>fd bs k. 0 \<le> fst (es_write (sim_sys 10 3 4) fd bs k)" by (simp add: sim_sys_def)
  then show "\<exists>r. on_read_ep (sim_sys 10 3 4) (conns open_echo 5) open_echo demo_sim = Some r"
    using on_read_returns_unless_writes_fail[of "sim_sys 10 3 4"] by blast
  have "\<forall>bs k. fst (es_write stuck_sys (cn_fd (conn open_echo (the (conns open_echo 5)))) bs k) < 0"
    by (simp add: stuck_sys_def)
  then show "write_loop stuck_sys (the (conns open_echo 5)) 0 open_echo demo_sim = None"
    using on_read_returns_unless_writes_fail[of stuck_sys] open_echo_run by (metis zero_less_numeral)
qed

theorem broken_connection_faults_witness:
  "handle_event (sim_sys 10 3 4) 3 4 (True, 5) open_echo (\<lambda>_. []) demo_sim = Some (Inl (Fault NullDeref))"
proof -
  obtain c where c: "conns open_echo 5 = Some c" using open_echo_run by auto
  show ?thesis using broken_connection_faults[OF open_echo_wf c, of 3 4 "sim_sys 10 3 4"] by (simp add: sim_sys_def)
qed

end
