(* ===== verification/Io_Loops.thy ===== *)
theory Io_Loops
  imports Upcall_Prelude
begin

text \<open>
  The loops by which the programs write a buffer to a descriptor or fill one from it, over calls
  that may move any part of what they are asked to.  The contract of such calls is a locale over an
  abstract stream; a pipe with bounded transfers provides it.
\<close>

section \<open>Loops\<close>

text \<open>
  \<open>do { n = write(fd, &buf[cursor], size - cursor); if (n <= 0) fail; cursor += n; }
  while (cursor < size)\<close>: whether it got through.  A loop that never ends is \<open>None\<close>.
\<close>

partial_function (option) write_out :: "('b list \<Rightarrow> 'k \<Rightarrow> int \<times> 'k) \<Rightarrow> 'b list \<Rightarrow> nat \<Rightarrow> 'k \<Rightarrow> (bool \<times> 'k) option" where
  "write_out put buf cursor k =
     (let (n, k1) = put (drop cursor buf) k in
      if n \<le> 0 then Some (False, k1)
      else if cursor + nat n < length buf then write_out put buf (cursor + nat n) k1
      else Some (True, k1))"

text \<open>
  \<open>do { n = write(...); if (n < 0) fail; index += n; } while (n > 0 && index < size)\<close>: a write of
  nothing ends the loop without an error.
\<close>

partial_function (option) write_some :: "('b list \<Rightarrow> 'k \<Rightarrow> int \<times> 'k) \<Rightarrow> 'b list \<Rightarrow> nat \<Rightarrow> 'k \<Rightarrow> (bool \<times> 'k) option" where
  "write_some put buf index k =
     (let (n, k1) = put (drop index buf) k in
      if n < 0 then Some (False, k1)
      else if 0 < n \<and> index + nat n < length buf then write_some put buf (index + nat n) k1
      else Some (True, k1))"

text \<open>
  The same for reading: a call yields the bytes it stored, or \<open>None\<close> for an error.  \<open>read_some\<close> takes
  the end of the stream for the end of the loop, \<open>read_full\<close> for an error.
\<close>

partial_function (option) read_some ::
  "(nat \<Rightarrow> 'k \<Rightarrow> 'b list option \<times> 'k) \<Rightarrow> nat \<Rightarrow> 'b list \<Rightarrow> 'k \<Rightarrow> (bool \<times> 'b list \<times> 'k) option" where
  "read_some get want got k =
     (case get (want - length got) k of
        (None, k1) \<Rightarrow> Some (False, got, k1)
      | (Some bs, k1) \<Rightarrow>
          if bs \<noteq> [] \<and> length got + length bs < want then read_some get want (got @ bs) k1
          else Some (True, got @ bs, k1))"

partial_function (option) read_full ::
  "(nat \<Rightarrow> 'k \<Rightarrow> 'b list option \<times> 'k) \<Rightarrow> nat \<Rightarrow> 'b list \<Rightarrow> 'k \<Rightarrow> (bool \<times> 'b list \<times> 'k) option" where
  "read_full get want got k =
     (case get (want - length got) k of
        (None, k1) \<Rightarrow> Some (False, got, k1)
      | (Some bs, k1) \<Rightarrow>
          if bs = [] then Some (False, got, k1)
          else if length got + length bs < want then read_full get want (got @ bs) k1
          else Some (True, got @ bs, k1))"

declare write_out.simps [code] write_some.simps [code] read_some.simps [code] read_full.simps [code]

text \<open>
  A descriptor may be one part of a larger state, read by \<open>g\<close> and replaced by \<open>u\<close>: a loop on the
  whole is then the loop on the part.
\<close>

lemmas write_some_induct = write_some.raw_induct[rotated 1, consumes 1, case_names step]
lemmas read_some_induct = read_some.raw_induct[rotated 1, consumes 1, case_names step]
lemmas read_full_induct = read_full.raw_induct[rotated 1, consumes 1, case_names step]

lemma write_some_lift:
  assumes run: "write_some put buf i (g h) = Some (b, p)"
    and lens: "\<And>bs h. put' bs h = (fst (put bs (g h)), u (snd (put bs (g h))) h)" "\<And>p h. g (u p h) = p"
      "\<And>p q h. u p (u q h) = u p h"
  shows "write_some put' buf i h = Some (b, u p h)"
proof -
  have "write_some f buf i x = Some y \<Longrightarrow> f = put \<Longrightarrow> x = g h \<Longrightarrow> write_some put' buf i h = Some (fst y, u (snd y) h)"
    for f x y h
  proof (induction arbitrary: h rule: write_some_induct)
    case (step rec f buf i x y)
    obtain n x1 where n: "put (drop i buf) (g h) = (n, x1)" by force
    have p': "put' (drop i buf) h = (n, u x1 h)" by (simp add: lens(1) n)
    show ?case
    proof (cases "0 < n \<and> i + nat n < length buf")
      case True
      then have "rec put buf (i + nat n) x1 = Some y" using step.hyps n step.prems by simp
      from step.IH[OF this refl, of "u x1 h"] show ?thesis
        using True p' by (subst write_some.simps) (simp add: lens(2,3))
    next
      case False
      then have "y = (\<not> n < 0, x1)" using step.hyps n step.prems by (auto split: if_splits)
      then show ?thesis using False p' by (subst write_some.simps) auto
    qed
  qed
  from this[OF run refl refl] show ?thesis by simp
qed

lemma read_some_lift:
  assumes run: "read_some get want got (g h) = Some (b, gs, p)"
    and lens: "\<And>n h. get' n h = (fst (get n (g h)), u (snd (get n (g h))) h)" "\<And>p h. g (u p h) = p"
      "\<And>p q h. u p (u q h) = u p h"
  shows "read_some get' want got h = Some (b, gs, u p h)"
proof -
  have "read_some f want got x = Some y \<Longrightarrow> f = get \<Longrightarrow> x = g h \<Longrightarrow>
      read_some get' want got h = Some (fst y, fst (snd y), u (snd (snd y)) h)" for f got x y h
  proof (induction arbitrary: h rule: read_some_induct)
    case (step rec f want got x y)
    obtain r x1 where r: "get (want - length got) (g h) = (r, x1)" by force
    have g': "get' (want - length got) h = (r, u x1 h)" by (simp add: lens(1) r)
    show ?case
    proof (cases r)
      case (Some bs)
      show ?thesis
      proof (cases "bs \<noteq> [] \<and> length got + length bs < want")
        case True
        then have "rec get want (got @ bs) x1 = Some y" using step.hyps r Some step.prems by simp
        from step.IH[OF this refl, of "u x1 h"] show ?thesis
          using True g' Some by (subst read_some.simps) (simp add: lens(2,3))
      next
        case False
        then show ?thesis using step.hyps r Some step.prems g' by (subst read_some.simps) (auto split: if_splits)
      qed
    next
      case None
      then show ?thesis using step.hyps r step.prems g' by (subst read_some.simps) auto
    qed
  qed
  from this[OF run refl refl] show ?thesis by simp
qed

lemma read_full_lift:
  assumes run: "read_full get want got (g h) = Some (b, gs, p)"
    and lens: "\<And>n h. get' n h = (fst (get n (g h)), u (snd (get n (g h))) h)" "\<And>p h. g (u p h) = p"
      "\<And>p q h. u p (u q h) = u p h"
  shows "read_full get' want got h = Some (b, gs, u p h)"
proof -
  have "read_full f want got x = Some y \<Longrightarrow> f = get \<Longrightarrow> x = g h \<Longrightarrow>
      read_full get' want got h = Some (fst y, fst (snd y), u (snd (snd y)) h)" for f got x y h
  proof (induction arbitrary: h rule: read_full_induct)
    case (step rec f want got x y)
    obtain r x1 where r: "get (want - length got) (g h) = (r, x1)" by force
    have g': "get' (want - length got) h = (r, u x1 h)" by (simp add: lens(1) r)
    show ?case
    proof (cases r)
      case (Some bs)
      show ?thesis
      proof (cases "bs \<noteq> [] \<and> length got + length bs < want")
        case True
        then have "rec get want (got @ bs) x1 = Some y" using step.hyps r Some step.prems by simp
        from step.IH[OF this refl, of "u x1 h"] show ?thesis
          using True g' Some by (subst read_full.simps) (simp add: lens(2,3))
      next
        case False
        then show ?thesis using step.hyps r Some step.prems g' by (subst read_full.simps) (auto split: if_splits)
      qed
    next
      case None
      then show ?thesis using step.hyps r step.prems g' by (subst read_full.simps) auto
    qed
  qed
  from this[OF run refl refl] show ?thesis by simp
qed

section \<open>The contract of a byte stream\<close>

locale byte_sink =
  fixes put :: "'b list \<Rightarrow> 'k \<Rightarrow> int \<times> 'k" and written :: "'k \<Rightarrow> 'b list"
  assumes put_prefix: "put bs k = (n, k') \<Longrightarrow> n \<le> int (length bs) \<and> written k' = written k @ take (nat n) bs"
begin

text \<open>Both write loops always end; what they have written when they get through is the whole buffer.\<close>

lemma write_out_returns: "\<exists>fin k'. write_out put buf cursor k = Some (fin, k')"
proof (induction "length buf - cursor" arbitrary: cursor k rule: less_induct)
  case less
  obtain n k1 where p: "put (drop cursor buf) k = (n, k1)" by force
  show ?case
  proof (cases "0 < n \<and> cursor + nat n < length buf")
    case True
    then have "length buf - (cursor + nat n) < length buf - cursor" by auto
    from less.hyps[OF this] True p show ?thesis by (subst write_out.simps) simp
  next
    case False
    then show ?thesis using p by (subst write_out.simps) auto
  qed
qed

lemma write_out_prefix:
  "write_out put buf cursor k = Some (fin, k') \<Longrightarrow> cursor \<le> length buf \<Longrightarrow>
    \<exists>m. cursor \<le> m \<and> m \<le> length buf \<and> written k' = written k @ drop cursor (take m buf) \<and> (fin \<longrightarrow> m = length buf)"
proof (induction "length buf - cursor" arbitrary: cursor k rule: less_induct)
  case less
  obtain n k1 where p: "put (drop cursor buf) k = (n, k1)" by force
  note w = put_prefix[OF p]
  have tk: "take (nat n) (drop cursor buf) = drop cursor (take (cursor + nat n) buf)"
    by (simp add: take_drop add.commute)
  show ?case
  proof (cases "n \<le> 0")
    case True
    then have "k' = k1" "\<not> fin" using less.prems(1) p by (subst (asm) write_out.simps, simp)+
    then show ?thesis using True w less.prems(2) by (intro exI[of _ cursor]) simp
  next
    case pos: False
    have "n \<le> int (length buf - cursor)" using w by simp
    then have le: "cursor + nat n \<le> length buf" using pos less.prems(2) by arith
    show ?thesis
    proof (cases "cursor + nat n < length buf")
      case True
      then have r: "write_out put buf (cursor + nat n) k1 = Some (fin, k')"
        using less.prems(1) p pos by (subst (asm) write_out.simps) simp
      have "length buf - (cursor + nat n) < length buf - cursor" using True pos by auto
      from less.hyps[OF this r le] obtain m where m: "cursor + nat n \<le> m" "m \<le> length buf"
        "written k' = written k1 @ drop (cursor + nat n) (take m buf)" "fin \<longrightarrow> m = length buf" by blast
      have "drop cursor (take (cursor + nat n) buf) @ drop (cursor + nat n) (take m buf) = drop cursor (take m buf)"
      proof -
        have "take m buf = take (cursor + nat n) buf @ drop (cursor + nat n) (take m buf)"
          using m(1) append_take_drop_id[of "cursor + nat n" "take m buf"] by (simp add: min_def)
        then show ?thesis using m(1,2) by (metis drop_append length_take min.absorb2 le diff_is_0_eq' drop_0 le_add1)
      qed
      then show ?thesis using m w tk by (intro exI[of _ m]) simp
    next
      case False
      then have "k' = k1 \<and> fin" using less.prems(1) p pos by (subst (asm) write_out.simps) simp
      moreover have "cursor + nat n = length buf" using False le by simp
      ultimately show ?thesis using w tk less.prems(2) by (intro exI[of _ "length buf"]) simp
    qed
  qed
qed

lemma write_out_all: "write_out put buf 0 k = Some (True, k') \<Longrightarrow> written k' = written k @ buf"
  using write_out_prefix[of buf 0 k True k'] by auto

end

locale byte_source =
  fixes get :: "nat \<Rightarrow> 'k \<Rightarrow> 'b list option \<times> 'k" and avail :: "'k \<Rightarrow> 'b list"
  assumes get_prefix: "get n k = (Some bs, k') \<Longrightarrow> length bs \<le> n \<and> avail k = bs @ avail k'"
    and get_error: "get n k = (None, k') \<Longrightarrow> avail k' = avail k"
    and get_end: "0 < n \<Longrightarrow> get n k = (Some [], k') \<Longrightarrow> avail k = []"
begin

text \<open>The read loops end; they have consumed exactly what they return, and never more than asked.\<close>

lemma read_some_spec:
  "length got \<le> want \<Longrightarrow> \<exists>fin got' k'. read_some get want got k = Some (fin, got', k') \<and>
    got' @ avail k' = got @ avail k \<and> length got' \<le> want \<and>
    (fin \<longrightarrow> want \<le> length got + length (avail k) \<longrightarrow> got' = take want (got @ avail k))"
proof (induction "want - length got" arbitrary: got k rule: less_induct)
  case less
  obtain r k1 where g: "get (want - length got) k = (r, k1)" by force
  show ?case
  proof (cases r)
    case None
    then show ?thesis using g get_error less.prems by (subst read_some.simps) (auto intro: exI[of _ False])
  next
    case (Some bs)
    note p = get_prefix[OF g[unfolded Some]]
    show ?thesis
    proof (cases "bs \<noteq> [] \<and> length got + length bs < want")
      case True
      then have "want - length (got @ bs) < want - length got" by (cases bs) auto
      from less.hyps[OF this] True g Some p show ?thesis by (subst read_some.simps) (simp add: add.assoc)
    next
      case False
      have "got @ bs = take want (got @ avail k)" if "want \<le> length got + length (avail k)"
      proof (cases "bs = []")
        case True
        show ?thesis
        proof (cases "length got < want")
          case t: True
          then have "avail k = []" using get_end[of "want - length got" k k1] g Some True by simp
          then show ?thesis using that t by simp
        qed (use True less.prems that in simp)
      next
        case False2: False
        have "length bs \<le> want - length got" "\<not> length got + length bs < want" using False False2 p by simp_all
        then have "length got + length bs = want" using less.prems by arith
        then show ?thesis using p by simp
      qed
      moreover have "\<not> (bs \<noteq> [] \<and> length got + length bs < want)" using False .
      ultimately show ?thesis using g Some p less.prems by (subst read_some.simps) auto
    qed
  qed
qed

lemma read_full_spec:
  "length got < want \<Longrightarrow> \<exists>fin got' k'. read_full get want got k = Some (fin, got', k') \<and>
    got' @ avail k' = got @ avail k \<and> (fin \<longrightarrow> got' = take want (got @ avail k) \<and> want \<le> length got + length (avail k))"
proof (induction "want - length got" arbitrary: got k rule: less_induct)
  case less
  obtain r k1 where g: "get (want - length got) k = (r, k1)" by force
  show ?case
  proof (cases r)
    case None
    then show ?thesis using g get_error by (subst read_full.simps) (auto intro: exI[of _ False])
  next
    case (Some bs)
    note p = get_prefix[OF g[unfolded Some]]
    show ?thesis
    proof (cases "bs \<noteq> [] \<and> length got + length bs < want")
      case True
      then have "want - length (got @ bs) < want - length got" by (cases bs) auto
      from less.hyps[OF this] True g Some p show ?thesis by (subst read_full.simps) (simp add: add.assoc)
    next
      case False
      then show ?thesis using g Some p less.prems by (subst read_full.simps) auto
    qed
  qed
qed

end

section \<open>Pipes\<close>

text \<open>
  A connection between two processes: the bytes under way, and for the coming calls a limit on what
  each of them moves (at least one byte, unless there is nothing to move).
\<close>

record 'b pipe =
  pi_bytes :: "'b list"
  pi_limits :: "nat list"

definition pipe_limit :: "'b pipe \<Rightarrow> nat \<Rightarrow> nat" where
  "pipe_limit p n = (case pi_limits p of [] \<Rightarrow> n | l # _ \<Rightarrow> min n (max 1 l))"

definition pipe_put :: "'b list \<Rightarrow> 'b pipe \<Rightarrow> int \<times> 'b pipe" where
  "pipe_put bs p = (let n = pipe_limit p (length bs) in
     (int n, p\<lparr>pi_bytes := pi_bytes p @ take n bs, pi_limits := tl (pi_limits p)\<rparr>))"

definition pipe_get :: "nat \<Rightarrow> 'b pipe \<Rightarrow> 'b list option \<times> 'b pipe" where
  "pipe_get n p = (let m = pipe_limit p n in
     (Some (take m (pi_bytes p)), p\<lparr>pi_bytes := drop m (pi_bytes p), pi_limits := tl (pi_limits p)\<rparr>))"

lemma pipe_limit_le: "pipe_limit p n \<le> n" and pipe_limit_pos: "0 < n \<Longrightarrow> 0 < pipe_limit p n"
  by (auto simp: pipe_limit_def split: list.splits)

interpretation pipe: byte_sink pipe_put pi_bytes
  by unfold_locales (auto simp: pipe_put_def Let_def pipe_limit_le)

interpretation pipe: byte_source pipe_get pi_bytes
proof
  show "length bs \<le> n \<and> pi_bytes k = bs @ pi_bytes k'" if "pipe_get n k = (Some bs, k')" for n bs and k k' :: "'b pipe"
    using that pipe_limit_le[of k n] by (auto simp: pipe_get_def Let_def)
  show "pi_bytes k' = pi_bytes k" if "pipe_get n k = (None, k')" for n and k k' :: "'b pipe"
    using that by (simp add: pipe_get_def Let_def)
  show "pi_bytes k = []" if "0 < n" "pipe_get n k = (Some [], k')" for n and k k' :: "'b pipe"
    using that pipe_limit_pos[of n k] by (auto simp: pipe_get_def Let_def)
qed

end
