(* ===== verification/Echo_Threads.thy ===== *)
theory Echo_Threads
  imports Echo_Spec Io_Loops Worker_Setup
begin

text \<open>
  The echo server with a thread per connection and blocking calls (\<open>event-tester/threads.c\<close>).  A
  handler is the only thread on its connection, so a run of it depends on the calls it makes only;
  on a connection that moves bytes it returns when the client closes, and has sent back all complete
  messages.
\<close>

section \<open>The handler of a connection\<close>

text \<open>
  \<open>ts_read\<close> yields the bytes stored, none of them at the end of the stream, or \<open>None\<close> for an error;
  \<open>ts_close\<close> is \<open>shutdown\<close> and \<open>close\<close>.
\<close>

record 'k th_sys =
  ts_read :: "int \<Rightarrow> nat \<Rightarrow> 'k \<Rightarrow> byte list option \<times> 'k"
  ts_write :: "int \<Rightarrow> byte list \<Rightarrow> 'k \<Rightarrow> int \<times> 'k"
  ts_close :: "int \<Rightarrow> 'k \<Rightarrow> 'k"
  ts_calloc :: "'k \<Rightarrow> bool \<times> 'k"
  ts_accept :: "int \<Rightarrow> 'k \<Rightarrow> int \<times> 'k"
  ts_spawn :: "int \<Rightarrow> 'k \<Rightarrow> int \<times> 'k"

text \<open>The first loop: a full buffer, or \<open>goto done\<close>.\<close>

partial_function (option) fill_msg ::
  "'k th_sys \<Rightarrow> int \<Rightarrow> nat \<Rightarrow> nat \<Rightarrow> byte list \<Rightarrow> 'k \<Rightarrow> (bool \<times> byte list \<times> 'k) res option" where
  "fill_msg sys fd n cursor buf k =
     (case ts_read sys fd (n - cursor) k of
        (None, k1) \<Rightarrow> Some (Inl (Exit 1))
      | (Some bs, k1) \<Rightarrow>
          if bs = [] then Some (Inr (False, buf, k1))
          else if length buf < cursor + length bs then Some (Inl (Fault OutOfBounds))
          else if cursor + length bs < n then fill_msg sys fd n (cursor + length bs) (splice cursor bs buf) k1
          else Some (Inr (True, splice cursor bs buf, k1)))"

text \<open>The second loop: all was written, or \<open>goto done\<close>.\<close>

partial_function (option) drain_msg ::
  "'k th_sys \<Rightarrow> int \<Rightarrow> nat \<Rightarrow> nat \<Rightarrow> byte list \<Rightarrow> 'k \<Rightarrow> (bool \<times> 'k) res option" where
  "drain_msg sys fd n cursor buf k =
     (let (j, k1) = ts_write sys fd (take (n - cursor) (drop cursor buf)) k in
      if j = 0 then Some (Inr (False, k1))
      else if j < 0 then Some (Inl (Exit 1))
      else if cursor + nat j < n then drain_msg sys fd n (cursor + nat j) buf k1
      else Some (Inr (True, k1)))"

partial_function (option) handler_loop ::
  "'k th_sys \<Rightarrow> int \<Rightarrow> nat \<Rightarrow> byte list \<Rightarrow> 'k \<Rightarrow> 'k res option" where
  "handler_loop sys fd n buf k =
     Option.bind (fill_msg sys fd n 0 buf k) (\<lambda>r.
       case r of
         Inl e \<Rightarrow> Some (Inl e)
       | Inr (full, buf1, k1) \<Rightarrow>
           if \<not> full then Some (Inr k1)
           else Option.bind (drain_msg sys fd n 0 buf1 k1) (\<lambda>w.
             case w of
               Inl e \<Rightarrow> Some (Inl e)
             | Inr (sent, k2) \<Rightarrow> if \<not> sent then Some (Inr k2) else handler_loop sys fd n buf1 k2))"

declare fill_msg.simps [code] drain_msg.simps [code] handler_loop.simps [code]

text \<open>
  \<open>conn_handler\<close>, over the table \<open>conns\<close> with entries below \<open>mx\<close>.  The two objects it frees are its
  own.
\<close>

definition conn_handler ::
  "'k th_sys \<Rightarrow> int \<Rightarrow> nat \<Rightarrow> int \<Rightarrow> (int \<Rightarrow> nat option) \<Rightarrow> 'k \<Rightarrow> ((int \<Rightarrow> nat option) \<times> 'k) res option" where
  "conn_handler sys mx n fd cs k =
     (let (granted, k0) = ts_calloc sys k in
      if \<not> granted then Some (Inl (Exit 1))
      else Option.bind (handler_loop sys fd n (replicate n 0) k0) (\<lambda>r.
        case r of
          Inl e \<Rightarrow> Some (Inl e)
        | Inr k1 \<Rightarrow>
            (let k2 = ts_close sys fd k1 in
             Some (if 0 \<le> fd \<and> fd < mx then Inr (cs(fd := None), k2) else Inl (Fault OutOfBounds)))))"

section \<open>The worker\<close>

text \<open>The accepting thread of a processor: it only ends with an error.  \<open>ts_spawn\<close> starts a handler.\<close>

partial_function (option) accept_loop :: "'k th_sys \<Rightarrow> int \<Rightarrow> nat \<Rightarrow> 'k \<Rightarrow> (stop \<times> nat \<times> 'k) option" where
  "accept_loop sys listen accepted k =
     (let (granted, k0) = ts_calloc sys k in
      if \<not> granted then Some (Exit 1, accepted, k0)
      else let (fd, k1) = ts_accept sys listen k0 in
        if fd < 0 then Some (Exit 1, accepted, k1)
        else let (failed, k2) = ts_spawn sys fd k1 in
          if failed \<noteq> 0 then Some (Exit 1, accepted + 1, k2)
          else accept_loop sys listen (accepted + 1) k2)"

declare accept_loop.simps [code]

text \<open>\<open>worker_func\<close> up to its loop.\<close>

record thread_env = setup_env +
  te_attr_init :: int
  te_attr_detach :: int

definition thread_setup :: "thread_env \<Rightarrow> nat \<Rightarrow> nat \<Rightarrow> worker_io res" where
  "thread_setup su nr my_cpu =
     (if \<not> su_calloc_me su then Inl (Exit 1)
      else if \<not> my_cpu < nr then Inl (Fault OutOfBounds)
      else if te_attr_init su \<noteq> 0 then Inl (Exit 1)
      else if te_attr_detach su \<noteq> 0 then Inl (Exit 1)
      else rbind (open_listener (su_sock su)) (\<lambda>l.
           rbind (setup_perf (su_perf su) my_cpu) (\<lambda>p. Inr \<lparr>io_listen = l, io_perf = p\<rparr>)))"

section \<open>A connection in both directions\<close>

locale duplex = byte_source get avail + byte_sink put written
  for get :: "nat \<Rightarrow> 'k \<Rightarrow> byte list option \<times> 'k" and avail :: "'k \<Rightarrow> byte list"
  and put :: "byte list \<Rightarrow> 'k \<Rightarrow> int \<times> 'k" and written :: "'k \<Rightarrow> byte list" +
  assumes get_keeps: "get n k = (r, k') \<Longrightarrow> written k' = written k"
    and put_keeps: "put bs k = (j, k') \<Longrightarrow> avail k' = avail k"

text \<open>One that does not fail: a write of something takes some of it.\<close>

locale live_duplex = duplex +
  assumes get_works: "get n k = (r, k') \<Longrightarrow> r \<noteq> None"
    and put_works: "put bs k = (j, k') \<Longrightarrow> bs \<noteq> [] \<Longrightarrow> 0 < j"

text \<open>Two pipes.\<close>

record link =
  lk_in :: "byte pipe"
  lk_out :: "byte pipe"

definition link_get :: "nat \<Rightarrow> link \<Rightarrow> byte list option \<times> link" where
  "link_get n l = (let (r, p) = pipe_get n (lk_in l) in (r, l\<lparr>lk_in := p\<rparr>))"

definition link_put :: "byte list \<Rightarrow> link \<Rightarrow> int \<times> link" where
  "link_put bs l = (let (j, p) = pipe_put bs (lk_out l) in (j, l\<lparr>lk_out := p\<rparr>))"

interpretation link: live_duplex link_get "\<lambda>l. pi_bytes (lk_in l)" link_put "\<lambda>l. pi_bytes (lk_out l)"
proof unfold_locales
  show "length bs \<le> n \<and> pi_bytes (lk_in k) = bs @ pi_bytes (lk_in k')" if "link_get n k = (Some bs, k')"
    for n bs and k k' :: "link"
    using that pipe.get_prefix[of n "lk_in k" bs "lk_in k'"] by (auto simp: link_get_def case_prod_beta Let_def prod_eq_iff)
  show "pi_bytes (lk_in k') = pi_bytes (lk_in k)" if "link_get n k = (None, k')" for n and k k' :: "link"
    using that pipe.get_error[of n "lk_in k" "lk_in k'"] by (auto simp: link_get_def case_prod_beta Let_def prod_eq_iff)
  show "pi_bytes (lk_in k) = []" if "0 < n" "link_get n k = (Some [], k')" for n and k k' :: "link"
    using that pipe.get_end[of n "lk_in k" "lk_in k'"] by (auto simp: link_get_def case_prod_beta Let_def prod_eq_iff)
  show "j \<le> int (length bs) \<and> pi_bytes (lk_out k') = pi_bytes (lk_out k) @ take (nat j) bs" if "link_put bs k = (j, k')"
    for bs j and k k' :: "link"
    using that pipe.put_prefix[of bs "lk_out k" j "lk_out k'"] by (auto simp: link_put_def case_prod_beta Let_def prod_eq_iff)
  show "pi_bytes (lk_out k') = pi_bytes (lk_out k)" if "link_get n k = (r, k')" for n r and k k' :: "link"
    using that by (auto simp: link_get_def case_prod_beta Let_def)
  show "pi_bytes (lk_in k') = pi_bytes (lk_in k)" if "link_put bs k = (j, k')" for bs j and k k' :: "link"
    using that by (auto simp: link_put_def case_prod_beta Let_def)
  show "r \<noteq> None" if "link_get n k = (r, k')" for n r and k k' :: "link"
    using that by (auto simp: link_get_def pipe_get_def case_prod_beta Let_def)
  show "0 < j" if "link_put bs k = (j, k')" "bs \<noteq> []" for bs j and k k' :: "link"
    using that pipe_limit_pos[of "length bs" "lk_out k"] by (auto simp: link_put_def pipe_put_def case_prod_beta Let_def)
qed

text \<open>What a live connection makes of the loops.\<close>

context live_duplex
begin

lemma fill_spec:
  assumes get: "ts_read sys fd = get"
  shows "length buf = n \<Longrightarrow> cursor < n \<Longrightarrow> \<exists>full buf' k'. fill_msg sys fd n cursor buf k = Some (Inr (full, buf', k')) \<and>
    length buf' = n \<and> written k' = written k \<and>
    (if full then n - cursor \<le> length (avail k) \<and> buf' = take cursor buf @ take (n - cursor) (avail k) \<and>
       avail k' = drop (n - cursor) (avail k) else length (avail k) < n - cursor)"
proof (induction "n - cursor" arbitrary: cursor buf k rule: less_induct)
  case less
  obtain r k1 where g0: "get (n - cursor) k = (r, k1)" by force
  then obtain bs where bs: "r = Some bs" using get_works by blast
  note g = g0[unfolded bs]
  note p = get_prefix[OF g] get_keeps[OF g]
  show ?case
  proof (cases "bs = []")
    case True
    then have "avail k = []" using get_end[of "n - cursor" k k1] g less.prems(2) by simp
    then show ?thesis using g True get p less.prems by (subst fill_msg.simps) (auto intro!: exI[of _ False])
  next
    case ne: False
    let ?b = "splice cursor bs buf"
    have le: "cursor + length bs \<le> length buf" using p less.prems by linarith
    have tk: "take (cursor + length bs) ?b = take cursor buf @ bs" by (rule take_splice[OF le])
    have len: "length ?b = n" using le less.prems by simp
    show ?thesis
    proof (cases "cursor + length bs < n")
      case True
      have "n - (cursor + length bs) < n - cursor" using ne True by (cases bs) auto
      from less.hyps[OF this len True] obtain full buf' k' where
        ih: "fill_msg sys fd n (cursor + length bs) ?b k1 = Some (Inr (full, buf', k'))" "length buf' = n" "written k' = written k1"
        "if full then n - (cursor + length bs) \<le> length (avail k1) \<and>
           buf' = take (cursor + length bs) ?b @ take (n - (cursor + length bs)) (avail k1) \<and>
           avail k' = drop (n - (cursor + length bs)) (avail k1) else length (avail k1) < n - (cursor + length bs)" by blast
      have run: "fill_msg sys fd n cursor buf k = Some (Inr (full, buf', k'))"
        using g get ne le True ih(1) by (subst fill_msg.simps) simp
      have av: "avail k = bs @ avail k1" and w: "written k1 = written k" using p by simp_all
      have sub: "n - cursor - length bs = n - (cursor + length bs)" by simp
      show ?thesis
      proof (cases full)
        case True
        have lb: "length bs \<le> n - cursor" using p by simp
        have "take (n - cursor) (avail k) = bs @ take (n - (cursor + length bs)) (avail k1)"
          "drop (n - cursor) (avail k) = drop (n - (cursor + length bs)) (avail k1)"
          using lb by (simp_all add: av sub)
        moreover have "n - (cursor + length bs) \<le> length (avail k1)" using ih(4) True by simp
        then have "n - cursor \<le> length (avail k)" unfolding av length_append by linarith
        ultimately show ?thesis using True run ih(2,3,4) w unfolding tk
          by (intro exI[of _ full] exI[of _ buf'] exI[of _ k']) simp
      next
        case False
        then show ?thesis using run ih(2,3,4) w
          by (intro exI[of _ full] exI[of _ buf'] exI[of _ k']) (simp add: av)
      qed
    next
      case False
      then have eq: "length bs = n - cursor" using p less.prems(2) by linarith
      then have "?b = take cursor buf @ bs" using less.prems by (simp add: splice_def)
      then show ?thesis using g get ne le eq False p less.prems
        by (subst fill_msg.simps) (auto intro!: exI[of _ True])
    qed
  qed
qed

lemma drain_spec:
  assumes put: "ts_write sys fd = put"
  shows "length buf = n \<Longrightarrow> cursor < n \<Longrightarrow> \<exists>k'. drain_msg sys fd n cursor buf k = Some (Inr (True, k')) \<and>
    written k' = written k @ drop cursor buf \<and> avail k' = avail k"
proof (induction "n - cursor" arbitrary: cursor k rule: less_induct)
  case less
  have tk: "take (n - cursor) (drop cursor buf) = drop cursor buf" using less.prems by simp
  obtain j k1 where p: "put (drop cursor buf) k = (j, k1)" by force
  have ne: "drop cursor buf \<noteq> []" using less.prems by simp
  note q = put_prefix[OF p] put_keeps[OF p] put_works[OF p ne]
  have "j \<le> int (n - cursor)" using q less.prems(1) by simp
  then have pos: "0 < j" "nat j \<le> n - cursor" using q by linarith+
  show ?case
  proof (cases "cursor + nat j < n")
    case True
    have "n - (cursor + nat j) < n - cursor" using True pos by auto
    from less.hyps[OF this less.prems(1) True] obtain k' where
      ih: "drain_msg sys fd n (cursor + nat j) buf k1 = Some (Inr (True, k'))" "written k' = written k1 @ drop (cursor + nat j) buf"
      "avail k' = avail k1" by blast
    have "take (nat j) (drop cursor buf) @ drop (cursor + nat j) buf = drop cursor buf"
      by (metis add.commute append_take_drop_id drop_drop)
    then show ?thesis using put p tk pos True ih q by (subst drain_msg.simps) (simp add: Let_def)
  next
    case False
    then have "take (nat j) (drop cursor buf) = drop cursor buf" using pos less.prems by simp
    then show ?thesis using put p tk pos False q by (subst drain_msg.simps) (simp add: Let_def)
  qed
qed

text \<open>The handler echoes every complete message, and returns at the end of the stream.\<close>

lemma handler_spec:
  assumes get: "ts_read sys fd = get" and put: "ts_write sys fd = put"
  shows "length buf = n \<Longrightarrow> 0 < n \<Longrightarrow> \<exists>k'. handler_loop sys fd n buf k = Some (Inr k') \<and>
    written k' = written k @ take (n * (length (avail k) div n)) (avail k)"
proof (induction "length (avail k)" arbitrary: buf k rule: less_induct)
  case less
  from fill_spec[OF get less.prems(1), of 0 k] less.prems obtain full b1 k1 where
    f: "fill_msg sys fd n 0 buf k = Some (Inr (full, b1, k1))" "length b1 = n" "written k1 = written k"
    "if full then n \<le> length (avail k) \<and> b1 = take n (avail k) \<and> avail k1 = drop n (avail k) else length (avail k) < n"
    unfolding diff_zero take_0 append_Nil by blast
  show ?case
  proof (cases full)
    case False
    then show ?thesis using f by (subst handler_loop.simps) simp
  next
    case True
    with f(4) have f4: "n \<le> length (avail k)" "b1 = take n (avail k)" "avail k1 = drop n (avail k)" by simp_all
    from drain_spec[OF put f(2), of 0 k1] less.prems obtain k2 where
      d: "drain_msg sys fd n 0 b1 k1 = Some (Inr (True, k2))" "written k2 = written k1 @ b1" "avail k2 = avail k1" by auto
    have lt: "length (avail k2) < length (avail k)" using d(3) f4 less.prems(2) by simp
    from less.hyps[OF lt f(2) less.prems(2)] obtain k' where
      ih: "handler_loop sys fd n b1 k2 = Some (Inr k')"
      "written k' = written k2 @ take (n * (length (avail k2) div n)) (avail k2)" by blast
    have "length (avail k) div n = Suc (length (avail k2) div n)"
      using f4 d(3) less.prems(2) by (simp add: le_div_geq)
    then have "take (n * (length (avail k) div n)) (avail k) = take n (avail k) @ take (n * (length (avail k2) div n)) (avail k2)"
      using d(3) f4(3) by (simp add: take_add)
    then show ?thesis using f d ih True f4 by (subst handler_loop.simps) simp
  qed
qed

end

section \<open>Properties\<close>

text \<open>
  C11: On a connection that moves bytes and fails no call, a handler of the threaded server returns:
  when the client has closed, all complete messages it sent have been sent back, in order and
  nothing else, the descriptor is closed and its slot in the table is empty.
\<close>

theorem thread_echoes_all_messages:
  assumes "live_duplex (ts_read sys fd) avail (ts_write sys fd) written" "0 < n" "0 \<le> fd" "fd < mx"
    and "ts_calloc sys k = (True, k0)" "avail k0 = avail k" "written k0 = written k"
  shows "\<exists>k'. conn_handler sys mx n fd cs k = Some (Inr (cs(fd := None), ts_close sys fd k')) \<and>
    written k' = written k @ take (n * (length (avail k) div n)) (avail k)"
proof -
  obtain k' where "handler_loop sys fd n (replicate n 0) k0 = Some (Inr k')"
    "written k' = written k @ take (n * (length (avail k) div n)) (avail k)"
    using live_duplex.handler_spec[OF assms(1) refl refl, of "replicate n 0" n k0] assms(2,6,7) by auto
  then show ?thesis using assms(3-5) by (intro exI[of _ k']) (simp add: conn_handler_def)
qed

text \<open>A client that sends two messages and a half of four bytes, over pipes that split transfers.\<close>

definition link_sys :: "link th_sys" where
  "link_sys = \<lparr>ts_read = (\<lambda>fd. link_get), ts_write = (\<lambda>fd. link_put), ts_close = (\<lambda>fd k. k),
     ts_calloc = (\<lambda>k. (True, k)), ts_accept = (\<lambda>l k. (- 1, k)), ts_spawn = (\<lambda>fd k. (0, k))\<rparr>"

definition demo_link :: link where
  "demo_link = \<lparr>lk_in = \<lparr>pi_bytes = [1, 2, 3, 4, 5, 6, 7, 8, 9, 10], pi_limits = [3, 2, 1]\<rparr>,
     lk_out = \<lparr>pi_bytes = [], pi_limits = [1, 2]\<rparr>\<rparr>"

theorem thread_echoes_all_messages_witness:
  "\<exists>k'. conn_handler link_sys 10 4 5 (\<lambda>_. Some 0) demo_link = Some (Inr ((\<lambda>_. Some 0)(5 := None), k')) \<and>
     pi_bytes (lk_out k') = [1, 2, 3, 4, 5, 6, 7, 8]"
proof -
  have l: "live_duplex (ts_read link_sys 5) (\<lambda>l. pi_bytes (lk_in l)) (ts_write link_sys 5) (\<lambda>l. pi_bytes (lk_out l))"
    using link.live_duplex_axioms by (simp add: link_sys_def)
  have c: "ts_calloc link_sys demo_link = (True, demo_link)" "ts_close link_sys 5 k = k" for k by (simp_all add: link_sys_def)
  from thread_echoes_all_messages[OF l _ _ _ c(1), of 4 10 "\<lambda>_. Some 0"] obtain k' where
    "conn_handler link_sys 10 4 5 (\<lambda>_. Some 0) demo_link = Some (Inr ((\<lambda>_. Some 0)(5 := None), k'))"
    "pi_bytes (lk_out k') = pi_bytes (lk_out demo_link) @
       take (4 * (length (pi_bytes (lk_in demo_link)) div 4)) (pi_bytes (lk_in demo_link))"
    by (auto simp: c(2))
  then show ?thesis by (intro exI[of _ k']) (simp add: demo_link_def)
qed

end
