(* ===== verification/Echo_Uring.thy ===== *)
theory Echo_Uring
  imports Echo_Spec Worker_Setup
begin

text \<open>
  The echo server on io_uring (\<open>event-tester/iouring.c\<close>): requests and their \<open>req_info\<close>, the handlers
  of the five kinds of completions, and the ring, closed with the kernel and the other threads.
\<close>

section \<open>Requests\<close>

definition QUEUE_DEPTH :: nat where "QUEUE_DEPTH = 256"

datatype io_types = ACCEPT | SOCK_READ | EV_READ | SOCK_WRITE | EV_WRITE

text \<open>
  What a request reads to or writes from: a message entry at an offset, the \<open>ev_cause\<close> of the worker,
  or a \<open>malloc\<close>ed notification.
\<close>

datatype io_buf = Msg_Buf "nat option" nat | Cause_Buf | Heap_Buf nat

record req_info =
  ri_to_free :: "io_buf option"
  ri_fd :: int
  ri_type :: io_types

definition zero_info :: req_info where
  "zero_info = \<lparr>ri_to_free = None, ri_fd = 0, ri_type = ACCEPT\<rparr>"

text \<open>A submission queue entry as the \<open>io_uring_prep_\<close> functions fill it in, with its user data.\<close>

datatype sqe_op = Prep_Accept int | Prep_Read int io_buf nat | Prep_Write int io_buf nat

record sqe =
  sq_op :: sqe_op
  sq_data :: nat

text \<open>
  The state of a worker: \<open>ur_sq\<close> are the entries not submitted yet, \<open>ur_heap\<close> the notifications
  allocated and not freed.  The environment decides allocations (by the number of the entry), the
  processor of a connection, and names the event descriptors of the threads.
\<close>

record uring =
  ur_echo :: echo
  ur_infos :: "req_info buffer_cache"
  ur_sq :: "sqe list"
  ur_heap :: "nat list"

record uring_env =
  ue_conn_calloc :: "nat \<Rightarrow> bool"
  ue_msg_calloc :: "nat \<Rightarrow> bool"
  ue_info_calloc :: "nat \<Rightarrow> bool"
  ue_newbie :: bool
  ue_cause :: "nat option"
  ue_cpu :: "int \<Rightarrow> nat option"
  ue_event_of :: "nat \<Rightarrow> int"

text \<open>
  What the three \<open>add_\<close> functions share.  \<open>io_uring_get_sqe\<close> gives a null pointer when the queue is
  full; nobody tests it, and the \<open>prep\<close> function stores through it.
\<close>

definition add_sqe :: "uring_env \<Rightarrow> sqe_op \<Rightarrow> req_info \<Rightarrow> uring \<Rightarrow> uring res" where
  "add_sqe env op info u =
     rbind (cache_alloc (ue_info_calloc env (brk (ur_infos u))) (index (ur_echo u)) (ur_infos u)) (\<lambda>(p, c).
       if length (ur_sq u) < QUEUE_DEPTH
       then Inr (u\<lparr>ur_infos := set_data p info c, ur_sq := ur_sq u @ [\<lparr>sq_op = op, sq_data = p\<rparr>]\<rparr>)
       else Inl (Fault NullDeref))"

definition add_accept_request :: "uring_env \<Rightarrow> int \<Rightarrow> uring \<Rightarrow> uring res" where
  "add_accept_request env server_socket u =
     add_sqe env (Prep_Accept server_socket) \<lparr>ri_to_free = None, ri_fd = server_socket, ri_type = ACCEPT\<rparr> u"

definition add_read_request :: "uring_env \<Rightarrow> int \<Rightarrow> io_buf \<Rightarrow> nat \<Rightarrow> io_types \<Rightarrow> uring \<Rightarrow> uring res" where
  "add_read_request env fd buf len type u =
     add_sqe env (Prep_Read fd buf len) \<lparr>ri_to_free = None, ri_fd = fd, ri_type = type\<rparr> u"

definition add_write_request :: "uring_env \<Rightarrow> int \<Rightarrow> io_buf \<Rightarrow> nat \<Rightarrow> io_types \<Rightarrow> bool \<Rightarrow> uring \<Rightarrow> uring res" where
  "add_write_request env fd buf len type free_buf u =
     add_sqe env (Prep_Write fd buf len)
       \<lparr>ri_to_free = (if free_buf then Some buf else None), ri_fd = fd, ri_type = type\<rparr> u"

section \<open>Completions\<close>

definition on_close_u :: "nat option \<Rightarrow> uring \<Rightarrow> uring res" where
  "on_close_u p u =
     (let a = ur_echo u in
      rbind (deref p) (\<lambda>c.
      let to_close = cn_fd (conn a c) in
      rbind (set_conn_slot to_close None a) (\<lambda>a1.
      rbind (free_conn c (a1\<lparr>closed_fds := to_close # closed_fds a1, conn_count := conn_count a1 + 1\<rparr>)) (\<lambda>a2.
        Inr (u\<lparr>ur_echo := a2\<rparr>)))))"

text \<open>A new connection with its buffer and its first read, as for \<open>ACCEPT\<close> and for \<open>EV_READ\<close>.\<close>

definition take_conn :: "uring_env \<Rightarrow> int \<Rightarrow> uring \<Rightarrow> uring res" where
  "take_conn env fd u =
     (let a = ur_echo u in
      rbind (new_conn (ue_conn_calloc env (brk (conn_cache a))) fd a) (\<lambda>(c, a1).
      rbind (set_conn_slot fd (Some c) a1) (\<lambda>a2.
      rbind (ensure_buffer (ue_msg_calloc env (brk (msg_cache a2))) c a2) (\<lambda>a3.
        add_read_request env (cn_fd (conn a3 c)) (Msg_Buf (cn_buffer (conn a3 c)) 0) (msg_size a3) SOCK_READ
          (u\<lparr>ur_echo := a3\<rparr>)))))"

definition accept_done ::
  "uring_env \<Rightarrow> int \<Rightarrow> int \<Rightarrow> uring \<Rightarrow> incoming \<Rightarrow> (uring \<times> incoming) res" where
  "accept_done env listen result u q =
     (if \<not> ue_newbie env then Inl (Exit 1)
      else
        let a = (ur_echo u)\<lparr>accept_count := accept_count (ur_echo u) + 1\<rparr>; u1 = u\<lparr>ur_echo := a\<rparr> in
        if result < 0 then Inl (Exit 1)
        else (case ue_cpu env result of
            None \<Rightarrow> Inl (Exit 1)
          | Some cpu \<Rightarrow>
              rbind (if cpu \<noteq> index a then
                       (case ue_cause env of
                          None \<Rightarrow> Inl (Fault NullDeref)
                        | Some p \<Rightarrow>
                            rbind (add_write_request env (ue_event_of env cpu) (Heap_Buf p) 8 EV_WRITE True
                                     (u1\<lparr>ur_heap := p # ur_heap u1\<rparr>))
                              (\<lambda>u2. Inr (u2, q(cpu := result # q cpu))))
                     else rbind (take_conn env result u1) (\<lambda>u2. Inr (u2, q)))
                (\<lambda>(u2, q1). rbind (add_accept_request env listen u2) (\<lambda>u3. Inr (u3, q1)))))"

text \<open>The length \<open>msg_size - conn->cursor\<close> is a \<open>size_t\<close>.\<close>

definition size_sub :: "nat \<Rightarrow> nat \<Rightarrow> nat" where
  "size_sub a b = nat ((int a - int b) mod 2 ^ 64)"

definition sock_read_done :: "uring_env \<Rightarrow> int \<Rightarrow> int \<Rightarrow> uring \<Rightarrow> uring res" where
  "sock_read_done env fd result u =
     (let a = ur_echo u in
      rbind (conn_slot a fd) (\<lambda>p.
      if result \<le> 0 then on_close_u p u
      else rbind (deref p) (\<lambda>c.
        let n = cn_cursor (conn a c) + nat result in
        if n = msg_size a then
          let a1 = upd_conn c (\<lambda>cn. cn\<lparr>cn_cursor := 0\<rparr>) a in
          add_write_request env (cn_fd (conn a1 c)) (Msg_Buf (cn_buffer (conn a1 c)) 0) (msg_size a1) SOCK_WRITE False
            (u\<lparr>ur_echo := a1\<rparr>)
        else
          let a1 = upd_conn c (\<lambda>cn. cn\<lparr>cn_cursor := n\<rparr>) a in
          add_read_request env (cn_fd (conn a1 c)) (Msg_Buf (cn_buffer (conn a1 c)) n) (size_sub (msg_size a1) n) SOCK_READ
            (u\<lparr>ur_echo := a1\<rparr>))))"

definition sock_write_done :: "uring_env \<Rightarrow> int \<Rightarrow> int \<Rightarrow> uring \<Rightarrow> uring res" where
  "sock_write_done env fd result u =
     (let a = ur_echo u in
      rbind (conn_slot a fd) (\<lambda>p.
      if result \<le> 0 then on_close_u p u
      else rbind (deref p) (\<lambda>c.
        let n = cn_cursor (conn a c) + nat result in
        if n = msg_size a then
          let a1 = upd_conn c (\<lambda>cn. cn\<lparr>cn_cursor := 0\<rparr>) a in
          rbind (add_read_request env (cn_fd (conn a1 c)) (Msg_Buf (cn_buffer (conn a1 c)) 0) (msg_size a1) SOCK_READ
                   (u\<lparr>ur_echo := a1\<rparr>))
            (\<lambda>u1. Inr (u1\<lparr>ur_echo := (ur_echo u1)\<lparr>conn_count := conn_count (ur_echo u1) + 1\<rparr>\<rparr>))
        else
          let a1 = upd_conn c (\<lambda>cn. cn\<lparr>cn_cursor := n\<rparr>) a in
          add_write_request env (cn_fd (conn a1 c)) (Msg_Buf (cn_buffer (conn a1 c)) n) (size_sub (msg_size a1) n) SOCK_WRITE
            False (u\<lparr>ur_echo := a1\<rparr>))))"

primrec ev_read_done :: "uring_env \<Rightarrow> int \<Rightarrow> int list \<Rightarrow> uring \<Rightarrow> uring res" where
  "ev_read_done env event_fd [] u = Inr u"
| "ev_read_done env event_fd (fd # fds) u =
     rbind (take_conn env fd u) (\<lambda>u1.
     rbind (add_read_request env event_fd Cause_Buf 8 EV_READ u1) (\<lambda>u2.
       ev_read_done env event_fd fds u2))"

definition ev_write_done :: "io_buf option \<Rightarrow> uring \<Rightarrow> uring res" where
  "ev_write_done to_free u =
     (case to_free of
        None \<Rightarrow> Inr u
      | Some (Heap_Buf p) \<Rightarrow>
          if p \<in> set (ur_heap u) then Inr (u\<lparr>ur_heap := remove1 p (ur_heap u)\<rparr>) else Inl (Fault OutOfBounds)
      | Some _ \<Rightarrow> Inl (Fault OutOfBounds))"

text \<open>One completion: the \<open>req_info\<close> is copied and given back before it is looked at.\<close>

record cqe =
  cq_data :: nat
  cq_res :: int

definition handle_cqe ::
  "uring_env \<Rightarrow> int \<Rightarrow> int \<Rightarrow> cqe \<Rightarrow> uring \<Rightarrow> incoming \<Rightarrow> (uring \<times> incoming) res" where
  "handle_cqe env listen event_fd e u q =
     (let info = payload (ur_infos u) (cq_data e) in
      rbind (cache_free (ur_infos u) (Some (cq_data e))) (\<lambda>c.
      let u1 = u\<lparr>ur_infos := c\<rparr> in
      case ri_type info of
        ACCEPT \<Rightarrow> accept_done env listen (cq_res e) u1 q
      | SOCK_READ \<Rightarrow> rbind (sock_read_done env (ri_fd info) (cq_res e) u1) (\<lambda>u2. Inr (u2, q))
      | EV_READ \<Rightarrow> rbind (ev_read_done env event_fd (q (index (ur_echo u1))) u1)
                     (\<lambda>u2. Inr (u2, q(index (ur_echo u1) := [])))
      | SOCK_WRITE \<Rightarrow> rbind (sock_write_done env (ri_fd info) (cq_res e) u1) (\<lambda>u2. Inr (u2, q))
      | EV_WRITE \<Rightarrow> rbind (ev_write_done (ri_to_free info) u1) (\<lambda>u2. Inr (u2, q))))"

text \<open>
  The completions of one \<open>io_uring_submit_and_wait\<close>, each with its environment, and the endless loop.
  \<open>submit\<close> takes the queued entries and yields the completions, or \<open>None\<close> for an error.
\<close>

primrec handle_cqes ::
  "int \<Rightarrow> int \<Rightarrow> (uring_env \<times> cqe) list \<Rightarrow> uring \<Rightarrow> incoming \<Rightarrow> (uring \<times> incoming) res" where
  "handle_cqes listen event_fd [] u q = Inr (u, q)"
| "handle_cqes listen event_fd (e # es) u q =
     rbind (handle_cqe (fst e) listen event_fd (snd e) u q) (\<lambda>(u1, q1). handle_cqes listen event_fd es u1 q1)"

partial_function (option) uring_loop ::
  "(sqe list \<Rightarrow> 'k \<Rightarrow> (uring_env \<times> cqe) list option \<times> 'k) \<Rightarrow> int \<Rightarrow> int \<Rightarrow> uring \<Rightarrow> incoming \<Rightarrow> 'k \<Rightarrow> stop option" where
  "uring_loop submit listen event_fd u q k =
     (case submit (ur_sq u) k of
        (None, k1) \<Rightarrow> Some (Exit 1)
      | (Some es, k1) \<Rightarrow>
          (case handle_cqes listen event_fd es (u\<lparr>ur_sq := []\<rparr>) q of
             Inl e \<Rightarrow> Some e
           | Inr (u1, q1) \<Rightarrow> uring_loop submit listen event_fd u1 q1 k1))"

declare uring_loop.simps [code]

section \<open>Setting a worker up\<close>

record uring_setup_env = setup_env +
  us_eventfd :: int
  us_info_header :: bool
  us_info_entry :: "nat \<Rightarrow> bool"
  us_ring :: int

definition uring_setup ::
  "uring_setup_env \<Rightarrow> uring_env \<Rightarrow> int \<Rightarrow> nat \<Rightarrow> (nat \<Rightarrow> nat) \<Rightarrow> nat \<Rightarrow> nat \<Rightarrow> (uring \<times> worker_io) res" where
  "uring_setup su env mx sz at nr my_cpu =
     (if \<not> su_calloc_me su then Inl (Exit 1)
      else if \<not> my_cpu < nr then Inl (Fault OutOfBounds)
      else if us_eventfd su < 0 then Inl (Exit 1)
      else
        rbind (init_cache_or_exit (su_msg_header su) (su_msg_entry su) (replicate sz 0) 1024) (\<lambda>mc.
        rbind (init_cache_or_exit (us_info_header su) (us_info_entry su) zero_info 2048) (\<lambda>ic.
        rbind (init_cache_or_exit (su_conn_header su) (su_conn_entry su) zero_connection 1024) (\<lambda>cc.
        rbind (open_listener (su_sock su)) (\<lambda>l.
        rbind (setup_perf (su_perf su) my_cpu) (\<lambda>p.
        if us_ring su < 0 then Inl (Exit 1)
        else
          rbind (add_accept_request env l
                   \<lparr>ur_echo = fresh_echo mx sz at my_cpu cc mc, ur_infos = ic, ur_sq = [], ur_heap = []\<rparr>) (\<lambda>u1.
          rbind (add_read_request env (us_eventfd su) Cause_Buf 8 EV_READ u1) (\<lambda>u2.
            Inr (u2, \<lparr>io_listen = l, io_perf = p\<rparr>)))))))))"

end
