(* ===== verification/Uring_System.thy ===== *)
theory Uring_System
  imports Echo_Uring "HOL-Library.Multiset"
begin

text \<open>
  The io_uring worker closed with the kernel, which completes outstanding requests in any order, and
  with the other threads, which hand connections over.  Every reachable state has one request per
  connection and an armed read of the event descriptor, and the run so far is one of the abstract
  echo server.
\<close>

section \<open>Outstanding requests and their records\<close>

text \<open>The \<open>req_info\<close> behind a request.\<close>

fun matches :: "sqe_op \<Rightarrow> req_info \<Rightarrow> bool" where
  "matches (Prep_Accept l) i \<longleftrightarrow> i = \<lparr>ri_to_free = None, ri_fd = l, ri_type = ACCEPT\<rparr>"
| "matches (Prep_Read fd (Msg_Buf p off) len) i \<longleftrightarrow> i = \<lparr>ri_to_free = None, ri_fd = fd, ri_type = SOCK_READ\<rparr>"
| "matches (Prep_Read fd Cause_Buf len) i \<longleftrightarrow> i = \<lparr>ri_to_free = None, ri_fd = fd, ri_type = EV_READ\<rparr>"
| "matches (Prep_Write fd (Msg_Buf p off) len) i \<longleftrightarrow> i = \<lparr>ri_to_free = None, ri_fd = fd, ri_type = SOCK_WRITE\<rparr>"
| "matches (Prep_Write fd (Heap_Buf h) len) i \<longleftrightarrow>
     i = \<lparr>ri_to_free = Some (Heap_Buf h), ri_fd = fd, ri_type = EV_WRITE\<rparr>"
| "matches _ i \<longleftrightarrow> False"

fun_cases matchesE: "matches op i"

lemma matches_kinds [consumes 1, case_names acc rd ev wr nt]:
  assumes "matches op i"
  obtains (acc) l where "op = Prep_Accept l" | (rd) fd p off len where "op = Prep_Read fd (Msg_Buf p off) len"
  | (ev) fd len where "op = Prep_Read fd Cause_Buf len" | (wr) fd p off len where "op = Prep_Write fd (Msg_Buf p off) len"
  | (nt) fd h len where "op = Prep_Write fd (Heap_Buf h) len"
  using assms by (elim matchesE) blast+

definition infos_ok :: "req_info buffer_cache \<Rightarrow> sqe list \<Rightarrow> bool" where
  "infos_ok c xs \<longleftrightarrow> cache_ok c \<and> distinct (map sq_data xs) \<and>
     (\<forall>x \<in> set xs. in_use c (sq_data x) \<and> matches (sq_op x) (payload c (sq_data x)))"

text \<open>\<open>F\<close> are the submitted requests; the queued ones come after them.\<close>

definition book :: "sqe list \<Rightarrow> uring \<Rightarrow> bool" where
  "book F u \<longleftrightarrow> infos_ok (ur_infos u) (F @ ur_sq u)"

definition ops :: "sqe list \<Rightarrow> uring \<Rightarrow> sqe_op list" where
  "ops F u = map sq_op (F @ ur_sq u)"

lemma book_cong [simp]: "book F (u\<lparr>ur_echo := a\<rparr>) = book F u" "book F (u\<lparr>ur_heap := h\<rparr>) = book F u"
  by (simp_all add: book_def)

lemma ops_cong [simp]: "ops F (u\<lparr>ur_echo := a\<rparr>) = ops F u" "ops F (u\<lparr>ur_heap := h\<rparr>) = ops F u"
  "ops F (u\<lparr>ur_infos := c\<rparr>) = ops F u"
  by (simp_all add: ops_def)

lemma add_sqe_run:
  assumes "book F u" "matches op info" "add_sqe env op info u = Inr u'"
  shows "book F u' \<and> ops F u' = ops F u @ [op] \<and> ur_echo u' = ur_echo u \<and> ur_heap u' = ur_heap u \<and>
    length (ur_sq u') = length (ur_sq u) + 1"
proof -
  let ?xs = "F @ ur_sq u"
  have b: "cache_ok (ur_infos u)" "distinct (map sq_data ?xs)"
    "\<And>x. x \<in> set ?xs \<Longrightarrow> in_use (ur_infos u) (sq_data x) \<and> matches (sq_op x) (payload (ur_infos u) (sq_data x))"
    using assms(1) by (auto simp: book_def infos_ok_def)
  from assms(3) obtain p c where al: "cache_alloc (ue_info_calloc env (brk (ur_infos u))) (index (ur_echo u)) (ur_infos u) = Inr (p, c)"
    and u': "u' = u\<lparr>ur_infos := set_data p info c, ur_sq := ur_sq u @ [\<lparr>sq_op = op, sq_data = p\<rparr>]\<rparr>"
    by (auto simp: add_sqe_def rbind_eq_Inr_iff split: if_splits prod.splits)
  note s = cache_alloc_spec[OF b(1) al]
  have new: "sq_data x \<noteq> p" if "x \<in> set ?xs" for x using b(3)[OF that] s by auto
  have "infos_ok (set_data p info c) (?xs @ [\<lparr>sq_op = op, sq_data = p\<rparr>])"
    unfolding infos_ok_def using b s new assms(2) by (auto simp: image_iff)
  then show ?thesis by (simp add: book_def ops_def u')
qed

lemma add_sqe_room:
  assumes "book F u" "ue_info_calloc env (brk (ur_infos u))" "length (ur_sq u) < QUEUE_DEPTH"
  shows "\<exists>u'. add_sqe env op info u = Inr u'"
proof -
  have "cache_ok (ur_infos u)" using assms(1) by (simp add: book_def infos_ok_def)
  from cache_alloc_True[OF this, of "index (ur_echo u)"] obtain r where
    "cache_alloc True (index (ur_echo u)) (ur_infos u) = Inr r" by blast
  then show ?thesis using assms(2,3) by (cases r) (simp add: add_sqe_def)
qed

lemmas add_request_defs = add_accept_request_def add_read_request_def add_write_request_def

section \<open>The handlers on well-formed tables\<close>

definition tables :: "echo \<Rightarrow> bool" where
  "tables a \<longleftrightarrow> echo_wf a \<and> buffered a \<and> 0 < msg_size a \<and> msg_size a < 2 ^ 64"

lemma tablesD: "tables a \<Longrightarrow> echo_wf a" "tables a \<Longrightarrow> buffered a" "tables a \<Longrightarrow> 0 < msg_size a"
  by (simp_all add: tables_def)

lemma tables_open:
  assumes "tables a" "conns a fd = Some c"
  obtains b where "cn_buffer (conn a c) = Some b" "view a fd = Some (conn a c, Some (msg a b))" "cn_fd (conn a c) = fd"
    "cn_cursor (conn a c) < msg_size a" "length (msg a b) = msg_size a" "conn_slot a fd = Inr (Some c)"
proof -
  obtain b where b: "cn_buffer (conn a c) = Some b" using assms by (auto simp: tables_def buffered_def)
  then show thesis using that[of b] assms open_in_range[OF tablesD(1)[OF assms(1)] assms(2)]
      conn_slot_open[OF tablesD(1)[OF assms(1)] assms(2)] echo_wfD(3)[OF tablesD(1)[OF assms(1)] assms(2)]
    by (simp add: view_def view_at_def conn_wf_def)
qed

text \<open>Setting the cursor of an open connection.\<close>

lemma tables_cursor:
  assumes t: "tables a" and c: "conns a fd = Some c" and v: "view a fd = Some (conn a c, Some m)" and k: "k < msg_size a"
  shows "tables (upd_conn c (\<lambda>cn. cn\<lparr>cn_cursor := k\<rparr>) a)"
    "view (upd_conn c (\<lambda>cn. cn\<lparr>cn_cursor := k\<rparr>) a) = (view a)(fd := Some ((conn a c)\<lparr>cn_cursor := k\<rparr>, Some m))"
proof -
  have wf: "echo_wf a" by (rule tablesD[OF t])
  have m: "map_option (msg a) (cn_buffer (conn a c)) = Some m" using v c by (simp add: view_def view_at_def)
  let ?f = "\<lambda>cn. cn\<lparr>cn_cursor := k\<rparr>"
  show v': "view (upd_conn c ?f a) = (view a)(fd := Some ((conn a c)\<lparr>cn_cursor := k\<rparr>, Some m))"
    using view_upd_conn[OF wf c, of ?f] m by simp
  have "echo_wf (upd_conn c ?f a)" using k by (intro echo_wf_upd_conn wf) simp_all
  moreover have "buffered (upd_conn c ?f a)" by (rule buffered_upd[OF tablesD(2)[OF t] v'])
  ultimately show "tables (upd_conn c ?f a)" using t by (simp add: tables_def)
qed

lemma on_close_u_run:
  assumes t: "tables (ur_echo u)" and c: "conns (ur_echo u) fd = Some c"
  shows "\<exists>a'. on_close_u (Some c) u = Inr (u\<lparr>ur_echo := a'\<rparr>) \<and> tables a' \<and> view a' = (view (ur_echo u))(fd := None) \<and>
    conns a' = (conns (ur_echo u))(fd := None) \<and> same_config (ur_echo u) a'"
proof -
  let ?a = "ur_echo u"
  obtain b where b: "cn_buffer (conn ?a c) = Some b" by (rule tables_open[OF t c])
  have r: "0 \<le> fd" "fd < max_fd ?a" "cn_fd (conn ?a c) = fd" using open_in_range[OF tablesD(1)[OF t] c] by auto
  let ?ax = "?a\<lparr>closed_fds := fd # closed_fds ?a, conn_count := conn_count ?a + 1\<rparr>"
  have wx: "echo_wf ?ax" "view ?ax = view ?a" "buffered ?ax"
    using tablesD[OF t] echo_wf_cong[of ?ax ?a] by simp_all
  have cx: "conns ?ax fd = Some c" "cn_buffer (conn ?ax c) = Some b" using c b by (simp_all add: conn_def)
  from release_conn[OF wx(1) cx] obtain a' where a': "free_conn c (?ax\<lparr>conns := (conns ?ax)(fd := None)\<rparr>) = Inr a'"
    "echo_wf a'" "conns a' = (conns ?ax)(fd := None)" "same_config ?ax a'" "view a' = (view ?ax)(fd := None)" by blast
  have eq: "?a\<lparr>conns := (conns ?a)(fd := None), closed_fds := fd # closed_fds ?a, conn_count := Suc (conn_count ?a)\<rparr> =
      ?ax\<lparr>conns := (conns ?ax)(fd := None)\<rparr>" by simp
  have "on_close_u (Some c) u = Inr (u\<lparr>ur_echo := a'\<rparr>)"
    using r a'(1)[folded eq] by (simp add: on_close_u_def deref_def set_conn_slot_def Let_def)
  moreover have "tables a'" using a' t buffered_del[OF tablesD(2)[OF t], of a' fd] wx(2)
    by (simp add: tables_def same_config_def)
  ultimately show ?thesis using a' wx(2) by (intro exI[of _ a']) (simp add: same_config_def)
qed

lemma size_sub_le: "b \<le> a \<Longrightarrow> a < 2 ^ 64 \<Longrightarrow> size_sub a b = a - b"
proof -
  assume "b \<le> a" "a < 2 ^ 64"
  moreover from this(2) have "int a < 2 ^ 64" by (metis of_nat_less_iff of_nat_numeral of_nat_power)
  ultimately have "0 \<le> int a - int b" "int a - int b < 2 ^ 64" by linarith+
  then show "size_sub a b = a - b" using \<open>b \<le> a\<close> by (simp add: size_sub_def mod_pos_pos_trivial nat_diff_distrib)
qed

text \<open>
  A read or write that moved bytes: the cursor goes on, or back to the start of a whole message, and
  the request that comes next is queued.
\<close>

definition advanced ::
  "sqe list \<Rightarrow> int \<Rightarrow> connection \<Rightarrow> byte list \<Rightarrow> nat \<Rightarrow> sqe_op \<Rightarrow> uring \<Rightarrow> uring \<Rightarrow> bool" where
  "advanced F fd cn m k op u u' \<longleftrightarrow> tables (ur_echo u') \<and> book F u' \<and> ops F u' = ops F u @ [op] \<and>
     view (ur_echo u') = (view (ur_echo u))(fd := Some (cn\<lparr>cn_cursor := k\<rparr>, Some m)) \<and>
     conns (ur_echo u') = conns (ur_echo u) \<and> same_config (ur_echo u) (ur_echo u') \<and> ur_heap u' = ur_heap u"

lemma sock_read_done_run:
  assumes t: "tables (ur_echo u)" and bk: "book F u" and c: "conns (ur_echo u) fd = Some c"
    and v: "view (ur_echo u) fd = Some (cn, Some m)" and j: "0 < j" "cn_cursor cn + nat j \<le> msg_size (ur_echo u)"
  defines "k \<equiv> cn_cursor cn + nat j" and "n \<equiv> msg_size (ur_echo u)"
  shows "sock_read_done env fd j u = Inr u' \<Longrightarrow>
     advanced F fd cn m (if k < n then k else 0)
       (if k < n then Prep_Read fd (Msg_Buf (cn_buffer cn) k) (n - k) else Prep_Write fd (Msg_Buf (cn_buffer cn) 0) n) u u'"
    "ue_info_calloc env (brk (ur_infos u)) \<Longrightarrow> length (ur_sq u) < QUEUE_DEPTH \<Longrightarrow> \<exists>u'. sock_read_done env fd j u = Inr u'"
proof -
  let ?a = "ur_echo u"
  define k' where "k' = (if k < n then k else 0)"
  define op where "op = (if k < n then Prep_Read fd (Msg_Buf (cn_buffer cn) k) (n - k) else Prep_Write fd (Msg_Buf (cn_buffer cn) 0) n)"
  define info where "info = \<lparr>ri_to_free = None, ri_fd = fd, ri_type = (if k < n then SOCK_READ else SOCK_WRITE)\<rparr>"
  let ?a1 = "upd_conn c (\<lambda>cn. cn\<lparr>cn_cursor := k'\<rparr>) ?a"
  have cn: "cn = conn ?a c" using v c by (simp add: view_def view_at_def)
  have sl: "conn_slot ?a fd = Inr (Some c)" "cn_fd (conn ?a c) = fd" using tables_open[OF t c] by blast+
  have n: "0 < n" "k \<le> n" "n < 2 ^ 64" using t j by (simp_all add: tables_def n_def k_def)
  have run: "sock_read_done env fd j u = add_sqe env op info (u\<lparr>ur_echo := ?a1\<rparr>)"
    using sl j(1) n size_sub_le[of k n]
    by (auto simp: sock_read_done_def deref_def Let_def add_request_defs conn_upd_conn op_def info_def k'_def cn k_def n_def)
  have mt: "matches op info" by (simp add: op_def info_def)
  have bk1: "book F (u\<lparr>ur_echo := ?a1\<rparr>)" using bk by simp
  have "k' < n" using n by (simp add: k'_def)
  note tc = tables_cursor[OF t c v[unfolded cn] this[unfolded n_def]]
  show "advanced F fd cn m (if k < n then k else 0)
       (if k < n then Prep_Read fd (Msg_Buf (cn_buffer cn) k) (n - k) else Prep_Write fd (Msg_Buf (cn_buffer cn) 0) n) u u'"
    if "sock_read_done env fd j u = Inr u'"
    using add_sqe_run[OF bk1 mt that[unfolded run]] tc
    by (simp add: advanced_def k'_def[symmetric] op_def[symmetric] cn)
  show "\<exists>u'. sock_read_done env fd j u = Inr u'" if "ue_info_calloc env (brk (ur_infos u))" "length (ur_sq u) < QUEUE_DEPTH"
    unfolding run using add_sqe_room[OF bk1] that by simp
qed

lemma sock_write_done_run:
  assumes t: "tables (ur_echo u)" and bk: "book F u" and c: "conns (ur_echo u) fd = Some c"
    and v: "view (ur_echo u) fd = Some (cn, Some m)" and j: "0 < j" "cn_cursor cn + nat j \<le> msg_size (ur_echo u)"
  defines "k \<equiv> cn_cursor cn + nat j" and "n \<equiv> msg_size (ur_echo u)"
  shows "sock_write_done env fd j u = Inr u' \<Longrightarrow>
     advanced F fd cn m (if k < n then k else 0)
       (if k < n then Prep_Write fd (Msg_Buf (cn_buffer cn) k) (n - k) else Prep_Read fd (Msg_Buf (cn_buffer cn) 0) n) u u'"
    "ue_info_calloc env (brk (ur_infos u)) \<Longrightarrow> length (ur_sq u) < QUEUE_DEPTH \<Longrightarrow> \<exists>u'. sock_write_done env fd j u = Inr u'"
proof -
  let ?a = "ur_echo u"
  define k' where "k' = (if k < n then k else 0)"
  define op where "op = (if k < n then Prep_Write fd (Msg_Buf (cn_buffer cn) k) (n - k) else Prep_Read fd (Msg_Buf (cn_buffer cn) 0) n)"
  define info where "info = \<lparr>ri_to_free = None, ri_fd = fd, ri_type = (if k < n then SOCK_WRITE else SOCK_READ)\<rparr>"
  define fin where "fin = (\<lambda>u1 :: uring. if k < n then u1 else u1\<lparr>ur_echo := (ur_echo u1)\<lparr>conn_count := conn_count (ur_echo u1) + 1\<rparr>\<rparr>)"
  let ?a1 = "upd_conn c (\<lambda>cn. cn\<lparr>cn_cursor := k'\<rparr>) ?a"
  have cn: "cn = conn ?a c" using v c by (simp add: view_def view_at_def)
  have sl: "conn_slot ?a fd = Inr (Some c)" "cn_fd (conn ?a c) = fd" using tables_open[OF t c] by blast+
  have n: "0 < n" "k \<le> n" "n < 2 ^ 64" using t j by (simp_all add: tables_def n_def k_def)
  have run: "sock_write_done env fd j u = rbind (add_sqe env op info (u\<lparr>ur_echo := ?a1\<rparr>)) (\<lambda>u1. Inr (fin u1))"
    using sl j(1) n size_sub_le[of k n]
    by (auto simp: sock_write_done_def deref_def Let_def add_request_defs conn_upd_conn op_def info_def k'_def cn k_def n_def
        fin_def rbind_def split: sum.splits)
  have mt: "matches op info" by (simp add: op_def info_def)
  have bk1: "book F (u\<lparr>ur_echo := ?a1\<rparr>)" using bk by simp
  have "k' < n" using n by (simp add: k'_def)
  note tc = tables_cursor[OF t c v[unfolded cn] this[unfolded n_def]]
  show "advanced F fd cn m (if k < n then k else 0)
       (if k < n then Prep_Write fd (Msg_Buf (cn_buffer cn) k) (n - k) else Prep_Read fd (Msg_Buf (cn_buffer cn) 0) n) u u'"
    if "sock_write_done env fd j u = Inr u'"
  proof -
    from that[unfolded run] obtain u1 where u1: "add_sqe env op info (u\<lparr>ur_echo := ?a1\<rparr>) = Inr u1" "u' = fin u1"
      by (auto simp: rbind_eq_Inr_iff)
    note q = add_sqe_run[OF bk1 mt u1(1)]
    let ?ac = "?a1\<lparr>conn_count := conn_count ?a1 + 1\<rparr>"
    have "tables ?ac = tables ?a1" "view ?ac = view ?a1" using echo_wf_cong[of ?ac ?a1] by (simp_all add: tables_def)
    then have "tables (ur_echo u') \<and> view (ur_echo u') = view ?a1 \<and> conns (ur_echo u') = conns ?a \<and> same_config ?a (ur_echo u') \<and>
        book F u' \<and> ops F u' = ops F u @ [op] \<and> ur_heap u' = ur_heap u"
      using q tc(1) by (auto simp: u1(2) fin_def same_config_def)
    then show ?thesis using tc(2) by (simp add: advanced_def k'_def[symmetric] op_def[symmetric] cn)
  qed
  show "\<exists>u'. sock_write_done env fd j u = Inr u'" if "ue_info_calloc env (brk (ur_infos u))" "length (ur_sq u) < QUEUE_DEPTH"
    unfolding run using add_sqe_room[OF bk1, of env op info] that by auto
qed

text \<open>A new connection: its slot, its zeroed buffer, its first read.\<close>

definition granted_env :: "uring_env \<Rightarrow> bool" where
  "granted_env env \<longleftrightarrow> (\<forall>i. ue_conn_calloc env i \<and> ue_msg_calloc env i \<and> ue_info_calloc env i) \<and> ue_newbie env \<and>
     ue_cause env \<noteq> None"

definition taken :: "sqe list \<Rightarrow> int \<Rightarrow> uring \<Rightarrow> uring \<Rightarrow> bool" where
  "taken F fd u u' \<longleftrightarrow> (\<exists>c b cn. tables (ur_echo u') \<and> book F u' \<and>
     ops F u' = ops F u @ [Prep_Read fd (Msg_Buf (Some b) 0) (msg_size (ur_echo u))] \<and>
     view (ur_echo u') = (view (ur_echo u))(fd := Some (cn, Some (replicate (msg_size (ur_echo u)) 0))) \<and>
     cn_buffer cn = Some b \<and> cn_cursor cn = 0 \<and> conns (ur_echo u') = (conns (ur_echo u))(fd := Some c) \<and>
     same_config (ur_echo u) (ur_echo u') \<and> ur_heap u' = ur_heap u \<and> length (ur_sq u') = length (ur_sq u) + 1)"

lemma conn_taken:
  assumes t: "tables a" and new: "conns a fd = None" and fd: "0 \<le> fd" "fd < max_fd a"
    and n: "new_conn g fd a = Inr (c, a1)" and a2: "a2 = a1\<lparr>conns := (conns a1)(fd := Some c)\<rparr>"
  shows "set_conn_slot fd (Some c) a1 = Inr a2" "cache_ok (msg_cache a2)"
    "ensure_buffer h c a2 = Inr a3 \<Longrightarrow> \<exists>b cn. tables a3 \<and> conn a3 c = cn \<and> cn_fd cn = fd \<and> cn_buffer cn = Some b \<and>
       cn_cursor cn = 0 \<and> same_config a a3 \<and> conns a3 = (conns a)(fd := Some c) \<and>
       view a3 = (view a)(fd := Some (cn, Some (replicate (msg_size a) 0)))"
proof -
  have wf: "echo_wf a" "0 < msg_size a" using t by (simp_all add: tables_def)
  from new_conn_open[OF wf(1) n new fd wf(2), folded a2] have nc: "echo_wf a2"
    "view a2 = (view a)(fd := Some (zero_connection\<lparr>cn_fd := fd\<rparr>, None))" "conns a1 = conns a" "same_config a a1"
    "conn a1 c = zero_connection\<lparr>cn_fd := fd\<rparr>" by blast+
  show "set_conn_slot fd (Some c) a1 = Inr a2" using fd nc(4) by (simp add: a2 set_conn_slot_def same_config_def)
  show "cache_ok (msg_cache a2)" by (rule echo_wfD(2)[OF nc(1)])
  assume en: "ensure_buffer h c a2 = Inr a3"
  have o2: "conns a2 fd = Some c" "conn a2 c = zero_connection\<lparr>cn_fd := fd\<rparr>" using nc(5) by (simp_all add: a2 conn_def)
  from ensure_buffer_open[OF nc(1) o2(1) en] obtain b where e: "echo_wf a3" "conns a3 = conns a2" "same_config a2 a3"
    "conn a3 c = zero_connection\<lparr>cn_fd := fd, cn_buffer := Some b\<rparr>"
    "view a3 = (view a2)(fd := Some (zero_connection\<lparr>cn_fd := fd, cn_buffer := Some b\<rparr>, Some (replicate (msg_size a2) 0)))"
    unfolding o2(2) by (auto simp: zero_connection_def)
  have cf: "same_config a a3" "msg_size a2 = msg_size a" using nc(4) e(3) by (simp_all add: a2 same_config_def)
  have v: "view a3 = (view a)(fd := Some (zero_connection\<lparr>cn_fd := fd, cn_buffer := Some b\<rparr>, Some (replicate (msg_size a) 0)))"
    using e(5) nc(2) cf by simp
  have "tables a3" using e(1) buffered_upd[OF tablesD(2)[OF t] v] t cf by (simp add: tables_def same_config_def)
  moreover have "conns a3 = (conns a)(fd := Some c)" using e(2) nc(3) by (simp add: a2)
  ultimately show "\<exists>b cn. tables a3 \<and> conn a3 c = cn \<and> cn_fd cn = fd \<and> cn_buffer cn = Some b \<and>
       cn_cursor cn = 0 \<and> same_config a a3 \<and> conns a3 = (conns a)(fd := Some c) \<and>
       view a3 = (view a)(fd := Some (cn, Some (replicate (msg_size a) 0)))"
    using e(4) cf(1) v by (intro exI[of _ b] exI[of _ "conn a3 c"]) (simp add: zero_connection_def)
qed

lemma take_conn_run:
  assumes t: "tables (ur_echo u)" and bk: "book F u" and new: "conns (ur_echo u) fd = None"
    and fd: "0 \<le> fd" "fd < max_fd (ur_echo u)"
  shows "take_conn env fd u = Inr u' \<Longrightarrow> taken F fd u u'"
    "granted_env env \<Longrightarrow> length (ur_sq u) < QUEUE_DEPTH \<Longrightarrow> \<exists>u'. take_conn env fd u = Inr u'"
proof -
  let ?a = "ur_echo u" and ?g = "ue_conn_calloc env (brk (conn_cache (ur_echo u)))"
  have core: "(\<forall>u'. take_conn env fd u = Inr u' \<longrightarrow> taken F fd u u') \<and>
      (granted_env env \<longrightarrow> length (ur_sq u) < QUEUE_DEPTH \<longrightarrow> (\<exists>u'. take_conn env fd u = Inr u'))"
  proof (cases "new_conn ?g fd ?a")
    case (Inl x)
    have "\<not> ?g" using new_conn_ok[OF echo_wfD(1)[OF tablesD(1)[OF t]], of fd] Inl by auto
    then show ?thesis using Inl by (auto simp: take_conn_def granted_env_def Let_def)
  next
    case (Inr p)
    obtain c a1 where p: "p = (c, a1)" by force
    define a2 where "a2 = a1\<lparr>conns := (conns a1)(fd := Some c)\<rparr>"
    note ct = conn_taken[OF t new fd Inr[unfolded p] a2_def]
    let ?h = "ue_msg_calloc env (brk (msg_cache a2))"
    show ?thesis
    proof (cases "ensure_buffer ?h c a2")
      case (Inl x)
      have "\<not> ?h" using ensure_buffer_ok[OF ct(2), of c] Inl by auto
      then show ?thesis using Inl Inr p ct(1) by (auto simp: take_conn_def granted_env_def Let_def)
    next
      case en: (Inr a3)
      from ct(3)[OF en] obtain b cn where e: "tables a3" "conn a3 c = cn" "cn_fd cn = fd" "cn_buffer cn = Some b"
        "cn_cursor cn = 0" "same_config ?a a3" "conns a3 = (conns ?a)(fd := Some c)"
        "view a3 = (view ?a)(fd := Some (cn, Some (replicate (msg_size ?a) 0)))" by blast
      define op where "op = Prep_Read fd (Msg_Buf (Some b) 0) (msg_size ?a)"
      define info where "info = \<lparr>ri_to_free = None, ri_fd = fd, ri_type = SOCK_READ\<rparr>"
      have bk1: "book F (u\<lparr>ur_echo := a3\<rparr>)" using bk by simp
      have sz: "msg_size a3 = msg_size ?a" using e(6) by (simp add: same_config_def)
      have run: "take_conn env fd u = add_sqe env op info (u\<lparr>ur_echo := a3\<rparr>)"
        using Inr p ct(1) en e(2-5) sz by (simp add: take_conn_def add_read_request_def Let_def op_def info_def)
      have "matches op info" by (simp add: op_def info_def)
      note ad = add_sqe_run[OF bk1 this]
      have "taken F fd u u'" if "take_conn env fd u = Inr u'" for u'
        unfolding taken_def using ad[OF that[unfolded run]] e
        by (intro exI[of _ c] exI[of _ b] exI[of _ cn]) (simp add: op_def)
      moreover have "\<exists>u'. take_conn env fd u = Inr u'" if "granted_env env" "length (ur_sq u) < QUEUE_DEPTH"
        unfolding run using add_sqe_room[OF bk1] that by (simp add: granted_env_def)
      ultimately show ?thesis by blast
    qed
  qed
  show "take_conn env fd u = Inr u' \<Longrightarrow> taken F fd u u'"
    "granted_env env \<Longrightarrow> length (ur_sq u) < QUEUE_DEPTH \<Longrightarrow> \<exists>u'. take_conn env fd u = Inr u'" using core by blast+
qed

section \<open>One request per connection\<close>

fun conn_req :: "int \<Rightarrow> sqe_op \<Rightarrow> bool" where
  "conn_req fd (Prep_Read f (Msg_Buf p off) len) \<longleftrightarrow> f = fd"
| "conn_req fd (Prep_Write f (Msg_Buf p off) len) \<longleftrightarrow> f = fd"
| "conn_req fd _ \<longleftrightarrow> False"

fun_cases conn_reqE: "conn_req fd op"

lemma conn_req_unique: "conn_req fd op \<Longrightarrow> conn_req x op \<Longrightarrow> x = fd"
  by (erule conn_reqE) simp_all

fun accept_req :: "sqe_op \<Rightarrow> bool" where
  "accept_req (Prep_Accept l) = True"
| "accept_req _ = False"

fun event_req :: "sqe_op \<Rightarrow> bool" where
  "event_req (Prep_Read fd Cause_Buf len) = True"
| "event_req _ = False"

fun notes_of :: "sqe_op \<Rightarrow> nat list" where
  "notes_of (Prep_Write fd (Heap_Buf h) len) = [h]"
| "notes_of _ = []"

text \<open>The one request of an open connection covers the rest of the message in its buffer.\<close>

definition covers :: "nat \<Rightarrow> int \<Rightarrow> connection \<Rightarrow> sqe_op \<Rightarrow> bool" where
  "covers n fd cn op \<longleftrightarrow>
     op \<in> {Prep_Read fd (Msg_Buf (cn_buffer cn) (cn_cursor cn)) (n - cn_cursor cn),
           Prep_Write fd (Msg_Buf (cn_buffer cn) (cn_cursor cn)) (n - cn_cursor cn)}"

definition armed_at :: "nat \<Rightarrow> int \<Rightarrow> (connection \<times> byte list option) option \<Rightarrow> sqe_op list \<Rightarrow> bool" where
  "armed_at n fd v B \<longleftrightarrow> (case v of None \<Rightarrow> B = [] | Some (cn, m) \<Rightarrow> \<exists>op. B = [op] \<and> covers n fd cn op)"

definition ops_ok :: "nat \<Rightarrow> (int \<Rightarrow> (connection \<times> byte list option) option) \<Rightarrow> sqe_op list \<Rightarrow> bool" where
  "ops_ok n V R \<longleftrightarrow> (\<forall>fd. armed_at n fd (V fd) (filter (conn_req fd) R))"

lemma ops_ok_upd:
  assumes "ops_ok n V R" "\<And>x. x \<noteq> fd \<Longrightarrow> filter (conn_req x) R' = filter (conn_req x) R"
    "armed_at n fd v (filter (conn_req fd) R')"
  shows "ops_ok n (V(fd := v)) R'"
  using assms by (simp add: ops_ok_def)

lemma ops_ok_other:
  assumes "ops_ok n V R" "\<And>x. filter (conn_req x) R' = filter (conn_req x) R"
  shows "ops_ok n V R'"
  using assms by (simp add: ops_ok_def)

text \<open>A completed request leaves its descriptor without one.\<close>

lemma ops_ok_done:
  assumes "ops_ok n V (R1 @ op # R2)" "conn_req fd op"
  shows "filter (conn_req fd) (R1 @ R2) = []" "\<exists>cn m. V fd = Some (cn, m) \<and> covers n fd cn op"
    "x \<noteq> fd \<Longrightarrow> filter (conn_req x) (R1 @ R2) = filter (conn_req x) (R1 @ op # R2)"
proof -
  have a: "armed_at n fd (V fd) (filter (conn_req fd) (R1 @ op # R2))" using assms(1) by (simp add: ops_ok_def)
  then obtain cn m op' where 1: "V fd = Some (cn, m)" "filter (conn_req fd) (R1 @ op # R2) = [op']" "covers n fd cn op'"
    using assms(2) by (auto simp: armed_at_def split: option.splits)
  have 2: "filter (conn_req fd) R1 @ op # filter (conn_req fd) R2 = [op']" using 1(2) assms(2) by simp
  then have "filter (conn_req fd) R1 = [] \<and> filter (conn_req fd) R2 = [] \<and> op' = op"
    by (cases "filter (conn_req fd) R1") auto
  then show "filter (conn_req fd) (R1 @ R2) = []" "\<exists>cn m. V fd = Some (cn, m) \<and> covers n fd cn op" using 1 by auto
  have "\<not> conn_req x op" if "x \<noteq> fd" using conn_req_unique[OF assms(2)] that by blast
  then show "filter (conn_req x) (R1 @ R2) = filter (conn_req x) (R1 @ op # R2)" if "x \<noteq> fd" using that by simp
qed

section \<open>The ring\<close>

text \<open>
  \<open>rg_flying\<close> are the submitted requests, \<open>rg_told\<close> the notifications of other threads that are under
  way, \<open>rg_count\<close> the counter of the event descriptor.  The trace of network events and of the bytes
  written only records the run.
\<close>

record ring =
  rg_u :: uring
  rg_q :: incoming
  rg_flying :: "sqe list"
  rg_told :: nat
  rg_count :: nat
  rg_trace :: "net_event list"
  rg_sent :: "(int \<times> byte list) list"

text \<open>
  What the kernel does when it completes a request: its result, its effect on the memory, the counter
  afterwards, and what that means.  A new descriptor is free and in range; a read puts no more bytes
  than asked behind the address it was given, and a write takes them from there; the event
  descriptor is read when its counter is not zero.
\<close>

fun kernel_does ::
  "int \<Rightarrow> uring_env \<Rightarrow> echo \<Rightarrow> int list \<Rightarrow> nat \<Rightarrow> sqe_op \<Rightarrow> int \<Rightarrow> echo \<Rightarrow> nat \<Rightarrow> net_event list \<Rightarrow> (int \<times> byte list) list \<Rightarrow> bool" where
  "kernel_does mx env a L k (Prep_Accept l) res a' k' evs ws \<longleftrightarrow> a' = a \<and> k' = k \<and> ws = [] \<and>
     (0 \<le> res \<longrightarrow> res < mx \<and> conns a res = None \<and> res \<notin> set L) \<and>
     evs = (if 0 \<le> res \<and> ue_cpu env res = Some (index a) then [Accepted l res] else [])"
| "kernel_does mx env a L k (Prep_Read fd (Msg_Buf p off) len) res a' k' evs ws \<longleftrightarrow> k' = k \<and> ws = [] \<and>
     ((res \<le> 0 \<and> a' = a \<and> evs = [Hangup fd]) \<or>
      (\<exists>bs. bs \<noteq> [] \<and> length bs \<le> len \<and> res = int (length bs) \<and> store_msg p off bs a = Inr a' \<and> evs = [Got fd bs]))"
| "kernel_does mx env a L k (Prep_Write fd (Msg_Buf p off) len) res a' k' evs ws \<longleftrightarrow> k' = k \<and> a' = a \<and>
     ((res \<le> 0 \<and> ws = [] \<and> evs = [Hangup fd]) \<or>
      (0 < res \<and> res \<le> int len \<and> evs = [Sent fd (nat res)] \<and>
       (\<exists>b. p = Some b \<and> ws = [(fd, take (nat res) (drop off (msg a b)))])))"
| "kernel_does mx env a L k (Prep_Read fd Cause_Buf len) res a' k' evs ws \<longleftrightarrow>
     0 < k \<and> k' = 0 \<and> a' = a \<and> ws = [] \<and> evs = map (Accepted fd) L"
| "kernel_does mx env a L k (Prep_Write fd (Heap_Buf h) len) res a' k' evs ws \<longleftrightarrow> k' = k \<and> a' = a \<and> ws = [] \<and> evs = []"
| "kernel_does mx env a L k _ res a' k' evs ws \<longleftrightarrow> False"

inductive ring_step :: "int \<Rightarrow> int \<Rightarrow> int \<Rightarrow> ring \<Rightarrow> ring \<Rightarrow> bool" for l ev mx where
  ring_submit: "ring_step l ev mx r (r\<lparr>rg_u := (rg_u r)\<lparr>ur_sq := []\<rparr>, rg_flying := rg_flying r @ ur_sq (rg_u r)\<rparr>)"
| ring_push: "i = index (ur_echo (rg_u r)) \<Longrightarrow> 0 \<le> fd \<Longrightarrow> fd < mx \<Longrightarrow> conns (ur_echo (rg_u r)) fd = None \<Longrightarrow>
    fd \<notin> set (rg_q r i) \<Longrightarrow>
    ring_step l ev mx r (r\<lparr>rg_q := (rg_q r)(i := fd # rg_q r i), rg_told := rg_told r + 1\<rparr>)"
| ring_land: "0 < rg_told r \<Longrightarrow> ring_step l ev mx r (r\<lparr>rg_told := rg_told r - 1, rg_count := rg_count r + 1\<rparr>)"
| ring_complete: "x \<in> set (rg_flying r) \<Longrightarrow>
    kernel_does mx env (ur_echo (rg_u r)) (rg_q r (index (ur_echo (rg_u r)))) (rg_count r) (sq_op x) res a' k' evs ws \<Longrightarrow>
    handle_cqe env l ev \<lparr>cq_data = sq_data x, cq_res = res\<rparr> ((rg_u r)\<lparr>ur_echo := a'\<rparr>) (rg_q r) = Inr (u', q') \<Longrightarrow>
    ring_step l ev mx r \<lparr>rg_u = u', rg_q = q', rg_flying = remove1 x (rg_flying r), rg_told = rg_told r, rg_count = k',
      rg_trace = rg_trace r @ evs, rg_sent = rg_sent r @ ws\<rparr>"

text \<open>A worker as \<open>uring_setup\<close> leaves it: no connection, the accept and the event read are queued.\<close>

definition ring_init :: "int \<Rightarrow> int \<Rightarrow> nat \<Rightarrow> ring \<Rightarrow> bool" where
  "ring_init l mx n r \<longleftrightarrow>
     (let u = rg_u r; a = ur_echo u in
      tables a \<and> max_fd a = mx \<and> msg_size a = n \<and> (\<forall>fd. conns a fd = None) \<and> book [] u \<and> ur_heap u = [] \<and>
      (\<exists>ev. ops [] u = [Prep_Accept l, Prep_Read ev Cause_Buf 8]) \<and>
      rg_q r (index a) = [] \<and> rg_flying r = [] \<and> rg_told r = 0 \<and> rg_count r = 0 \<and> rg_trace r = [] \<and> rg_sent r = [])"

text \<open>
  The invariant.  The tables are well-formed; each connection has its request; one accept is armed;
  the live notifications are those in flight.  A connection that waits to be taken over has a
  notification under way or counted, and enough reads of the event descriptor are armed for all.
\<close>

definition net_ok ::
  "nat \<Rightarrow> echo \<Rightarrow> sqe_op list \<Rightarrow> net_event list \<Rightarrow> (int \<times> byte list) list \<Rightarrow> bool" where
  "net_ok n a R trace sent \<longleftrightarrow> tables a \<and> msg_size a = n \<and> ops_ok n (view a) R \<and>
     runs n trace (\<lambda>_. None) (sessions a) (\<lambda>fd. sent_on fd sent)"

definition queue_ok :: "int \<Rightarrow> echo \<Rightarrow> int list \<Rightarrow> bool" where
  "queue_ok mx a L \<longleftrightarrow> distinct L \<and> (\<forall>fd \<in> set L. 0 \<le> fd \<and> fd < mx \<and> conns a fd = None)"

definition ring_inv :: "int \<Rightarrow> int \<Rightarrow> nat \<Rightarrow> ring \<Rightarrow> bool" where
  "ring_inv l mx n r \<longleftrightarrow>
     (let u = rg_u r; a = ur_echo u; R = ops (rg_flying r) u; L = rg_q r (index a) in
      max_fd a = mx \<and> book (rg_flying r) u \<and> net_ok n a R (rg_trace r) (rg_sent r) \<and>
      filter accept_req R = [Prep_Accept l] \<and> mset (ur_heap u) = mset (concat (map notes_of R)) \<and> queue_ok mx a L \<and>
      length L \<le> rg_told r + rg_count r \<and>
      1 + rg_told r + rg_count r \<le> length (filter event_req R) + length L)"

lemma ring_init_inv:
  assumes "ring_init l mx n r"
  shows "ring_inv l mx n r"
proof -
  let ?a = "ur_echo (rg_u r)"
  have "view ?a = (\<lambda>_. None)" "sessions ?a = (\<lambda>_. None)"
    using assms by (auto simp: ring_init_def Let_def view_def sessions_def fun_eq_iff)
  then show ?thesis using assms
    by (auto simp: ring_init_def ring_inv_def Let_def net_ok_def ops_ok_def armed_at_def queue_ok_def)
qed

text \<open>Giving the record of a completed request back.\<close>

lemma book_done:
  assumes "book (F1 @ x # F2) u"
  shows "\<exists>c. cache_free (ur_infos u) (Some (sq_data x)) = Inr c \<and> book (F1 @ F2) (u\<lparr>ur_infos := c\<rparr>) \<and>
    matches (sq_op x) (payload (ur_infos u) (sq_data x))"
proof -
  let ?c = "ur_infos u"
  have b: "cache_ok ?c" "distinct (map sq_data (F1 @ x # F2 @ ur_sq u))"
    "\<And>y. y \<in> set (F1 @ x # F2 @ ur_sq u) \<Longrightarrow> in_use ?c (sq_data y) \<and> matches (sq_op y) (payload ?c (sq_data y))"
    using assms by (auto simp: book_def infos_ok_def)
  have "in_use ?c (sq_data x)" using b(3) by simp
  from cache_free_spec[OF b(1) this] obtain c where c: "cache_free ?c (Some (sq_data x)) = Inr c" "cache_ok c"
    "\<forall>y. in_use c y \<longleftrightarrow> in_use ?c y \<and> y \<noteq> sq_data x" "\<forall>y. payload c y = payload ?c y" by blast
  have "sq_data y \<noteq> sq_data x" if "y \<in> set (F1 @ F2 @ ur_sq u)" for y using b(2) that by (auto simp: image_iff)
  then have "infos_ok c ((F1 @ F2) @ ur_sq u)"
    unfolding infos_ok_def using b(2,3) c by auto
  then show ?thesis using c(1) b(3)[of x] by (intro exI[of _ c]) (simp add: book_def)
qed

lemma ops_split: "ops (F1 @ x # F2) u = map sq_op F1 @ sq_op x # map sq_op (F2 @ ur_sq u)"
  "ops (F1 @ F2) u = map sq_op F1 @ map sq_op (F2 @ ur_sq u)"
  by (simp_all add: ops_def)

section \<open>Completions keep the invariant\<close>

lemma net_conn_step:
  assumes net: "net_ok n a (R1 @ op # R2) tr st" and op: "conn_req fd op"
    and a': "tables a'" "msg_size a' = n" "view a' = (view a)(fd := v)"
    and evs: "runs n evs (sessions a) (sessions a') (\<lambda>fd. sent_on fd ws)"
    and new: "armed_at n fd v new" "\<forall>o' \<in> set new. conn_req fd o'"
  shows "net_ok n a' ((R1 @ R2) @ new) (tr @ evs) (st @ ws)"
proof -
  note d = ops_ok_done[of n "view a" R1 op R2 fd]
  have ok: "ops_ok n (view a) (R1 @ op # R2)" using net by (simp add: net_ok_def)
  have "filter (conn_req x) new = []" if "x \<noteq> fd" for x
    using new(2) conn_req_unique[of fd _ x] that by (fastforce simp: filter_empty_conv)
  moreover have "filter (conn_req fd) new = new" using new(2) by simp
  ultimately have "ops_ok n ((view a)(fd := v)) ((R1 @ R2) @ new)"
    using d(1,3)[OF ok op] new(1) by (intro ops_ok_upd[OF ok]) simp_all
  moreover have "runs n (tr @ evs) (\<lambda>_. None) (sessions a') (\<lambda>fd. sent_on fd (st @ ws))"
    using runs_append[OF _ evs, of tr "\<lambda>_. None" "\<lambda>fd. sent_on fd st"] net by (simp add: net_ok_def)
  ultimately show ?thesis using a' by (simp add: net_ok_def)
qed

text \<open>The connection behind a request.\<close>

lemma net_conn:
  assumes net: "net_ok n a (R1 @ op # R2) tr st" and op: "conn_req fd op"
  obtains c b where "conns a fd = Some c" "cn_buffer (conn a c) = Some b"
    "view a fd = Some (conn a c, Some (msg a b))" "cn_cursor (conn a c) < n" "length (msg a b) = n"
    "covers n fd (conn a c) op"
    "sessions a fd = Some \<lparr>s_cursor = cn_cursor (conn a c), s_msg = msg a b\<rparr>" "conn_slot a fd = Inr (Some c)"
proof -
  have t: "tables a" "msg_size a = n" "ops_ok n (view a) (R1 @ op # R2)" using net by (simp_all add: net_ok_def)
  from ops_ok_done(2)[OF t(3) op] obtain cn m where v: "view a fd = Some (cn, m)" "covers n fd cn op" by blast
  then obtain c where c: "conns a fd = Some c" by (auto simp: view_def)
  obtain b where "cn_buffer (conn a c) = Some b" "view a fd = Some (conn a c, Some (msg a b))" "cn_fd (conn a c) = fd"
    "cn_cursor (conn a c) < msg_size a" "length (msg a b) = msg_size a" "conn_slot a fd = Inr (Some c)"
    by (rule tables_open[OF t(1) c]) blast
  then show thesis using that[of c b] c v t(2) by (simp add: sessions_def session_of_def)
qed

lemma hangup_step:
  assumes net: "net_ok n (ur_echo u) (R1 @ op # R2) tr st" and op: "conn_req fd op"
    and c: "conns (ur_echo u) fd = Some c" and run: "on_close_u (Some c) u = Inr u'"
  shows "net_ok n (ur_echo u') (R1 @ R2) (tr @ [Hangup fd]) st \<and> ur_infos u' = ur_infos u \<and> ur_sq u' = ur_sq u \<and>
    ur_heap u' = ur_heap u \<and> conns (ur_echo u') = (conns (ur_echo u))(fd := None) \<and> same_config (ur_echo u) (ur_echo u')"
proof -
  have t: "tables (ur_echo u)" "msg_size (ur_echo u) = n" using net by (simp_all add: net_ok_def)
  from on_close_u_run[OF t(1) c] run obtain a' where a': "u' = u\<lparr>ur_echo := a'\<rparr>" "tables a'"
    "view a' = (view (ur_echo u))(fd := None)" "conns a' = (conns (ur_echo u))(fd := None)" "same_config (ur_echo u) a'"
    by auto
  have r: "runs n [Hangup fd] (sessions (ur_echo u)) (sessions a') (\<lambda>fd. sent_on fd [])"
    using runs_hangup[of n fd "sessions (ur_echo u)"] sessions_del[OF a'(3)] by simp
  have "msg_size a' = n" using a'(5) t(2) by (simp add: same_config_def)
  from net_conn_step[OF net op a'(2) this a'(3) r, of "[]"] show ?thesis using a' by (simp add: armed_at_def)
qed

text \<open>A handler that has moved the cursor and asked for the next request of the connection.\<close>

lemma advanced_step:
  assumes net: "net_ok n a (R1 @ op # R2) tr st" and cr: "conn_req fd op" and R: "ops F u = R1 @ R2"
    and ad: "advanced F fd cn m k o' u u'"
    and u: "view (ur_echo u) = (view a)(fd := Some (cn0, Some m))" "conns (ur_echo u) = conns a" "same_config a (ur_echo u)"
    and evs: "runs n evs (sessions a) ((sessions a)(fd := Some \<lparr>s_cursor = k, s_msg = m\<rparr>)) (\<lambda>fd. sent_on fd ws)"
    and o': "conn_req fd o'" "covers n fd (cn\<lparr>cn_cursor := k\<rparr>) o'"
  shows "(\<exists>o'. conn_req fd o' \<and> ops F u' = (R1 @ R2) @ [o'] \<and> net_ok n (ur_echo u') (ops F u') (tr @ evs) (st @ ws)) \<and>
      book F u' \<and> conns (ur_echo u') = conns a \<and> same_config a (ur_echo u')"
proof -
  let ?v = "Some (cn\<lparr>cn_cursor := k\<rparr>, Some m)"
  have v: "view (ur_echo u') = (view a)(fd := ?v)" using ad u(1) by (simp add: advanced_def)
  have cf: "same_config a (ur_echo u')" "conns (ur_echo u') = conns a"
    using ad u(2,3) by (auto simp: advanced_def intro: same_config_trans)
  have t: "tables (ur_echo u')" "msg_size (ur_echo u') = n" using ad cf(1) net by (simp_all add: advanced_def net_ok_def same_config_def)
  have r: "runs n evs (sessions a) (sessions (ur_echo u')) (\<lambda>fd. sent_on fd ws)"
    using evs sessions_upd[OF v] by (simp add: session_of_def)
  have arm: "armed_at n fd ?v [o']" using o'(2) by (simp add: armed_at_def)
  have "net_ok n (ur_echo u') ((R1 @ R2) @ [o']) (tr @ evs) (st @ ws)"
    by (rule net_conn_step[OF net cr t v r arm]) (use o'(1) in simp)
  then show ?thesis using ad R cf o'(1) by (auto simp: advanced_def)
qed

text \<open>A completed read: the bytes are in the buffer already when the handler looks at the result.\<close>

lemma read_step:
  assumes net: "net_ok n (ur_echo u) (R1 @ Prep_Read fd (Msg_Buf p off) len # R2) tr st"
    and bk: "book F u" and R: "ops F u = R1 @ R2" and bs: "bs \<noteq> []" "length bs \<le> len"
    and st: "store_msg p off bs (ur_echo u) = Inr a1"
  shows "sock_read_done env fd (int (length bs)) (u\<lparr>ur_echo := a1\<rparr>) = Inr u' \<Longrightarrow>
      (\<exists>o'. conn_req fd o' \<and> ops F u' = (R1 @ R2) @ [o'] \<and> net_ok n (ur_echo u') (ops F u') (tr @ [Got fd bs]) st) \<and>
      book F u' \<and> ur_heap u' = ur_heap u \<and> conns (ur_echo u') = conns (ur_echo u) \<and> same_config (ur_echo u) (ur_echo u')"
    "ue_info_calloc env (brk (ur_infos u)) \<Longrightarrow> length (ur_sq u) < QUEUE_DEPTH \<Longrightarrow>
      \<exists>u'. sock_read_done env fd (int (length bs)) (u\<lparr>ur_echo := a1\<rparr>) = Inr u'"
proof -
  let ?a = "ur_echo u" and ?op = "Prep_Read fd (Msg_Buf p off) len"
  have cr: "conn_req fd ?op" by simp
  obtain c b where c: "conns ?a fd = Some c" "cn_buffer (conn ?a c) = Some b"
    "view ?a fd = Some (conn ?a c, Some (msg ?a b))" "cn_cursor (conn ?a c) < n" "length (msg ?a b) = n"
    "covers n fd (conn ?a c) ?op" "sessions ?a fd = Some \<lparr>s_cursor = cn_cursor (conn ?a c), s_msg = msg ?a b\<rparr>"
    by (rule net_conn[OF net cr]) blast
  define cn where "cn = conn ?a c"
  have p: "p = cn_buffer cn" "off = cn_cursor cn" "len = n - cn_cursor cn" using c(6) by (auto simp: covers_def cn_def)
  have t: "tables ?a" "msg_size ?a = n" using net by (simp_all add: net_ok_def)
  have le: "cn_cursor cn + length bs \<le> msg_size ?a" using bs(2) p(3) c(4) t(2) by (simp add: cn_def)
  let ?m = "splice (cn_cursor cn) bs (msg ?a b)"
  from store_msg_open[OF tablesD(1)[OF t(1)] c(1,2) le[unfolded cn_def]] st p obtain
    a: "echo_wf a1" "conns a1 = conns ?a" "conn_cache a1 = conn_cache ?a" "same_config ?a a1"
      "view a1 = (view ?a)(fd := Some (cn, Some ?m))" by (auto simp: cn_def)
  have t1: "tables a1" "msg_size a1 = n" "conns a1 fd = Some c" "view a1 fd = Some (cn, Some ?m)"
    using a t buffered_upd[OF tablesD(2)[OF t(1)] a(5)] c(1) by (simp_all add: tables_def same_config_def)
  define k where "k = cn_cursor cn + length bs"
  define k' where "k' = (if k < n then k else 0)"
  define o' where "o' = (if k < n then Prep_Read fd (Msg_Buf (cn_buffer cn) k) (n - k) else Prep_Write fd (Msg_Buf (cn_buffer cn) 0) n)"
  have kn: "k \<le> n" "0 < n" using le t(2) c(4) by (simp_all add: k_def)
  have j: "0 < int (length bs)" "cn_cursor cn + nat (int (length bs)) \<le> msg_size (ur_echo (u\<lparr>ur_echo := a1\<rparr>))"
    using bs(1) le t(2) t1(2) by simp_all
  have pre: "tables (ur_echo (u\<lparr>ur_echo := a1\<rparr>))" "book F (u\<lparr>ur_echo := a1\<rparr>)" "conns (ur_echo (u\<lparr>ur_echo := a1\<rparr>)) fd = Some c"
    "view (ur_echo (u\<lparr>ur_echo := a1\<rparr>)) fd = Some (cn, Some ?m)" using t1 bk by simp_all
  have sz: "msg_size (ur_echo (u\<lparr>ur_echo := a1\<rparr>)) = n" using t1(2) by simp
  note run = sock_read_done_run[OF pre j]
  show "(\<exists>o'. conn_req fd o' \<and> ops F u' = (R1 @ R2) @ [o'] \<and> net_ok n (ur_echo u') (ops F u') (tr @ [Got fd bs]) st) \<and>
      book F u' \<and> ur_heap u' = ur_heap u \<and> conns (ur_echo u') = conns (ur_echo u) \<and> same_config (ur_echo u) (ur_echo u')"
    if "sock_read_done env fd (int (length bs)) (u\<lparr>ur_echo := a1\<rparr>) = Inr u'"
  proof -
    have ad: "advanced F fd cn ?m k' o' (u\<lparr>ur_echo := a1\<rparr>) u'"
      using run(1)[OF that, unfolded sz nat_int] unfolding k_def k'_def o'_def .
    have r: "runs n [Got fd bs] (sessions ?a) ((sessions ?a)(fd := Some \<lparr>s_cursor = k', s_msg = ?m\<rparr>)) (\<lambda>fd. sent_on fd [])"
      using runs_got[of "sessions ?a", OF c(7)[folded cn_def], of n bs, folded k_def, folded k'_def] by simp
    have o': "conn_req fd o'" "covers n fd (cn\<lparr>cn_cursor := k'\<rparr>) o'" using kn by (simp_all add: covers_def o'_def k'_def)
    have R': "ops F (u\<lparr>ur_echo := a1\<rparr>) = R1 @ R2" using R by simp
    have u1: "view (ur_echo (u\<lparr>ur_echo := a1\<rparr>)) = (view ?a)(fd := Some (cn, Some ?m))"
      "conns (ur_echo (u\<lparr>ur_echo := a1\<rparr>)) = conns ?a" "same_config ?a (ur_echo (u\<lparr>ur_echo := a1\<rparr>))" using a by simp_all
    from advanced_step[OF net cr R' ad u1 r o'] have st: "(\<exists>o'. conn_req fd o' \<and> ops F u' = (R1 @ R2) @ [o'] \<and>
        net_ok n (ur_echo u') (ops F u') (tr @ [Got fd bs]) st) \<and> book F u' \<and> conns (ur_echo u') = conns ?a \<and>
        same_config ?a (ur_echo u')" by simp
    moreover have "ur_heap u' = ur_heap u" using ad by (simp add: advanced_def)
    ultimately show ?thesis by blast
  qed
  show "\<exists>u'. sock_read_done env fd (int (length bs)) (u\<lparr>ur_echo := a1\<rparr>) = Inr u'"
    if "ue_info_calloc env (brk (ur_infos u))" "length (ur_sq u) < QUEUE_DEPTH"
    using run(2) that by simp
qed

text \<open>A completed write.\<close>

lemma write_step:
  assumes net: "net_ok n (ur_echo u) (R1 @ Prep_Write fd (Msg_Buf (Some b) off) len # R2) tr st"
    and bk: "book F u" and R: "ops F u = R1 @ R2" and j: "0 < j" "j \<le> int len"
  shows "sock_write_done env fd j u = Inr u' \<Longrightarrow>
      (\<exists>o'. conn_req fd o' \<and> ops F u' = (R1 @ R2) @ [o'] \<and>
         net_ok n (ur_echo u') (ops F u') (tr @ [Sent fd (nat j)]) (st @ [(fd, take (nat j) (drop off (msg (ur_echo u) b)))])) \<and>
      book F u' \<and> ur_heap u' = ur_heap u \<and> conns (ur_echo u') = conns (ur_echo u) \<and> same_config (ur_echo u) (ur_echo u')"
    "ue_info_calloc env (brk (ur_infos u)) \<Longrightarrow> length (ur_sq u) < QUEUE_DEPTH \<Longrightarrow> \<exists>u'. sock_write_done env fd j u = Inr u'"
proof -
  let ?a = "ur_echo u" and ?op = "Prep_Write fd (Msg_Buf (Some b) off) len"
  have cr: "conn_req fd ?op" by simp
  obtain c b' where c: "conns ?a fd = Some c" "cn_buffer (conn ?a c) = Some b'"
    "view ?a fd = Some (conn ?a c, Some (msg ?a b'))" "cn_cursor (conn ?a c) < n" "length (msg ?a b') = n"
    "covers n fd (conn ?a c) ?op" "sessions ?a fd = Some \<lparr>s_cursor = cn_cursor (conn ?a c), s_msg = msg ?a b'\<rparr>"
    by (rule net_conn[OF net cr]) blast
  define cn where "cn = conn ?a c"
  have p: "b' = b" "off = cn_cursor cn" "len = n - cn_cursor cn" using c(2,6) by (auto simp: covers_def cn_def)
  have t: "tables ?a" "msg_size ?a = n" using net by (simp_all add: net_ok_def)
  define k where "k = cn_cursor cn + nat j"
  define k' where "k' = (if k < n then k else 0)"
  define o' where "o' = (if k < n then Prep_Write fd (Msg_Buf (cn_buffer cn) k) (n - k) else Prep_Read fd (Msg_Buf (cn_buffer cn) 0) n)"
  let ?m = "msg ?a b" and ?w = "[(fd, take (nat j) (drop off (msg ?a b)))]"
  have le: "cn_cursor cn + nat j \<le> msg_size ?a" using j p(3) c(4) t(2) by (simp add: cn_def)
  have kn: "k \<le> n" "0 < n" using le t(2) c(4) by (simp_all add: k_def)
  have v0: "view ?a fd = Some (cn, Some ?m)" using c(3) p(1) by (simp add: cn_def)
  note run = sock_write_done_run[OF t(1) bk c(1) v0 j(1) le]
  show "(\<exists>o'. conn_req fd o' \<and> ops F u' = (R1 @ R2) @ [o'] \<and>
         net_ok n (ur_echo u') (ops F u') (tr @ [Sent fd (nat j)]) (st @ ?w)) \<and>
      book F u' \<and> ur_heap u' = ur_heap u \<and> conns (ur_echo u') = conns (ur_echo u) \<and> same_config (ur_echo u) (ur_echo u')"
    if "sock_write_done env fd j u = Inr u'"
  proof -
    have ad: "advanced F fd cn ?m k' o' u u'"
      using run(1)[OF that, unfolded t(2)] unfolding k_def k'_def o'_def .
    have "(\<lambda>x. if x = fd then take (nat j) (drop (cn_cursor cn) ?m) else []) = (\<lambda>x. sent_on x ?w)"
      using p(2) by (auto simp: fun_eq_iff)
    then have r: "runs n [Sent fd (nat j)] (sessions ?a) ((sessions ?a)(fd := Some \<lparr>s_cursor = k', s_msg = ?m\<rparr>)) (\<lambda>fd. sent_on fd ?w)"
      using runs_sent[of "sessions ?a", OF c(7)[folded cn_def, unfolded p(1)], of n "nat j", folded k_def, folded k'_def] by (simp only:)
    have o': "conn_req fd o'" "covers n fd (cn\<lparr>cn_cursor := k'\<rparr>) o'" using kn by (simp_all add: covers_def o'_def k'_def)
    have v: "view ?a = (view ?a)(fd := Some (cn, Some ?m))" using v0 by (simp add: fun_upd_idem)
    have "ur_heap u' = ur_heap u" using ad by (simp add: advanced_def)
    with advanced_step[OF net cr R ad v refl same_config_refl r o'] show ?thesis by blast
  qed
  show "\<exists>u'. sock_write_done env fd j u = Inr u'" if "ue_info_calloc env (brk (ur_infos u))" "length (ur_sq u) < QUEUE_DEPTH"
    using run(2) that by simp
qed

text \<open>The other kinds of requests.\<close>

lemma conn_req_kinds: "conn_req fd op \<Longrightarrow> \<not> accept_req op \<and> \<not> event_req op \<and> notes_of op = []"
  by (erule conn_reqE) simp_all

lemma net_other_step:
  assumes "net_ok n a R tr st" "\<And>fd. \<not> conn_req fd op"
  shows "net_ok n a (R @ [op]) tr st"
  using assms ops_ok_other[of n "view a" R "R @ [op]"] by (simp add: net_ok_def)

lemma net_drop_step:
  assumes "net_ok n a (R1 @ op # R2) tr st" "\<And>fd. \<not> conn_req fd op"
  shows "net_ok n a (R1 @ R2) tr st"
  using assms ops_ok_other[of n "view a" "R1 @ op # R2" "R1 @ R2"] by (simp add: net_ok_def)

lemma take_step:
  assumes net: "net_ok n (ur_echo u) (ops F u) tr st" and bk: "book F u" and new: "conns (ur_echo u) fd = None"
    and fd: "0 \<le> fd" "fd < max_fd (ur_echo u)" and run: "take_conn env fd u = Inr u'"
  shows "\<exists>op c. conn_req fd op \<and> ops F u' = ops F u @ [op] \<and> net_ok n (ur_echo u') (ops F u') (tr @ [Accepted l fd]) st \<and>
    book F u' \<and> ur_heap u' = ur_heap u \<and> same_config (ur_echo u) (ur_echo u') \<and> length (ur_sq u') = length (ur_sq u) + 1 \<and>
    conns (ur_echo u') = (conns (ur_echo u))(fd := Some c)"
proof -
  let ?a = "ur_echo u"
  have t: "tables ?a" "msg_size ?a = n" "ops_ok n (view ?a) (ops F u)" using net by (simp_all add: net_ok_def)
  from take_conn_run(1)[OF t(1) bk new fd run, unfolded taken_def t(2)] obtain c b cn where k: "tables (ur_echo u')" "book F u'"
    "ops F u' = ops F u @ [Prep_Read fd (Msg_Buf (Some b) 0) n]"
    "view (ur_echo u') = (view ?a)(fd := Some (cn, Some (replicate n 0)))" "cn_buffer cn = Some b" "cn_cursor cn = 0"
    "conns (ur_echo u') = (conns ?a)(fd := Some c)" "same_config ?a (ur_echo u')" "ur_heap u' = ur_heap u"
    "length (ur_sq u') = length (ur_sq u) + 1" by blast
  let ?op = "Prep_Read fd (Msg_Buf (Some b) 0) n"
  have vn: "view ?a fd = None" using new by simp
  have "filter (conn_req fd) (ops F u) = []"
    using t(3)[unfolded ops_ok_def armed_at_def, rule_format, of fd] unfolding vn option.case .
  then have "ops_ok n (view (ur_echo u')) (ops F u')"
    unfolding k(3,4) using k(5,6) by (intro ops_ok_upd[OF t(3)]) (simp_all add: armed_at_def covers_def)
  moreover have "sessions (ur_echo u') = (sessions ?a)(fd := Some \<lparr>s_cursor = 0, s_msg = replicate n 0\<rparr>)"
    using sessions_upd[OF k(4)] k(6) by (simp add: session_of_def)
  then have "runs n (tr @ [Accepted l fd]) (\<lambda>_. None) (sessions (ur_echo u')) (\<lambda>fd. sent_on fd st)"
    using runs_append[OF _ runs_accepted[of n l fd "sessions ?a"], of tr "\<lambda>_. None" "\<lambda>fd. sent_on fd st"] net
    by (simp add: net_ok_def)
  moreover have "msg_size (ur_echo u') = n" using k(8) t(2) by (simp add: same_config_def)
  ultimately have "net_ok n (ur_echo u') (ops F u') (tr @ [Accepted l fd]) st" using k(1) by (simp add: net_ok_def)
  then show ?thesis using k by (intro exI[of _ ?op] exI[of _ c]) simp
qed

text \<open>Taking over all connections that wait.\<close>

lemma ev_read_step:
  "net_ok n (ur_echo u) (ops F u) tr st \<Longrightarrow> book F u \<Longrightarrow> queue_ok (max_fd (ur_echo u)) (ur_echo u) fds \<Longrightarrow>
   ev_read_done env ev fds u = Inr u' \<Longrightarrow>
     net_ok n (ur_echo u') (ops F u') (tr @ map (Accepted l) fds) st \<and> book F u' \<and> ur_heap u' = ur_heap u \<and>
     same_config (ur_echo u) (ur_echo u') \<and>
     filter accept_req (ops F u') = filter accept_req (ops F u) \<and>
     concat (map notes_of (ops F u')) = concat (map notes_of (ops F u)) \<and>
     length (filter event_req (ops F u')) = length (filter event_req (ops F u)) + length fds \<and>
     (\<forall>x. x \<notin> set fds \<longrightarrow> conns (ur_echo u') x = conns (ur_echo u) x)"
proof (induction fds arbitrary: u tr)
  case Nil
  then show ?case by simp
next
  case (Cons fd fds)
  from Cons.prems(4) obtain u1 u2 where u1: "take_conn env fd u = Inr u1"
    and u2: "add_read_request env ev Cause_Buf 8 EV_READ u1 = Inr u2" and rest: "ev_read_done env ev fds u2 = Inr u'"
    by (auto simp: rbind_eq_Inr_iff)
  have q: "0 \<le> fd" "fd < max_fd (ur_echo u)" "conns (ur_echo u) fd = None" "fd \<notin> set fds" "queue_ok (max_fd (ur_echo u)) (ur_echo u) fds"
    using Cons.prems(3) by (auto simp: queue_ok_def)
  from take_step[OF Cons.prems(1,2) q(3,1,2) u1, of l] obtain op c where 1: "conn_req fd op" "ops F u1 = ops F u @ [op]"
    "net_ok n (ur_echo u1) (ops F u1) (tr @ [Accepted l fd]) st" "book F u1" "ur_heap u1 = ur_heap u"
    "same_config (ur_echo u) (ur_echo u1)" "conns (ur_echo u1) = (conns (ur_echo u))(fd := Some c)" by blast
  have m: "matches (Prep_Read ev Cause_Buf 8) \<lparr>ri_to_free = None, ri_fd = ev, ri_type = EV_READ\<rparr>" by simp
  note 2 = add_sqe_run[OF 1(4) m u2[unfolded add_request_defs]]
  have n2: "net_ok n (ur_echo u2) (ops F u2) (tr @ [Accepted l fd]) st"
    using net_other_step[OF 1(3), of "Prep_Read ev Cause_Buf 8"] 2 by simp
  have q2: "queue_ok (max_fd (ur_echo u2)) (ur_echo u2) fds"
    using q(4,5) 1(6,7) 2 by (auto simp: queue_ok_def same_config_def)
  have b2: "book F u2" using 2 by blast
  note ih = Cons.IH[OF n2 b2 q2 rest]
  note k = conn_req_kinds[OF 1(1)]
  have cf: "same_config (ur_echo u) (ur_echo u')" using ih 1(6) 2 same_config_trans by metis
  have cs: "conns (ur_echo u') x = conns (ur_echo u) x" if "x \<notin> set (fd # fds)" for x
    using ih 1(7) 2 that by simp
  show ?case using ih 1 2 k cf cs by simp
qed

lemma ev_read_room:
  "net_ok n (ur_echo u) (ops F u) tr st \<Longrightarrow> book F u \<Longrightarrow> queue_ok (max_fd (ur_echo u)) (ur_echo u) fds \<Longrightarrow>
   granted_env env \<Longrightarrow> length (ur_sq u) + 2 * length fds \<le> QUEUE_DEPTH \<Longrightarrow> \<exists>u'. ev_read_done env ev fds u = Inr u'"
proof (induction fds arbitrary: u tr)
  case Nil
  then show ?case by simp
next
  case (Cons fd fds)
  have q: "0 \<le> fd" "fd < max_fd (ur_echo u)" "conns (ur_echo u) fd = None" "fd \<notin> set fds" "queue_ok (max_fd (ur_echo u)) (ur_echo u) fds"
    using Cons.prems(3) by (auto simp: queue_ok_def)
  have t: "tables (ur_echo u)" using Cons.prems(1) by (simp add: net_ok_def)
  from take_conn_run(2)[OF t Cons.prems(2) q(3,1,2) Cons.prems(4)] Cons.prems(5) obtain u1 where u1: "take_conn env fd u = Inr u1" by auto
  from take_step[OF Cons.prems(1,2) q(3,1,2) u1] obtain op c where 1: "conn_req fd op" "ops F u1 = ops F u @ [op]"
    "net_ok n (ur_echo u1) (ops F u1) (tr @ [Accepted 0 fd]) st" "book F u1"
    "same_config (ur_echo u) (ur_echo u1)" "conns (ur_echo u1) = (conns (ur_echo u))(fd := Some c)"
    "length (ur_sq u1) = length (ur_sq u) + 1" by blast
  have m: "matches (Prep_Read ev Cause_Buf 8) \<lparr>ri_to_free = None, ri_fd = ev, ri_type = EV_READ\<rparr>" by simp
  from add_sqe_room[OF 1(4)] Cons.prems(4,5) 1(7) obtain u2 where
    u2: "add_sqe env (Prep_Read ev Cause_Buf 8) \<lparr>ri_to_free = None, ri_fd = ev, ri_type = EV_READ\<rparr> u1 = Inr u2"
    by (fastforce simp: granted_env_def)
  note 2 = add_sqe_run[OF 1(4) m u2]
  have n2: "net_ok n (ur_echo u2) (ops F u2) (tr @ [Accepted 0 fd]) st"
    using net_other_step[OF 1(3), of "Prep_Read ev Cause_Buf 8"] 2 by simp
  have q2: "queue_ok (max_fd (ur_echo u2)) (ur_echo u2) fds"
    using q(4,5) 1(5,6) 2 by (auto simp: queue_ok_def same_config_def)
  have "length (ur_sq u2) + 2 * length fds \<le> QUEUE_DEPTH" using Cons.prems(5) 1(7) 2 by simp
  then show ?case using Cons.IH[OF n2 _ q2 Cons.prems(4)] 2 u1 u2 by (auto simp: add_request_defs)
qed

text \<open>
  A new connection: counted, then kept or handed to the thread of its processor; the accept is armed
  again.
\<close>

definition counted :: "uring \<Rightarrow> uring" where
  "counted u = u\<lparr>ur_echo := (ur_echo u)\<lparr>accept_count := accept_count (ur_echo u) + 1\<rparr>\<rparr>"

abbreviation accept_info :: "int \<Rightarrow> req_info" where
  "accept_info l \<equiv> \<lparr>ri_to_free = None, ri_fd = l, ri_type = ACCEPT\<rparr>"

abbreviation note_info :: "int \<Rightarrow> nat \<Rightarrow> req_info" where
  "note_info fd p \<equiv> \<lparr>ri_to_free = Some (Heap_Buf p), ri_fd = fd, ri_type = EV_WRITE\<rparr>"

definition keep_conn :: "uring_env \<Rightarrow> int \<Rightarrow> int \<Rightarrow> uring \<Rightarrow> uring res" where
  "keep_conn env l res u = rbind (take_conn env res (counted u)) (add_sqe env (Prep_Accept l) (accept_info l))"

definition pass_conn :: "uring_env \<Rightarrow> int \<Rightarrow> nat \<Rightarrow> nat \<Rightarrow> uring \<Rightarrow> uring res" where
  "pass_conn env l cpu p u =
     rbind (add_sqe env (Prep_Write (ue_event_of env cpu) (Heap_Buf p) 8) (note_info (ue_event_of env cpu) p)
       ((counted u)\<lparr>ur_heap := p # ur_heap u\<rparr>)) (add_sqe env (Prep_Accept l) (accept_info l))"

lemma accept_done_cases:
  "accept_done env l res u q =
    (if \<not> ue_newbie env \<or> res < 0 then Inl (Exit 1)
     else case ue_cpu env res of
         None \<Rightarrow> Inl (Exit 1)
       | Some cpu \<Rightarrow>
           if cpu = index (ur_echo u) then rbind (keep_conn env l res u) (\<lambda>u3. Inr (u3, q))
           else case ue_cause env of None \<Rightarrow> Inl (Fault NullDeref)
              | Some p \<Rightarrow> rbind (pass_conn env l cpu p u) (\<lambda>u3. Inr (u3, q(cpu := res # q cpu))))"
  by (auto simp: accept_done_def Let_def counted_def keep_conn_def pass_conn_def add_request_defs rbind_def split: option.splits sum.splits)

lemma counted_keeps:
  assumes net: "net_ok n (ur_echo u) (ops F u) tr st" and bk: "book F u"
  shows "net_ok n (ur_echo (counted u)) (ops F (counted u)) tr st" "book F (counted u)" "ops F (counted u) = ops F u"
    "ur_heap (counted u) = ur_heap u" "ur_sq (counted u) = ur_sq u" "ur_infos (counted u) = ur_infos u"
    "conns (ur_echo (counted u)) = conns (ur_echo u)" "same_config (ur_echo u) (ur_echo (counted u))"
    "max_fd (ur_echo (counted u)) = max_fd (ur_echo u)"
proof -
  define a where "a = ur_echo (counted u)"
  have ax: "view a = view (ur_echo u)" "tables a = tables (ur_echo u)" "msg_size a = msg_size (ur_echo u)"
    using echo_wf_cong[of a "ur_echo u"] by (simp_all add: a_def counted_def tables_def)
  show o: "ops F (counted u) = ops F u" and "book F (counted u)" using bk by (simp_all add: counted_def)
  show "net_ok n (ur_echo (counted u)) (ops F (counted u)) tr st"
    using net ax sessions_cong[OF ax(1)] unfolding o by (simp add: net_ok_def a_def)
qed (simp_all add: counted_def same_config_def)

text \<open>What is promised of the state after an accept, and each way to get there.\<close>

definition accepted_ok :: "nat \<Rightarrow> sqe list \<Rightarrow> int \<Rightarrow> int \<Rightarrow> uring \<Rightarrow> net_event list \<Rightarrow> (int \<times> byte list) list \<Rightarrow> uring \<Rightarrow> bool" where
  "accepted_ok n F l res u tr st u' \<longleftrightarrow>
     net_ok n (ur_echo u') (ops F u') tr st \<and> book F u' \<and> same_config (ur_echo u) (ur_echo u') \<and>
     filter accept_req (ops F u') = filter accept_req (ops F u) @ [Prep_Accept l] \<and>
     (\<exists>hs. ur_heap u' = hs @ ur_heap u \<and> concat (map notes_of (ops F u')) = concat (map notes_of (ops F u)) @ hs) \<and>
     filter event_req (ops F u') = filter event_req (ops F u) \<and>
     (\<forall>x. x \<noteq> res \<longrightarrow> conns (ur_echo u') x = conns (ur_echo u) x)"

lemma keep_conn_step:
  assumes net: "net_ok n (ur_echo u) (ops F u) tr st" and bk: "book F u"
    and res: "0 \<le> res" "res < max_fd (ur_echo u)" "conns (ur_echo u) res = None" and run: "keep_conn env l res u = Inr u'"
  shows "accepted_ok n F l res u (tr @ [Accepted l res]) st u'"
proof -
  note k = counted_keeps[OF net bk]
  from run obtain u2 where u2: "take_conn env res (counted u) = Inr u2" "add_sqe env (Prep_Accept l) (accept_info l) u2 = Inr u'"
    by (auto simp: keep_conn_def rbind_eq_Inr_iff)
  have new: "conns (ur_echo (counted u)) res = None" "res < max_fd (ur_echo (counted u))" using res k by simp_all
  from take_step[OF k(1,2) new(1) res(1) new(2) u2(1), of l] obtain op c where 1: "conn_req res op"
    "ops F u2 = ops F (counted u) @ [op]" "net_ok n (ur_echo u2) (ops F u2) (tr @ [Accepted l res]) st" "book F u2"
    "ur_heap u2 = ur_heap (counted u)" "same_config (ur_echo (counted u)) (ur_echo u2)"
    "conns (ur_echo u2) = (conns (ur_echo (counted u)))(res := Some c)"
    by blast
  have m: "matches (Prep_Accept l) (accept_info l)" by simp
  note 2 = add_sqe_run[OF 1(4) m u2(2)]
  have "net_ok n (ur_echo u') (ops F u') (tr @ [Accepted l res]) st" using net_other_step[OF 1(3), of "Prep_Accept l"] 2 by simp
  moreover have "same_config (ur_echo u) (ur_echo u')" using same_config_trans[OF k(8)] 1(6) 2 by simp
  ultimately show ?thesis using 2 1(2,5,7) conn_req_kinds[OF 1(1)] k by (simp add: accepted_ok_def)
qed

lemma pass_conn_step:
  assumes net: "net_ok n (ur_echo u) (ops F u) tr st" and bk: "book F u" and run: "pass_conn env l cpu p u = Inr u'"
  shows "accepted_ok n F l res u tr st u'"
proof -
  let ?w = "Prep_Write (ue_event_of env cpu) (Heap_Buf p) 8" and ?wi = "note_info (ue_event_of env cpu) p"
  note k = counted_keeps[OF net bk]
  from run obtain u2 where u2: "add_sqe env ?w ?wi ((counted u)\<lparr>ur_heap := p # ur_heap u\<rparr>) = Inr u2"
    "add_sqe env (Prep_Accept l) (accept_info l) u2 = Inr u'"
    by (auto simp: pass_conn_def rbind_eq_Inr_iff)
  have b: "book F ((counted u)\<lparr>ur_heap := p # ur_heap u\<rparr>)" using k(2) by simp
  have m: "matches ?w ?wi" "matches (Prep_Accept l) (accept_info l)" by simp_all
  note 1 = add_sqe_run[OF b m(1) u2(1)]
  note 2 = add_sqe_run[OF conjunct1[OF 1] m(2) u2(2)]
  have "net_ok n (ur_echo u2) (ops F u2) tr st" using net_other_step[OF k(1), of ?w] 1 by simp
  then have "net_ok n (ur_echo u') (ops F u') tr st" using net_other_step[of n _ _ tr st "Prep_Accept l"] 2 by simp
  then show ?thesis using 1 2 k by (simp add: accepted_ok_def)
qed

lemma accept_step:
  assumes net: "net_ok n (ur_echo u) (ops F u) tr st" and bk: "book F u"
    and res: "0 \<le> res \<longrightarrow> res < max_fd (ur_echo u) \<and> conns (ur_echo u) res = None"
    and run: "accept_done env l res u q = Inr (u', q')"
  shows "accepted_ok n F l res u
      (tr @ (if 0 \<le> res \<and> ue_cpu env res = Some (index (ur_echo u)) then [Accepted l res] else [])) st u' \<and>
    0 \<le> res \<and> q' (index (ur_echo u)) = q (index (ur_echo u))"
proof -
  obtain cpu where r: "0 \<le> res" "ue_cpu env res = Some cpu" using run by (auto simp: accept_done_cases split: if_splits option.splits)
  show ?thesis
  proof (cases "cpu = index (ur_echo u)")
    case True
    then have "keep_conn env l res u = Inr u'" "q' = q"
      using run r by (auto simp: accept_done_cases rbind_eq_Inr_iff split: if_splits)
    then show ?thesis using keep_conn_step[OF net bk r(1)] res r True by simp
  next
    case False
    then obtain p where "pass_conn env l cpu p u = Inr u'" "q' = q(cpu := res # q cpu)"
      using run r by (auto simp: accept_done_cases rbind_eq_Inr_iff split: if_splits option.splits)
    then show ?thesis using pass_conn_step[OF net bk] r False by simp
  qed
qed

text \<open>With memory and room an accept does not fault.\<close>

lemma keep_conn_room:
  assumes net: "net_ok n (ur_echo u) (ops F u) tr st" and bk: "book F u"
    and res: "0 \<le> res" "res < max_fd (ur_echo u)" "conns (ur_echo u) res = None"
    and g: "granted_env env" "length (ur_sq u) + 2 \<le> QUEUE_DEPTH"
  shows "\<exists>u'. keep_conn env l res u = Inr u'"
proof -
  note k = counted_keeps[OF net bk]
  have gi: "ue_info_calloc env i" for i using g(1) by (simp add: granted_env_def)
  have new: "conns (ur_echo (counted u)) res = None" "res < max_fd (ur_echo (counted u))" using res k by simp_all
  have t: "tables (ur_echo (counted u))" using k(1) by (simp add: net_ok_def)
  from take_conn_run(2)[OF t k(2) new(1) res(1) new(2) g(1)] g(2) k(5) obtain u2 where
    u2: "take_conn env res (counted u) = Inr u2" by auto
  from take_step[OF k(1,2) new(1) res(1) new(2) u2] k(5) have b2: "book F u2" "length (ur_sq u2) = length (ur_sq u) + 1" by auto
  from add_sqe_room[OF b2(1) gi, of "Prep_Accept l" "accept_info l"] b2(2) g(2) show ?thesis
    using u2 by (auto simp: keep_conn_def)
qed

lemma pass_conn_room:
  assumes net: "net_ok n (ur_echo u) (ops F u) tr st" and bk: "book F u"
    and g: "granted_env env" "length (ur_sq u) + 2 \<le> QUEUE_DEPTH"
  shows "\<exists>u'. pass_conn env l cpu p u = Inr u'"
proof -
  let ?u = "(counted u)\<lparr>ur_heap := p # ur_heap u\<rparr>" and ?w = "Prep_Write (ue_event_of env cpu) (Heap_Buf p) 8"
    and ?wi = "note_info (ue_event_of env cpu) p"
  note k = counted_keeps[OF net bk]
  have gi: "ue_info_calloc env i" for i using g(1) by (simp add: granted_env_def)
  have bu: "book F ?u" "length (ur_sq ?u) < QUEUE_DEPTH" using k(2,5) g(2) by simp_all
  from add_sqe_room[OF bu(1) gi bu(2)] obtain u2 where u2: "add_sqe env ?w ?wi ?u = Inr u2" by blast
  have m: "matches ?w ?wi" by simp
  from add_sqe_run[OF bu(1) m u2] k(5) have b2: "book F u2" "length (ur_sq u2) = length (ur_sq u) + 1" by auto
  from add_sqe_room[OF b2(1) gi, of "Prep_Accept l" "accept_info l"] b2(2) g(2) show ?thesis
    using u2 by (auto simp: pass_conn_def)
qed

lemma accept_room:
  assumes net: "net_ok n (ur_echo u) (ops F u) tr st" and bk: "book F u"
    and res: "0 \<le> res \<longrightarrow> res < max_fd (ur_echo u) \<and> conns (ur_echo u) res = None"
    and g: "granted_env env" "length (ur_sq u) + 2 \<le> QUEUE_DEPTH"
  shows "accept_done env l res u q = Inl (Exit 1) \<or> (\<exists>y. accept_done env l res u q = Inr y)"
proof (cases "0 \<le> res \<and> ue_cpu env res \<noteq> None")
  case False
  then show ?thesis by (auto simp: accept_done_cases)
next
  case True
  then obtain cpu where r: "0 \<le> res" "ue_cpu env res = Some cpu" by auto
  obtain p where p: "ue_cause env = Some p" "ue_newbie env" using g(1) by (auto simp: granted_env_def)
  obtain u1 u2 where "keep_conn env l res u = Inr u1" "pass_conn env l cpu p u = Inr u2"
    using keep_conn_room[OF net bk _ _ _ g] pass_conn_room[OF net bk g] res r(1) by blast
  then show ?thesis using r p by (simp add: accept_done_cases)
qed

text \<open>One completion of a request \<open>x\<close> of the ring, from the state where its record has been given back.\<close>

lemma matches_info:
  assumes "matches op info"
  shows "op = Prep_Accept l' \<Longrightarrow> ri_type info = ACCEPT"
    "op = Prep_Read fd (Msg_Buf p off) len \<Longrightarrow> ri_type info = SOCK_READ \<and> ri_fd info = fd"
    "op = Prep_Read fd Cause_Buf len \<Longrightarrow> ri_type info = EV_READ"
    "op = Prep_Write fd (Msg_Buf p off) len \<Longrightarrow> ri_type info = SOCK_WRITE \<and> ri_fd info = fd"
    "op = Prep_Write fd (Heap_Buf h) len \<Longrightarrow> ri_type info = EV_WRITE \<and> ri_to_free info = Some (Heap_Buf h)"
  using assms by auto

text \<open>The state a completion starts from, and what every handler keeps of the ring.\<close>

definition open_ring :: "int \<Rightarrow> int \<Rightarrow> nat \<Rightarrow> sqe_op list \<Rightarrow> sqe_op \<Rightarrow> sqe_op list \<Rightarrow> sqe list \<Rightarrow> uring \<Rightarrow> incoming \<Rightarrow> ring \<Rightarrow> bool" where
  "open_ring l mx n R1 op R2 F u q r \<longleftrightarrow>
     net_ok n (ur_echo u) (R1 @ op # R2) (rg_trace r) (rg_sent r) \<and> book F u \<and> ops F u = R1 @ R2 \<and> max_fd (ur_echo u) = mx \<and>
     filter accept_req (R1 @ op # R2) = [Prep_Accept l] \<and> mset (ur_heap u) = mset (concat (map notes_of (R1 @ op # R2))) \<and>
     queue_ok mx (ur_echo u) (q (index (ur_echo u))) \<and>
     length (q (index (ur_echo u))) \<le> rg_told r + rg_count r \<and>
     1 + rg_told r + rg_count r \<le> length (filter event_req (R1 @ op # R2)) + length (q (index (ur_echo u)))"

lemma queue_ok_conns:
  "queue_ok mx a L \<Longrightarrow> (\<And>x. x \<in> set L \<Longrightarrow> conns a' x = conns a x) \<Longrightarrow> queue_ok mx a' L"
  by (simp add: queue_ok_def)

lemma ring_invI:
  assumes "same_config a (ur_echo u')" "max_fd a = mx" "book F u'" "net_ok n (ur_echo u') (ops F u') tr st"
    "filter accept_req (ops F u') = [Prep_Accept l]" "mset (ur_heap u') = mset (concat (map notes_of (ops F u')))"
    "queue_ok mx (ur_echo u') (q' (index a))" "length (q' (index a)) \<le> told + k'"
    "1 + told + k' \<le> length (filter event_req (ops F u')) + length (q' (index a))"
  shows "ring_inv l mx n \<lparr>rg_u = u', rg_q = q', rg_flying = F, rg_told = told, rg_count = k', rg_trace = tr, rg_sent = st\<rparr>"
  using assms by (simp add: ring_inv_def same_config_def)

lemma conn_step_inv:
  assumes o: "open_ring l mx n R1 op R2 F u q r" and op: "conn_req fd op"
    and u': "net_ok n (ur_echo u') (ops F u') (rg_trace r @ evs) (rg_sent r @ ws)" "book F u'" "ur_heap u' = ur_heap u"
      "same_config (ur_echo u) (ur_echo u')" "\<forall>x. conns (ur_echo u) x = None \<longrightarrow> conns (ur_echo u') x = None"
    and new: "ops F u' = (R1 @ R2) @ new" "\<forall>o' \<in> set new. conn_req fd o'"
  shows "ring_inv l mx n \<lparr>rg_u = u', rg_q = q, rg_flying = F, rg_told = rg_told r, rg_count = rg_count r,
     rg_trace = rg_trace r @ evs, rg_sent = rg_sent r @ ws\<rparr>"
proof -
  note k = conn_req_kinds[OF op]
  have kn: "filter accept_req new = []" "filter event_req new = []" "concat (map notes_of new) = []"
    using new(2) conn_req_kinds by (auto simp: filter_empty_conv)
  have q: "queue_ok mx (ur_echo u') (q (index (ur_echo u)))" using o u'(5) by (auto simp: open_ring_def queue_ok_def)
  show ?thesis
    by (rule ring_invI[OF u'(4) _ u'(2,1)]) (use o k kn u'(3) q new(1) in \<open>simp_all add: open_ring_def\<close>)
qed

abbreviation next_ring :: "ring \<Rightarrow> sqe list \<Rightarrow> uring \<Rightarrow> incoming \<Rightarrow> nat \<Rightarrow> net_event list \<Rightarrow> (int \<times> byte list) list \<Rightarrow> ring" where
  "next_ring r F u' q' k' evs ws \<equiv> \<lparr>rg_u = u', rg_q = q', rg_flying = F, rg_told = rg_told r, rg_count = k',
     rg_trace = rg_trace r @ evs, rg_sent = rg_sent r @ ws\<rparr>"

lemma open_ringD:
  assumes "open_ring l mx n R1 op R2 F u q r"
  shows "net_ok n (ur_echo u) (R1 @ op # R2) (rg_trace r) (rg_sent r)" "book F u" "ops F u = R1 @ R2" "max_fd (ur_echo u) = mx"
    "filter accept_req (R1 @ op # R2) = [Prep_Accept l]" "mset (ur_heap u) = mset (concat (map notes_of (R1 @ op # R2)))"
    "queue_ok mx (ur_echo u) (q (index (ur_echo u)))" "length (q (index (ur_echo u))) \<le> rg_told r + rg_count r"
    "1 + rg_told r + rg_count r \<le> length (filter event_req (R1 @ op # R2)) + length (q (index (ur_echo u)))"
  using assms by (simp_all add: open_ring_def)

lemma complete_accept:
  assumes o: "open_ring l mx n R1 op R2 F u q r" and op: "op = Prep_Accept l'"
    and kd: "kernel_does mx env (ur_echo u) (q (index (ur_echo u))) (rg_count r) op res a' k' evs ws"
    and run: "accept_done env l res (u\<lparr>ur_echo := a'\<rparr>) q = Inr (u', q')"
  shows "ring_inv l mx n (next_ring r F u' q' k' evs ws)"
proof -
  let ?a = "ur_echo u" and ?L = "q (index (ur_echo u))"
  note i = open_ringD[OF o]
  have "filter accept_req R1 @ Prep_Accept l' # filter accept_req R2 = [Prep_Accept l]" using i(5) op by simp
  then have l': "l' = l" "filter accept_req (R1 @ R2) = []" by (cases "filter accept_req R1"; auto)+
  have kd': "a' = ?a" "k' = rg_count r" "ws = []" "0 \<le> res \<longrightarrow> res < mx \<and> conns ?a res = None \<and> res \<notin> set ?L"
    "evs = (if 0 \<le> res \<and> ue_cpu env res = Some (index ?a) then [Accepted l res] else [])"
    using kd op l' by auto
  have run': "accept_done env l res u q = Inr (u', q')" using run kd'(1) by simp
  have net: "net_ok n ?a (ops F u) (rg_trace r) (rg_sent r)" using net_drop_step[OF i(1)] op i(3) by simp
  have "0 \<le> res \<longrightarrow> res < max_fd ?a \<and> conns ?a res = None" using kd'(4) i(4) by simp
  note acc = accept_step[OF net i(2) this run', folded kd'(5)]
  then have as: "accepted_ok n F l res u (rg_trace r @ evs) (rg_sent r) u'" "q' (index ?a) = q (index ?a)" and r0: "0 \<le> res" by simp_all
  note as = as(1)[unfolded accepted_ok_def] as(2)
  obtain hs where hs: "ur_heap u' = hs @ ur_heap u"
    "concat (map notes_of (ops F u')) = concat (map notes_of (ops F u)) @ hs" using as(1) by blast
  have "conns (ur_echo u') x = conns ?a x" if "x \<in> set ?L" for x
  proof -
    have "x \<noteq> res" using kd'(4) r0 that by blast
    then show ?thesis using as by blast
  qed
  then have q: "queue_ok mx (ur_echo u') (q' (index ?a))" using queue_ok_conns[OF i(7)] as by simp
  show ?thesis
    by (rule ring_invI[of ?a]) (use as i kd' l' op hs q in simp_all)
qed

lemma complete_hangup:
  assumes o: "open_ring l mx n R1 op R2 F u q r" and cr: "conn_req fd op"
    and c: "conns (ur_echo u) fd = Some c" and run: "on_close_u (Some c) u = Inr u'"
  shows "ring_inv l mx n (next_ring r F u' q (rg_count r) [Hangup fd] [])"
proof -
  note i = open_ringD[OF o]
  note h = hangup_step[OF i(1) cr c run]
  have "ops F u' = (R1 @ R2) @ []" "book F u'" using h i(2,3) by (simp_all add: ops_def book_def)
  then show ?thesis using h by (intro conn_step_inv[OF o cr, where new = "[]"]) auto
qed

lemma complete_read:
  assumes o: "open_ring l mx n R1 op R2 F u q r" and op: "op = Prep_Read fd (Msg_Buf p off) len"
    and kd: "kernel_does mx env (ur_echo u) (q (index (ur_echo u))) (rg_count r) op res a' k' evs ws"
    and run: "sock_read_done env fd res (u\<lparr>ur_echo := a'\<rparr>) = Inr u'"
  shows "ring_inv l mx n (next_ring r F u' q k' evs ws)"
proof -
  note i = open_ringD[OF o]
  have cr: "conn_req fd op" by (simp add: op)
  obtain c b where c: "conns (ur_echo u) fd = Some c" "conn_slot (ur_echo u) fd = Inr (Some c)"
    by (rule net_conn[OF i(1) cr]) blast
  from kd op have kd': "k' = rg_count r" "ws = []" by simp_all
  from kd op consider (hup) "res \<le> 0" "a' = ur_echo u" "evs = [Hangup fd]"
    | (got) bs where "bs \<noteq> []" "length bs \<le> len" "res = int (length bs)" "store_msg p off bs (ur_echo u) = Inr a'" "evs = [Got fd bs]"
    by auto
  then show ?thesis
  proof cases
    case hup
    have "on_close_u (Some c) u = Inr u'" using run hup c(2) by (auto simp: sock_read_done_def Let_def)
    then show ?thesis unfolding kd' hup(3) by (rule complete_hangup[OF o cr c(1)])
  next
    case got
    note h = read_step(1)[OF i(1)[unfolded op] i(2,3) got(1,2,4) run[unfolded got(3)]]
    then obtain o' where o': "conn_req fd o'" "ops F u' = (R1 @ R2) @ [o']"
      "net_ok n (ur_echo u') (ops F u') (rg_trace r @ [Got fd bs]) (rg_sent r)" by blast
    show ?thesis unfolding kd' got(5) using h o' by (intro conn_step_inv[OF o cr, where new = "[o']"]) auto
  qed
qed

lemma complete_write:
  assumes o: "open_ring l mx n R1 op R2 F u q r" and op: "op = Prep_Write fd (Msg_Buf p off) len"
    and kd: "kernel_does mx env (ur_echo u) (q (index (ur_echo u))) (rg_count r) op res a' k' evs ws"
    and run: "sock_write_done env fd res (u\<lparr>ur_echo := a'\<rparr>) = Inr u'"
  shows "ring_inv l mx n (next_ring r F u' q k' evs ws)"
proof -
  note i = open_ringD[OF o]
  have cr: "conn_req fd op" by (simp add: op)
  obtain c b where c: "conns (ur_echo u) fd = Some c" "conn_slot (ur_echo u) fd = Inr (Some c)"
    by (rule net_conn[OF i(1) cr]) blast
  from kd op have kd': "k' = rg_count r" "a' = ur_echo u" by simp_all
  have run': "sock_write_done env fd res u = Inr u'" using run kd'(2) by simp
  from kd op consider (hup) "res \<le> 0" "ws = []" "evs = [Hangup fd]"
    | (sent) b where "0 < res" "res \<le> int len" "evs = [Sent fd (nat res)]" "p = Some b"
        "ws = [(fd, take (nat res) (drop off (msg (ur_echo u) b)))]" by auto
  then show ?thesis
  proof cases
    case hup
    have "on_close_u (Some c) u = Inr u'" using run' hup c(2) by (auto simp: sock_write_done_def Let_def)
    then show ?thesis unfolding kd' hup(2,3) by (rule complete_hangup[OF o cr c(1)])
  next
    case sent
    note h = write_step(1)[OF i(1)[unfolded op sent(4)] i(2,3) sent(1,2) run']
    then obtain o' where o': "conn_req fd o'" "ops F u' = (R1 @ R2) @ [o']"
      "net_ok n (ur_echo u') (ops F u') (rg_trace r @ evs) (rg_sent r @ ws)" unfolding sent(3,5) by blast
    show ?thesis unfolding kd' using h o' by (intro conn_step_inv[OF o cr, where new = "[o']"]) auto
  qed
qed

lemma complete_event:
  assumes o: "open_ring l mx n R1 op R2 F u q r" and op: "op = Prep_Read fd Cause_Buf len"
    and kd: "kernel_does mx env (ur_echo u) (q (index (ur_echo u))) (rg_count r) op res a' k' evs ws"
    and run: "ev_read_done env ev (q (index a')) (u\<lparr>ur_echo := a'\<rparr>) = Inr u'"
  shows "ring_inv l mx n (next_ring r F u' (q(index a' := [])) k' evs ws)"
proof -
  let ?a = "ur_echo u" and ?L = "q (index (ur_echo u))"
  note i = open_ringD[OF o]
  from kd op have kd': "0 < rg_count r" "k' = 0" "a' = ?a" "ws = []" "evs = map (Accepted fd) ?L" by simp_all
  have s: "ev_read_done env ev ?L u = Inr u'" using run kd'(3) by simp
  have net: "net_ok n ?a (ops F u) (rg_trace r) (rg_sent r)" using net_drop_step[OF i(1)] op i(3) by simp
  note h = ev_read_step[OF net i(2) i(7)[folded i(4)] s, of fd]
  have "length (filter event_req (R1 @ op # R2)) = length (filter event_req (ops F u)) + 1" using op i(3) by simp
  then have arm: "1 + rg_told r + k' \<le> length (filter event_req (ops F u')) + length ((q(index ?a := [])) (index ?a))"
    using h i(9) kd'(1,2) by simp
  show ?thesis unfolding kd'(3)
    by (rule ring_invI[of ?a]) (use h i kd' op arm in \<open>simp_all add: queue_ok_def\<close>)
qed

lemma complete_note:
  assumes o: "open_ring l mx n R1 op R2 F u q r" and op: "op = Prep_Write fd (Heap_Buf h) len"
    and kd: "kernel_does mx env (ur_echo u) (q (index (ur_echo u))) (rg_count r) op res a' k' evs ws"
    and run: "ev_write_done (Some (Heap_Buf h)) (u\<lparr>ur_echo := a'\<rparr>) = Inr u'"
  shows "ring_inv l mx n (next_ring r F u' q k' evs ws)"
proof -
  note i = open_ringD[OF o]
  from kd op have kd': "k' = rg_count r" "a' = ur_echo u" "ws = []" "evs = []" by simp_all
  have u': "u' = u\<lparr>ur_heap := remove1 h (ur_heap u)\<rparr>" using run kd'(2) by (auto simp: ev_write_done_def split: if_splits)
  have net: "net_ok n (ur_echo u) (ops F u) (rg_trace r) (rg_sent r)" using net_drop_step[OF i(1)] op i(3) by simp
  show ?thesis
    by (rule ring_invI[of "ur_echo u"]) (use i op kd' u' net in simp_all)
qed

lemma complete_step:
  assumes o: "open_ring l mx n R1 op R2 F u q r" and mt: "matches op info"
    and kd: "kernel_does mx env (ur_echo u) (q (index (ur_echo u))) (rg_count r) op res a' k' evs ws"
    and ua: "ua = u\<lparr>ur_echo := a'\<rparr>" and ran: "(case ri_type info of
        ACCEPT \<Rightarrow> accept_done env l res ua q
      | SOCK_READ \<Rightarrow> rbind (sock_read_done env (ri_fd info) res ua) (\<lambda>u2. Inr (u2, q))
      | EV_READ \<Rightarrow> rbind (ev_read_done env ev (q (index a')) ua) (\<lambda>u2. Inr (u2, q(index a' := [])))
      | SOCK_WRITE \<Rightarrow> rbind (sock_write_done env (ri_fd info) res ua) (\<lambda>u2. Inr (u2, q))
      | EV_WRITE \<Rightarrow> rbind (ev_write_done (ri_to_free info) ua) (\<lambda>u2. Inr (u2, q))) = Inr (u', q')"
  shows "ring_inv l mx n (next_ring r F u' q' k' evs ws)"
proof -
  note run = ran[unfolded ua]
  from mt show ?thesis
  proof (cases rule: matches_kinds)
    case (acc l')
    then show ?thesis using complete_accept[OF o acc kd] run matches_info(1)[OF mt acc] by simp
  next
    case (rd fd p off len)
    then show ?thesis using complete_read[OF o rd kd] run matches_info(2)[OF mt rd] by (auto simp: rbind_eq_Inr_iff)
  next
    case (ev fd len)
    then show ?thesis using complete_event[OF o ev kd] run matches_info(3)[OF mt ev] by (auto simp: rbind_eq_Inr_iff)
  next
    case (wr fd p off len)
    then show ?thesis using complete_write[OF o wr kd] run matches_info(4)[OF mt wr] by (auto simp: rbind_eq_Inr_iff)
  next
    case (nt fd h len)
    then show ?thesis using complete_note[OF o nt kd] run matches_info(5)[OF mt nt] by (auto simp: rbind_eq_Inr_iff)
  qed
qed

lemma ring_step_inv:
  assumes inv: "ring_inv l mx n r" and st: "ring_step l ev mx r t"
  shows "ring_inv l mx n t"
  using st
proof cases
  case ring_submit
  have "ops (rg_flying r @ ur_sq (rg_u r)) ((rg_u r)\<lparr>ur_sq := []\<rparr>) = ops (rg_flying r) (rg_u r)"
    "book (rg_flying r @ ur_sq (rg_u r)) ((rg_u r)\<lparr>ur_sq := []\<rparr>) = book (rg_flying r) (rg_u r)"
    by (simp_all add: ops_def book_def)
  then show ?thesis using inv by (simp add: ring_submit ring_inv_def Let_def)
next
  case (ring_push i fd)
  then show ?thesis using inv by (auto simp: ring_inv_def Let_def queue_ok_def)
next
  case ring_land
  then show ?thesis using inv by (auto simp: ring_inv_def Let_def)
next
  case (ring_complete x env res a' k' evs ws u' q')
  let ?u = "rg_u r" and ?q = "rg_q r"
  obtain F1 F2 where F: "rg_flying r = F1 @ x # F2" "x \<notin> set F1" using split_list_first[OF ring_complete(2)] by blast
  then have rm: "remove1 x (rg_flying r) = F1 @ F2" by (simp add: remove1_append)
  have i: "book (F1 @ x # F2) ?u" using inv F(1) by (simp add: ring_inv_def Let_def)
  from book_done[OF i] obtain c where c: "cache_free (ur_infos ?u) (Some (sq_data x)) = Inr c"
    "book (F1 @ F2) (?u\<lparr>ur_infos := c\<rparr>)" "matches (sq_op x) (payload (ur_infos ?u) (sq_data x))" by blast
  let ?uc = "?u\<lparr>ur_infos := c\<rparr>"
  have eq: "(?u\<lparr>ur_echo := a'\<rparr>)\<lparr>ur_infos := c\<rparr> = ?uc\<lparr>ur_echo := a'\<rparr>" by simp
  have "(case ri_type (payload (ur_infos ?u) (sq_data x)) of
        ACCEPT \<Rightarrow> accept_done env l res ((?u\<lparr>ur_echo := a'\<rparr>)\<lparr>ur_infos := c\<rparr>) ?q
      | SOCK_READ \<Rightarrow> rbind (sock_read_done env (ri_fd (payload (ur_infos ?u) (sq_data x))) res ((?u\<lparr>ur_echo := a'\<rparr>)\<lparr>ur_infos := c\<rparr>))
                       (\<lambda>u2. Inr (u2, ?q))
      | EV_READ \<Rightarrow> rbind (ev_read_done env ev (?q (index a')) ((?u\<lparr>ur_echo := a'\<rparr>)\<lparr>ur_infos := c\<rparr>))
                     (\<lambda>u2. Inr (u2, ?q(index a' := [])))
      | SOCK_WRITE \<Rightarrow> rbind (sock_write_done env (ri_fd (payload (ur_infos ?u) (sq_data x))) res ((?u\<lparr>ur_echo := a'\<rparr>)\<lparr>ur_infos := c\<rparr>))
                        (\<lambda>u2. Inr (u2, ?q))
      | EV_WRITE \<Rightarrow> rbind (ev_write_done (ri_to_free (payload (ur_infos ?u) (sq_data x))) ((?u\<lparr>ur_echo := a'\<rparr>)\<lparr>ur_infos := c\<rparr>))
                      (\<lambda>u2. Inr (u2, ?q))) = Inr (u', q')"
    using ring_complete(4) c(1) by (simp add: handle_cqe_def Let_def cong: io_types.case_cong)
  note run = this
  have o: "open_ring l mx n (map sq_op F1) (sq_op x) (map sq_op (F2 @ ur_sq ?u)) (F1 @ F2) ?uc ?q r"
    using inv c(2) F(1) by (simp add: open_ring_def ring_inv_def Let_def ops_def)
  have kd: "kernel_does mx env (ur_echo ?uc) (?q (index (ur_echo ?uc))) (rg_count r) (sq_op x) res a' k' evs ws"
    using ring_complete(3) by simp
  show ?thesis unfolding ring_complete(1) rm
    by (rule complete_step[OF o c(3) kd eq run])
qed

interpretation ring: step_system "ring_init l mx n" "ring_step l ev mx" "ring_inv l mx n" for l ev mx n
  by unfold_locales (rule ring_init_inv ring_step_inv; assumption)+

end
