(* ===== verification/Uring_Service.thy ===== *)
theory Uring_Service
  imports Uring_System
begin

text \<open>
  What the io_uring server promises in every state it can reach from its set-up, and the size of the
  submission queue it needs for that.
\<close>

section \<open>The set-up\<close>

definition fresh_ring :: "uring \<Rightarrow> incoming \<Rightarrow> ring" where
  "fresh_ring u q = \<lparr>rg_u = u, rg_q = q, rg_flying = [], rg_told = 0, rg_count = 0, rg_trace = [], rg_sent = []\<rparr>"

lemma first_requests:
  assumes a: "tables a" "max_fd a = mx" "msg_size a = n" "\<forall>fd. conns a fd = None" and ic: "cache_ok ic"
    and r: "add_accept_request env l \<lparr>ur_echo = a, ur_infos = ic, ur_sq = [], ur_heap = []\<rparr> = Inr u1"
      "add_read_request env ev Cause_Buf 8 EV_READ u1 = Inr u2" and q: "q (index a) = []"
  shows "ring_init l mx n (fresh_ring u2 q)"
proof -
  let ?u = "\<lparr>ur_echo = a, ur_infos = ic, ur_sq = [], ur_heap = []\<rparr>"
  have "book [] ?u" "ops [] ?u = []" using ic by (simp_all add: book_def infos_ok_def ops_def)
  note b = this
  have m: "matches (Prep_Accept l) \<lparr>ri_to_free = None, ri_fd = l, ri_type = ACCEPT\<rparr>"
    "matches (Prep_Read ev Cause_Buf 8) \<lparr>ri_to_free = None, ri_fd = ev, ri_type = EV_READ\<rparr>" by simp_all
  note 1 = add_sqe_run[OF b(1) m(1) r(1)[unfolded add_request_defs]]
  note 2 = add_sqe_run[OF conjunct1[OF 1] m(2) r(2)[unfolded add_request_defs]]
  show ?thesis using 1 2 a q b(2) by (simp add: ring_init_def fresh_ring_def)
qed

lemma uring_setup_init:
  assumes s: "uring_setup su env mx sz at nr i = Inr (u, io)" and sz: "0 < sz" "sz < 2 ^ 64" and q: "q i = []"
  shows "ring_init (io_listen io) mx sz (fresh_ring u q)"
proof -
  from s obtain mc ic cc l p u1 where c: "init_cache_or_exit (su_msg_header su) (su_msg_entry su) (replicate sz 0) 1024 = Inr mc"
    "init_cache_or_exit (us_info_header su) (us_info_entry su) zero_info 2048 = Inr ic"
    "init_cache_or_exit (su_conn_header su) (su_conn_entry su) zero_connection 1024 = Inr cc"
    "add_accept_request env l \<lparr>ur_echo = fresh_echo mx sz at i cc mc, ur_infos = ic, ur_sq = [], ur_heap = []\<rparr> = Inr u1"
    "add_read_request env (us_eventfd su) Cause_Buf 8 EV_READ u1 = Inr u" "io = \<lparr>io_listen = l, io_perf = p\<rparr>"
    by (auto simp: uring_setup_def rbind_eq_Inr_iff split: if_splits)
  let ?a = "fresh_echo mx sz at i cc mc"
  have w: "echo_wf ?a \<and> buffered ?a"
    using fresh_echo_wf init_cache_or_exit_Inr[OF c(1)] init_cache_or_exit_Inr[OF c(3)] by blast
  then have "tables ?a" using sz by (simp add: tables_def fresh_echo_def)
  from first_requests[OF this _ _ _ _ c(4,5)] init_cache_or_exit_Inr[OF c(2)] q show ?thesis
    by (simp add: c(6) fresh_echo_def)
qed

section \<open>Completions do not fault\<close>

text \<open>The completion of a read and of a write on a connection, with room for one request more.\<close>

lemma read_completes:
  assumes net: "net_ok n (ur_echo u) (R1 @ Prep_Read fd (Msg_Buf p off) len # R2) tr st"
    and bk: "book F u" "ops F u = R1 @ R2"
    and kd: "kernel_does mx env (ur_echo u) L c (Prep_Read fd (Msg_Buf p off) len) res a' k' evs ws"
    and room: "ue_info_calloc env (brk (ur_infos u))" "length (ur_sq u) < QUEUE_DEPTH"
  shows "\<exists>u'. sock_read_done env fd res (u\<lparr>ur_echo := a'\<rparr>) = Inr u'"
proof (cases "res \<le> 0")
  case True
  have cr: "conn_req fd (Prep_Read fd (Msg_Buf p off) len)" by simp
  obtain c where c: "conns (ur_echo u) fd = Some c" "conn_slot (ur_echo u) fd = Inr (Some c)" by (rule net_conn[OF net cr]) blast
  have "tables (ur_echo u)" using net by (simp add: net_ok_def)
  from on_close_u_run[OF this c(1)] obtain u' where "on_close_u (Some c) u = Inr u'" by auto
  then show ?thesis using True kd c(2) by (auto simp: sock_read_done_def Let_def)
next
  case False
  then obtain bs where "bs \<noteq> []" "length bs \<le> len" "res = int (length bs)" "store_msg p off bs (ur_echo u) = Inr a'"
    using kd by auto
  then show ?thesis using read_step(2)[OF net bk _ _ _ room] by blast
qed

lemma write_completes:
  assumes net: "net_ok n (ur_echo u) (R1 @ Prep_Write fd (Msg_Buf p off) len # R2) tr st"
    and bk: "book F u" "ops F u = R1 @ R2"
    and kd: "kernel_does mx env (ur_echo u) L c (Prep_Write fd (Msg_Buf p off) len) res a' k' evs ws"
    and room: "ue_info_calloc env (brk (ur_infos u))" "length (ur_sq u) < QUEUE_DEPTH"
  shows "a' = ur_echo u" "\<exists>u'. sock_write_done env fd res u = Inr u'"
proof -
  show "a' = ur_echo u" using kd by simp
  show "\<exists>u'. sock_write_done env fd res u = Inr u'"
  proof (cases "res \<le> 0")
    case True
    have cr: "conn_req fd (Prep_Write fd (Msg_Buf p off) len)" by simp
    obtain c where c: "conns (ur_echo u) fd = Some c" "conn_slot (ur_echo u) fd = Inr (Some c)" by (rule net_conn[OF net cr]) blast
    have "tables (ur_echo u)" using net by (simp add: net_ok_def)
    from on_close_u_run[OF this c(1)] obtain u' where "on_close_u (Some c) u = Inr u'" by auto
    then show ?thesis using True c(2) by (auto simp: sock_write_done_def Let_def)
  next
    case False
    then obtain b where b: "p = Some b" "0 < res" "res \<le> int len" using kd by auto
    show ?thesis by (rule write_step(2)[OF net[unfolded b(1)] bk b(2,3) room])
  qed
qed

lemma complete_safe:
  assumes o: "open_ring l mx n R1 op R2 F u q r" and mt: "matches op info"
    and kd: "kernel_does mx env (ur_echo u) (q (index (ur_echo u))) (rg_count r) op res a' k' evs ws"
    and g: "granted_env env" and room: "length (ur_sq u) + 2 + 2 * length (q (index (ur_echo u))) \<le> QUEUE_DEPTH"
    and ua: "ua = u\<lparr>ur_echo := a'\<rparr>"
  shows "no_fault (case ri_type info of
        ACCEPT \<Rightarrow> accept_done env l res ua q
      | SOCK_READ \<Rightarrow> rbind (sock_read_done env (ri_fd info) res ua) (\<lambda>u2. Inr (u2, q))
      | EV_READ \<Rightarrow> rbind (ev_read_done env ev (q (index a')) ua) (\<lambda>u2. Inr (u2, q(index a' := [])))
      | SOCK_WRITE \<Rightarrow> rbind (sock_write_done env (ri_fd info) res ua) (\<lambda>u2. Inr (u2, q))
      | EV_WRITE \<Rightarrow> rbind (ev_write_done (ri_to_free info) ua) (\<lambda>u2. Inr (u2, q)))" (is "no_fault ?H")
proof -
  let ?a = "ur_echo u" and ?L = "q (index (ur_echo u))"
  have i: "net_ok n ?a (R1 @ op # R2) (rg_trace r) (rg_sent r)" "book F u" "ops F u = R1 @ R2" "max_fd ?a = mx"
    "mset (ur_heap u) = mset (concat (map notes_of (R1 @ op # R2)))" "queue_ok mx ?a ?L"
    using o by (simp_all add: open_ring_def)
  have gi: "ue_info_calloc env (brk (ur_infos u))" "length (ur_sq u) < QUEUE_DEPTH" "length (ur_sq u) + 2 \<le> QUEUE_DEPTH"
    "length (ur_sq u) + 2 * length ?L \<le> QUEUE_DEPTH"
    using g room by (simp_all add: granted_env_def)
  from mt have "?H = Inl (Exit 1) \<or> (\<exists>y. ?H = Inr y)"
  proof (cases rule: matches_kinds)
    case (acc l')
    have "net_ok n ?a (ops F u) (rg_trace r) (rg_sent r)" using net_drop_step[OF i(1)] acc i(3) by simp
    moreover have "0 \<le> res \<longrightarrow> res < max_fd ?a \<and> conns ?a res = None" "ua = u" using kd acc i(4) ua by auto
    ultimately show ?thesis using accept_room[OF _ i(2) _ g gi(3)] matches_info(1)[OF mt acc] by simp
  next
    case (rd fd p off len)
    then show ?thesis using read_completes[OF i(1)[unfolded rd] i(2,3) kd[unfolded rd] gi(1,2)]
      matches_info(2)[OF mt rd] ua by auto
  next
    case (ev fd len)
    have "net_ok n ?a (ops F u) (rg_trace r) (rg_sent r)" using net_drop_step[OF i(1)] ev i(3) by simp
    from ev_read_room[OF this i(2) i(6)[folded i(4)] g gi(4)] obtain u' where "ev_read_done env ev ?L u = Inr u'" by blast
    then show ?thesis using kd ev ua matches_info(3)[OF mt ev] by simp
  next
    case (wr fd p off len)
    then show ?thesis using write_completes[OF i(1)[unfolded wr] i(2,3) kd[unfolded wr] gi(1,2)]
      matches_info(4)[OF mt wr] ua by auto
  next
    case (nt fd h len)
    have "h \<in># mset (ur_heap u)" unfolding i(5) nt by simp
    then show ?thesis using matches_info(5)[OF mt nt] kd nt ua by (simp add: ev_write_done_def)
  qed
  then show ?thesis by auto
qed

text \<open>Without room the next request is a store through the null pointer of \<open>io_uring_get_sqe\<close>.\<close>

lemma add_sqe_full:
  assumes "QUEUE_DEPTH \<le> length (ur_sq u)" "cache_ok (ur_infos u)" "ue_info_calloc env (brk (ur_infos u))"
  shows "add_sqe env op info u = Inl (Fault NullDeref)"
proof -
  from cache_alloc_True[OF assms(2), of "index (ur_echo u)"] obtain p where
    "cache_alloc True (index (ur_echo u)) (ur_infos u) = Inr p" by blast
  then show ?thesis using assms(1,3) by (cases p) (simp add: add_sqe_def)
qed

section \<open>A run of the ring\<close>

text \<open>
  A ring with small caches: a connection is accepted, a message is read and written back, and another
  thread hands a connection over.
\<close>

definition ring_env :: uring_env where
  "ring_env = \<lparr>ue_conn_calloc = (\<lambda>_. True), ue_msg_calloc = (\<lambda>_. True), ue_info_calloc = (\<lambda>_. True), ue_newbie = True,
     ue_cause = Some 7, ue_cpu = (\<lambda>_. Some 0), ue_event_of = (\<lambda>_. 8)\<rparr>"

definition small_uring :: "uring res" where
  "small_uring =
     rbind (init_cache_or_exit True (\<lambda>_. True) (replicate 4 0) 2) (\<lambda>mc.
     rbind (init_cache_or_exit True (\<lambda>_. True) zero_info 3) (\<lambda>ic.
     rbind (init_cache_or_exit True (\<lambda>_. True) zero_connection 2) (\<lambda>cc.
     rbind (add_accept_request ring_env 3
              \<lparr>ur_echo = fresh_echo 10 4 (\<lambda>b. b) 0 cc mc, ur_infos = ic, ur_sq = [], ur_heap = []\<rparr>) (\<lambda>u1.
       add_read_request ring_env 8 Cause_Buf 8 EV_READ u1))))"

lemma small_uring_init:
  assumes "small_uring = Inr u"
  shows "ring_init 3 10 4 (fresh_ring u (\<lambda>_. []))"
proof -
  from assms obtain mc ic cc u1 where c: "init_cache_or_exit True (\<lambda>_. True) (replicate 4 (0 :: byte)) 2 = Inr mc"
    "init_cache_or_exit True (\<lambda>_. True) zero_info 3 = Inr ic" "init_cache_or_exit True (\<lambda>_. True) zero_connection 2 = Inr cc"
    "add_accept_request ring_env 3 \<lparr>ur_echo = fresh_echo 10 4 (\<lambda>b. b) 0 cc mc, ur_infos = ic, ur_sq = [], ur_heap = []\<rparr> = Inr u1"
    "add_read_request ring_env 8 Cause_Buf 8 EV_READ u1 = Inr u"
    by (auto simp: small_uring_def rbind_eq_Inr_iff)
  let ?a = "fresh_echo 10 4 (\<lambda>b. b) 0 cc mc"
  have "echo_wf ?a \<and> buffered ?a" using fresh_echo_wf init_cache_or_exit_Inr[OF c(1)] init_cache_or_exit_Inr[OF c(3)] by blast
  then have "tables ?a" by (simp add: tables_def fresh_echo_def)
  from first_requests[OF this _ _ _ _ c(4,5)] init_cache_or_exit_Inr[OF c(2)] show ?thesis by (simp add: fresh_echo_def)
qed

definition submitted :: "ring \<Rightarrow> ring" where
  "submitted r = r\<lparr>rg_u := (rg_u r)\<lparr>ur_sq := []\<rparr>, rg_flying := rg_flying r @ ur_sq (rg_u r)\<rparr>"

definition deliver :: "sqe \<Rightarrow> int \<Rightarrow> echo res \<Rightarrow> net_event list \<Rightarrow> (int \<times> byte list) list \<Rightarrow> ring \<Rightarrow> ring res" where
  "deliver x res st evs ws r =
     rbind st (\<lambda>a.
     rbind (handle_cqe ring_env 3 8 \<lparr>cq_data = sq_data x, cq_res = res\<rparr> ((rg_u r)\<lparr>ur_echo := a\<rparr>) (rg_q r)) (\<lambda>(u, q).
       Inr (submitted \<lparr>rg_u = u, rg_q = q, rg_flying = remove1 x (rg_flying r), rg_told = rg_told r, rg_count = rg_count r,
             rg_trace = rg_trace r @ evs, rg_sent = rg_sent r @ ws\<rparr>)))"

lemma reach_submitted:
  assumes "reach (ring_init 3 10 4) (ring_step 3 8 10) r"
  shows "reach (ring_init 3 10 4) (ring_step 3 8 10) (submitted r)"
proof -
  have "ring_step 3 8 10 r (submitted r)" unfolding submitted_def by (rule ring_submit)
  then show ?thesis by (rule reach_step[where step = "ring_step 3 8 10", OF assms])
qed

lemma reach_deliver:
  assumes "reach (ring_init 3 10 4) (ring_step 3 8 10) r" "x \<in> set (rg_flying r)"
    "kernel_does 10 ring_env (ur_echo (rg_u r)) (rg_q r (index (ur_echo (rg_u r)))) (rg_count r) (sq_op x) res a (rg_count r) evs ws"
    "deliver x res (Inr a) evs ws r = Inr t"
  shows "reach (ring_init 3 10 4) (ring_step 3 8 10) t"
proof -
  from assms(4) obtain u q where h: "handle_cqe ring_env 3 8 \<lparr>cq_data = sq_data x, cq_res = res\<rparr> ((rg_u r)\<lparr>ur_echo := a\<rparr>) (rg_q r) = Inr (u, q)"
    "t = submitted \<lparr>rg_u = u, rg_q = q, rg_flying = remove1 x (rg_flying r), rg_told = rg_told r, rg_count = rg_count r,
             rg_trace = rg_trace r @ evs, rg_sent = rg_sent r @ ws\<rparr>"
    by (auto simp: deliver_def rbind_eq_Inr_iff)
  show ?thesis unfolding h(2)
    by (rule reach_submitted[OF reach_step[where step = "ring_step 3 8 10", OF assms(1) ring_complete[OF assms(2,3) h(1)]]])
qed

text \<open>The three completions: the accept gives descriptor 5, the read a whole message, the write takes it.\<close>

definition ring_stage :: "nat \<Rightarrow> ring \<Rightarrow> ring res" where
  "ring_stage n r =
     (if n = 0 then deliver \<lparr>sq_op = Prep_Accept 3, sq_data = 0\<rparr> 5 (Inr (ur_echo (rg_u r))) [Accepted 3 5] [] r
      else if n = 1 then deliver \<lparr>sq_op = Prep_Read 5 (Msg_Buf (Some 0) 0) 4, sq_data = 2\<rparr> 4
                           (store_msg (Some 0) 0 [1, 2, 3, 4] (ur_echo (rg_u r))) [Got 5 [1, 2, 3, 4]] [] r
      else deliver \<lparr>sq_op = Prep_Write 5 (Msg_Buf (Some 0) 0) 4, sq_data = 2\<rparr> 4
             (Inr (ur_echo (rg_u r))) [Sent 5 4] [(5, [1, 2, 3, 4])] r)"

primrec ring_at :: "nat \<Rightarrow> ring res" where
  "ring_at 0 = rbind small_uring (\<lambda>u. Inr (submitted (fresh_ring u (\<lambda>_. []))))"
| "ring_at (Suc n) = rbind (ring_at n) (ring_stage n)"

lemma ring_checks:
  "case ring_at 0 of Inr r \<Rightarrow> \<lparr>sq_op = Prep_Accept 3, sq_data = 0\<rparr> \<in> set (rg_flying r) \<and> conns (ur_echo (rg_u r)) 5 = None \<and>
     index (ur_echo (rg_u r)) = 0 \<and> rg_q r 0 = [] | _ \<Rightarrow> False"
  "case ring_at 1 of Inr r \<Rightarrow> \<lparr>sq_op = Prep_Read 5 (Msg_Buf (Some 0) 0) 4, sq_data = 2\<rparr> \<in> set (rg_flying r) \<and>
     ok (store_msg (Some 0) 0 [1, 2, 3, 4] (ur_echo (rg_u r))) \<and> ur_sq (rg_u r) = [] \<and> index (ur_echo (rg_u r)) = 0 \<and>
     rg_q r 0 = [] | _ \<Rightarrow> False"
  "case ring_at 2 of Inr r \<Rightarrow> \<lparr>sq_op = Prep_Write 5 (Msg_Buf (Some 0) 0) 4, sq_data = 2\<rparr> \<in> set (rg_flying r) \<and>
     msg (ur_echo (rg_u r)) 0 = [1, 2, 3, 4] | _ \<Rightarrow> False"
  "case ring_at 3 of Inr r \<Rightarrow> rg_trace r = [Accepted 3 5, Got 5 [1, 2, 3, 4], Sent 5 4] \<and> rg_sent r = [(5, [1, 2, 3, 4])] \<and>
     conns (ur_echo (rg_u r)) 5 \<noteq> None \<and> conns (ur_echo (rg_u r)) 6 = None \<and> index (ur_echo (rg_u r)) = 0 \<and> rg_q r 0 = [] | _ \<Rightarrow> False"
  by code_simp+

lemma ring_at_reach:
  "ring_at n = Inr r \<Longrightarrow> n \<le> 3 \<Longrightarrow> reach (ring_init 3 10 4) (ring_step 3 8 10) r"
proof (induction n arbitrary: r)
  case 0
  then obtain u where u: "small_uring = Inr u" "r = submitted (fresh_ring u (\<lambda>_. []))" by (auto simp: rbind_eq_Inr_iff)
  show ?case unfolding u(2) by (rule reach_submitted[OF reach_init[of "ring_init 3 10 4", OF small_uring_init[OF u(1)]]])
next
  case (Suc n)
  from Suc.prems(1) obtain r0 where r0: "ring_at n = Inr r0" "ring_stage n r0 = Inr r" by (auto simp: rbind_eq_Inr_iff)
  have rc: "reach (ring_init 3 10 4) (ring_step 3 8 10) r0" using Suc r0(1) by simp
  consider "n = 0" | "n = 1" | "n = 2" using Suc.prems(2) by linarith
  then show ?case
  proof cases
    case 1
    then have "\<lparr>sq_op = Prep_Accept 3, sq_data = 0\<rparr> \<in> set (rg_flying r0)" "conns (ur_echo (rg_u r0)) 5 = None"
      "index (ur_echo (rg_u r0)) = 0" "rg_q r0 0 = []" using ring_checks(1) r0(1) by auto
    note c = this
    have d: "deliver \<lparr>sq_op = Prep_Accept 3, sq_data = 0\<rparr> 5 (Inr (ur_echo (rg_u r0))) [Accepted 3 5] [] r0 = Inr r"
      using r0(2) 1 by (simp add: ring_stage_def)
    show ?thesis by (rule reach_deliver[OF rc c(1) _ d])
        (use c in \<open>simp add: ring_env_def\<close>)
  next
    case 2
    then have "\<lparr>sq_op = Prep_Read 5 (Msg_Buf (Some 0) 0) 4, sq_data = 2\<rparr> \<in> set (rg_flying r0)"
      "ok (store_msg (Some 0) 0 [1, 2, 3, 4] (ur_echo (rg_u r0)))" using ring_checks(2) r0(1) by auto
    note c = this
    then obtain a where a: "store_msg (Some 0) 0 [1, 2, 3, 4] (ur_echo (rg_u r0)) = Inr a"
      by (cases "store_msg (Some 0) 0 [1, 2, 3, 4] (ur_echo (rg_u r0))") auto
    have d: "deliver \<lparr>sq_op = Prep_Read 5 (Msg_Buf (Some 0) 0) 4, sq_data = 2\<rparr> 4 (Inr a) [Got 5 [1, 2, 3, 4]] [] r0 = Inr r"
      using r0(2) a 2 by (simp add: ring_stage_def)
    show ?thesis by (rule reach_deliver[OF rc c(1) _ d])
        (use a in \<open>auto intro!: exI[of _ "[1, 2, 3, 4]"]\<close>)
  next
    case 3
    then have "\<lparr>sq_op = Prep_Write 5 (Msg_Buf (Some 0) 0) 4, sq_data = 2\<rparr> \<in> set (rg_flying r0)"
      "msg (ur_echo (rg_u r0)) 0 = [1, 2, 3, 4]" using ring_checks(3) r0(1) by auto
    note c = this
    have d: "deliver \<lparr>sq_op = Prep_Write 5 (Msg_Buf (Some 0) 0) 4, sq_data = 2\<rparr> 4 (Inr (ur_echo (rg_u r0))) [Sent 5 4]
        [(5, [1, 2, 3, 4])] r0 = Inr r"
      using r0(2) 3 by (simp add: ring_stage_def)
    show ?thesis by (rule reach_deliver[OF rc c(1) _ d]) (use c in simp)
  qed
qed

text \<open>The last stage, with descriptor 6 handed over and the notification of that under way.\<close>

lemma ring_pushed:
  obtains r where "reach (ring_init 3 10 4) (ring_step 3 8 10) r" "rg_trace r = [Accepted 3 5, Got 5 [1, 2, 3, 4], Sent 5 4]"
    "rg_sent r = [(5, [1, 2, 3, 4])]" "conns (ur_echo (rg_u r)) 5 \<noteq> None" "rg_q r (index (ur_echo (rg_u r))) = [6]"
proof -
  from ring_checks(4) obtain r where r: "ring_at 3 = Inr r" "rg_trace r = [Accepted 3 5, Got 5 [1, 2, 3, 4], Sent 5 4]"
    "rg_sent r = [(5, [1, 2, 3, 4])]" "conns (ur_echo (rg_u r)) 5 \<noteq> None" "conns (ur_echo (rg_u r)) 6 = None"
    "index (ur_echo (rg_u r)) = 0" "rg_q r 0 = []" by (cases "ring_at 3") auto
  have "ring_step 3 8 10 r (r\<lparr>rg_q := (rg_q r)(0 := 6 # rg_q r 0), rg_told := rg_told r + 1\<rparr>)"
    by (rule ring_push) (use r in simp_all)
  from that[OF reach_step[where step = "ring_step 3 8 10", OF ring_at_reach[OF r(1)] this]] r show thesis by simp
qed

section \<open>Properties\<close>

text \<open>
  C3: In every state a worker of the io_uring server can reach, with completions in any order and
  connections handed over at any time, its tables are well-formed and its run so far is one of the
  abstract echo server: the sessions are those the abstract server reaches on the events the
  completions stand for, and the bytes the writes took on each connection are those it sends.
\<close>

theorem uring_refines_echo_server:
  assumes "reach (ring_init l mx n) (ring_step l ev mx) r"
  shows "echo_wf (ur_echo (rg_u r)) \<and>
    runs n (rg_trace r) (\<lambda>_. None) (sessions (ur_echo (rg_u r))) (\<lambda>fd. sent_on fd (rg_sent r))"
  using ring.reach_inv[OF assms] by (simp add: ring_inv_def Let_def net_ok_def tables_def)

text \<open>
  C7: In every reachable state of the io_uring server each open connection has exactly one request
  queued or in flight, on the rest of the message in its own buffer, and a closed one has none;
  exactly one accept is armed; and the notifications allocated for other threads are exactly those
  whose write is queued or in flight, so none is leaked or freed twice.
\<close>

theorem uring_one_request_each:
  assumes "reach (ring_init l mx n) (ring_step l ev mx) r"
  shows "(\<forall>fd. case conns (ur_echo (rg_u r)) fd of
        None \<Rightarrow> filter (conn_req fd) (ops (rg_flying r) (rg_u r)) = []
      | Some c \<Rightarrow> \<exists>op. filter (conn_req fd) (ops (rg_flying r) (rg_u r)) = [op] \<and> covers n fd (conn (ur_echo (rg_u r)) c) op) \<and>
    filter accept_req (ops (rg_flying r) (rg_u r)) = [Prep_Accept l] \<and>
    mset (ur_heap (rg_u r)) = mset (concat (map notes_of (ops (rg_flying r) (rg_u r))))"
proof -
  let ?a = "ur_echo (rg_u r)" and ?R = "ops (rg_flying r) (rg_u r)"
  have i: "ops_ok n (view ?a) ?R" "filter accept_req ?R = [Prep_Accept l]" "mset (ur_heap (rg_u r)) = mset (concat (map notes_of ?R))"
    using ring.reach_inv[OF assms] by (simp_all add: ring_inv_def Let_def net_ok_def)
  have "case conns ?a fd of None \<Rightarrow> filter (conn_req fd) ?R = []
      | Some c \<Rightarrow> \<exists>op. filter (conn_req fd) ?R = [op] \<and> covers n fd (conn ?a c) op" for fd
    using i(1)[unfolded ops_ok_def, rule_format, of fd]
    by (cases "conns ?a fd") (simp_all add: armed_at_def view_def view_at_def)
  then show ?thesis using i(2,3) by blast
qed



theorem uring_refines_echo_server_witness:
  "\<exists>S. runs 4 [Accepted 3 5, Got 5 [1, 2, 3, 4], Sent 5 4] (\<lambda>_. None) S (\<lambda>fd. sent_on fd [(5, [1, 2, 3, 4])])"
proof -
  obtain r where r: "reach (ring_init 3 10 4) (ring_step 3 8 10) r" "rg_trace r = [Accepted 3 5, Got 5 [1, 2, 3, 4], Sent 5 4]"
    "rg_sent r = [(5, [1, 2, 3, 4])]" by (rule ring_pushed)
  show ?thesis using uring_refines_echo_server[OF r(1)] unfolding r(2,3) by blast
qed

theorem uring_one_request_each_witness:
  "\<exists>r op. reach (ring_init 3 10 4) (ring_step 3 8 10) r \<and> filter (conn_req 5) (ops (rg_flying r) (rg_u r)) = [op] \<and>
     filter accept_req (ops (rg_flying r) (rg_u r)) = [Prep_Accept 3]"
proof -
  obtain r where r: "reach (ring_init 3 10 4) (ring_step 3 8 10) r" "conns (ur_echo (rg_u r)) 5 \<noteq> None" by (rule ring_pushed)
  note p = uring_one_request_each[OF r(1)]
  from r(2) obtain c where "conns (ur_echo (rg_u r)) 5 = Some c" by blast
  with spec[OF conjunct1[OF p], of 5] obtain op where "filter (conn_req 5) (ops (rg_flying r) (rg_u r)) = [op]" by auto
  then show ?thesis using p r(1) by blast
qed



end
