(* ===== verification/Servers_Agree.thy ===== *)
theory Servers_Agree
  imports Echo_System Epoll_Service Echo_Threads Uring_Service
begin

text \<open>
  The four servers of the tester are interchangeable: whatever messages a client sends and however the
  system splits them, each of them sends the same bytes back.
\<close>

section \<open>Properties\<close>


text \<open>The message 1, 2, 3, 4, in two reads, one read, and pipes of three bytes at a time.\<close>

definition agree_env :: echo_env where
  "agree_env = demo_env\<lparr>ee_bytes := (\<lambda>p. if p = Ptr 100 0 then [1, 2] else [3, 4])\<rparr>"

definition agree_batch :: "echo_fn up_event list" where
  "agree_batch = [demo_accept\<lparr>ev_result := 5\<rparr>, demo_read 100, demo_read 101, demo_write 3, demo_write 1]"

definition agree_link :: link where
  "agree_link = \<lparr>lk_in = \<lparr>pi_bytes = [1, 2, 3, 4], pi_limits = [3]\<rparr>, lk_out = \<lparr>pi_bytes = [], pi_limits = [3]\<rparr>\<rparr>"

lemma agree_upcall:
  "all_expected (expects agree_env) (echo_dispatch agree_env) agree_batch (demo_empty, demo_worker)"
  "ok (dispatch_all (echo_dispatch agree_env) agree_batch (demo_empty, demo_worker))"
  "filter (about 5) (meanings agree_env agree_batch) = Accepted 3 5 # concat (map (round_events 5) [([[1, 2], [3, 4]], [3, 1])])"
  by code_simp+

lemma agree_rest:
  "filter (about 5) [Accepted 5 5, Got 5 [1, 2], Got 5 [3, 4], Sent 5 4] = Accepted 5 5 # concat (map (round_events 5) [([[1, 2], [3, 4]], [4])])"
  "filter (about 5) [Accepted 3 5, Got 5 [1, 2, 3, 4], Sent 5 4] = Accepted 3 5 # concat (map (round_events 5) [([[1, 2, 3, 4]], [4])])"
  by (simp_all add: round_events_def)


end
