(* ===== verification/Hang_Barrier.thy ===== *)
theory Hang_Barrier
  imports Upcall_Prelude
begin

text \<open>
  How the epoll, io_uring and threaded servers and the load generator start their threads: the main
  thread holds \<open>worker_hang_lock\<close> until all workers have counted themselves; a worker waits by taking
  that lock.  A failing call ends the process.
\<close>

section \<open>The start-up as a step system\<close>

datatype party = Starter | Hanger nat

text \<open>
  \<open>H_Attr\<close>: before the thread attributes are set up; \<open>H_Spawn i\<close>: about to create worker \<open>i\<close>;
  \<open>H_Wait\<close>, \<open>H_Woken\<close>: in \<open>pthread_cond_wait\<close>; \<open>H_Release\<close>: \<open>init_lock\<close> is free again, \<open>worker_hang_lock\<close> not yet.
\<close>

datatype hang_main =
    H_Attr | H_Hang | H_Spawn nat | H_Lock | H_Check | H_Wait | H_Woken | H_Unlock | H_Release | H_Ret

datatype hang_pc =
    P_None | P_Setup | P_Lock | P_Inc | P_Signal | P_Unlock | P_Hang | P_Pass | P_Loop

record hang =
  h_init :: "party option"
  h_hang :: "party option"
  h_count :: nat
  h_main :: hang_main
  h_pc :: "nat \<Rightarrow> hang_pc"
  h_exited :: bool

text \<open>Which of the calls that end the process on failure succeed: attributes, affinity and creation, set-up.\<close>

record hang_env =
  he_attr :: bool
  he_create :: "nat \<Rightarrow> bool"
  he_setup :: "nat \<Rightarrow> bool"

definition move_to :: "hang \<Rightarrow> nat \<Rightarrow> hang_pc \<Rightarrow> hang" where
  "move_to s i p = s\<lparr>h_pc := (h_pc s)(i := p)\<rparr>"

text \<open>\<open>pthread_cond_signal(&init_cond)\<close>: only the main thread sleeps there.\<close>

definition wake_starter :: "hang \<Rightarrow> hang" where
  "wake_starter s = (if h_main s = H_Wait then s\<lparr>h_main := H_Woken\<rparr> else s)"

inductive hang_move :: "hang_env \<Rightarrow> nat \<Rightarrow> hang \<Rightarrow> hang \<Rightarrow> bool" for v n where
  h_attr: "h_main s = H_Attr \<Longrightarrow> he_attr v \<Longrightarrow> hang_move v n s (s\<lparr>h_main := H_Hang\<rparr>)"
| h_take: "h_main s = H_Hang \<Longrightarrow> h_hang s = None \<Longrightarrow> hang_move v n s (s\<lparr>h_main := H_Spawn 0, h_hang := Some Starter\<rparr>)"
| h_spawn: "h_main s = H_Spawn i \<Longrightarrow> i < n \<Longrightarrow> he_create v i \<Longrightarrow>
    hang_move v n s ((move_to s i P_Setup)\<lparr>h_main := H_Spawn (i + 1)\<rparr>)"
| h_spawned: "h_main s = H_Spawn i \<Longrightarrow> \<not> i < n \<Longrightarrow> hang_move v n s (s\<lparr>h_main := H_Lock\<rparr>)"
| h_lock: "h_main s = H_Lock \<Longrightarrow> h_init s = None \<Longrightarrow> hang_move v n s (s\<lparr>h_main := H_Check, h_init := Some Starter\<rparr>)"
| h_sleep: "h_main s = H_Check \<Longrightarrow> h_count s < n \<Longrightarrow> hang_move v n s (s\<lparr>h_main := H_Wait, h_init := None\<rparr>)"
| h_relock: "h_main s = H_Woken \<Longrightarrow> h_init s = None \<Longrightarrow> hang_move v n s (s\<lparr>h_main := H_Check, h_init := Some Starter\<rparr>)"
| h_pass: "h_main s = H_Check \<Longrightarrow> \<not> h_count s < n \<Longrightarrow> hang_move v n s (s\<lparr>h_main := H_Unlock\<rparr>)"
| h_unlock: "h_main s = H_Unlock \<Longrightarrow> hang_move v n s (s\<lparr>h_main := H_Release, h_init := None\<rparr>)"
| h_release: "h_main s = H_Release \<Longrightarrow> hang_move v n s (s\<lparr>h_main := H_Ret, h_hang := None\<rparr>)"
| p_setup: "h_pc s i = P_Setup \<Longrightarrow> he_setup v i \<Longrightarrow> hang_move v n s (move_to s i P_Lock)"
| p_lock: "h_pc s i = P_Lock \<Longrightarrow> h_init s = None \<Longrightarrow> hang_move v n s ((move_to s i P_Inc)\<lparr>h_init := Some (Hanger i)\<rparr>)"
| p_inc: "h_pc s i = P_Inc \<Longrightarrow> hang_move v n s ((move_to s i P_Signal)\<lparr>h_count := h_count s + 1\<rparr>)"
| p_signal: "h_pc s i = P_Signal \<Longrightarrow> hang_move v n s (wake_starter (move_to s i P_Unlock))"
| p_unlock: "h_pc s i = P_Unlock \<Longrightarrow> hang_move v n s ((move_to s i P_Hang)\<lparr>h_init := None\<rparr>)"
| p_hang: "h_pc s i = P_Hang \<Longrightarrow> h_hang s = None \<Longrightarrow> hang_move v n s ((move_to s i P_Pass)\<lparr>h_hang := Some (Hanger i)\<rparr>)"
| p_pass: "h_pc s i = P_Pass \<Longrightarrow> hang_move v n s ((move_to s i P_Loop)\<lparr>h_hang := None\<rparr>)"

text \<open>The calls whose failure is an \<open>exit(1)\<close>, of the main thread or of a worker.\<close>

inductive hang_fail :: "hang_env \<Rightarrow> nat \<Rightarrow> hang \<Rightarrow> bool" for v n where
  f_attr: "h_main s = H_Attr \<Longrightarrow> \<not> he_attr v \<Longrightarrow> hang_fail v n s"
| f_create: "h_main s = H_Spawn i \<Longrightarrow> i < n \<Longrightarrow> \<not> he_create v i \<Longrightarrow> hang_fail v n s"
| f_setup: "h_pc s i = P_Setup \<Longrightarrow> \<not> he_setup v i \<Longrightarrow> hang_fail v n s"

definition hang_step :: "hang_env \<Rightarrow> nat \<Rightarrow> hang \<Rightarrow> hang \<Rightarrow> bool" where
  "hang_step v n s t \<longleftrightarrow> \<not> h_exited s \<and> (hang_move v n s t \<or> hang_fail v n s \<and> t = s\<lparr>h_exited := True\<rparr>)"

text \<open>The condition variable may also wake the main thread for no reason.\<close>

definition hang_any :: "hang_env \<Rightarrow> nat \<Rightarrow> hang \<Rightarrow> hang \<Rightarrow> bool" where
  "hang_any v n s t \<longleftrightarrow> hang_step v n s t \<or> h_main s = H_Wait \<and> t = s\<lparr>h_main := H_Woken\<rparr>"

definition hang_init :: "hang \<Rightarrow> bool" where
  "hang_init s \<longleftrightarrow>
     s = \<lparr>h_init = None, h_hang = None, h_count = 0, h_main = H_Attr, h_pc = (\<lambda>_. P_None), h_exited = False\<rparr>"

section \<open>Invariant\<close>

definition main_inits :: "hang_main \<Rightarrow> bool" where
  "main_inits p \<longleftrightarrow> p = H_Check \<or> p = H_Unlock"

definition main_hangs :: "hang_main \<Rightarrow> bool" where
  "main_hangs p \<longleftrightarrow> p \<noteq> H_Attr \<and> p \<noteq> H_Hang \<and> p \<noteq> H_Ret"

definition pc_inits :: "hang_pc \<Rightarrow> bool" where
  "pc_inits p \<longleftrightarrow> p = P_Inc \<or> p = P_Signal \<or> p = P_Unlock"

definition has_counted :: "hang_pc \<Rightarrow> bool" where
  "has_counted p \<longleftrightarrow> p = P_Signal \<or> p = P_Unlock \<or> p = P_Hang \<or> p = P_Pass \<or> p = P_Loop"

text \<open>Still to signal the main thread.\<close>

definition to_signal :: "hang_pc \<Rightarrow> bool" where
  "to_signal p \<longleftrightarrow> p = P_Setup \<or> p = P_Lock \<or> p = P_Inc \<or> p = P_Signal"

definition saw_all :: "hang_main \<Rightarrow> bool" where
  "saw_all p \<longleftrightarrow> p = H_Unlock \<or> p = H_Release \<or> p = H_Ret"

definition created :: "nat \<Rightarrow> hang_main \<Rightarrow> nat" where
  "created n p = (case p of H_Attr \<Rightarrow> 0 | H_Hang \<Rightarrow> 0 | H_Spawn i \<Rightarrow> i | _ \<Rightarrow> n)"

text \<open>The locks, the workers that exist, the count, and the calls that have succeeded.\<close>

definition locks_ok :: "hang \<Rightarrow> bool" where
  "locks_ok s \<longleftrightarrow> (h_init s = Some Starter \<longleftrightarrow> main_inits (h_main s)) \<and> (\<forall>i. h_init s = Some (Hanger i) \<longleftrightarrow> pc_inits (h_pc s i)) \<and>
     (h_hang s = Some Starter \<longleftrightarrow> main_hangs (h_main s)) \<and> (\<forall>i. h_hang s = Some (Hanger i) \<longleftrightarrow> h_pc s i = P_Pass)"

definition workers_ok :: "nat \<Rightarrow> hang \<Rightarrow> bool" where
  "workers_ok n s \<longleftrightarrow> created n (h_main s) \<le> n \<and> (\<forall>i. h_pc s i = P_None \<longleftrightarrow> created n (h_main s) \<le> i) \<and>
     h_count s = card {i. i < n \<and> has_counted (h_pc s i)}"

definition waits_ok :: "nat \<Rightarrow> hang \<Rightarrow> bool" where
  "waits_ok n s \<longleftrightarrow> (saw_all (h_main s) \<longrightarrow> h_count s = n) \<and>
     (h_main s = H_Wait \<longrightarrow> (\<exists>i < n. to_signal (h_pc s i))) \<and>
     (\<forall>i. h_pc s i = P_Pass \<or> h_pc s i = P_Loop \<longrightarrow> h_main s = H_Ret)"

definition calls_ok :: "hang_env \<Rightarrow> hang \<Rightarrow> bool" where
  "calls_ok v s \<longleftrightarrow> (h_main s \<noteq> H_Attr \<longrightarrow> he_attr v) \<and>
     (\<forall>i. h_pc s i \<noteq> P_None \<longrightarrow> he_create v i \<and> (h_pc s i \<noteq> P_Setup \<longrightarrow> he_setup v i))"

definition all_succeed :: "hang_env \<Rightarrow> nat \<Rightarrow> bool" where
  "all_succeed v n \<longleftrightarrow> he_attr v \<and> (\<forall>i < n. he_create v i \<and> he_setup v i)"

definition hang_inv :: "hang_env \<Rightarrow> nat \<Rightarrow> hang \<Rightarrow> bool" where
  "hang_inv v n s \<longleftrightarrow> locks_ok s \<and> workers_ok n s \<and> waits_ok n s \<and> calls_ok v s \<and> (h_exited s \<longrightarrow> \<not> all_succeed v n)"

lemma move_to_simps [simp]:
  "h_pc (move_to s i p) j = (if j = i then p else h_pc s j)" "h_init (move_to s i p) = h_init s"
  "h_hang (move_to s i p) = h_hang s" "h_main (move_to s i p) = h_main s" "h_count (move_to s i p) = h_count s"
  "h_exited (move_to s i p) = h_exited s"
  by (simp_all add: move_to_def)

lemma wake_starter_simps [simp]:
  "h_pc (wake_starter s) = h_pc s" "h_init (wake_starter s) = h_init s" "h_hang (wake_starter s) = h_hang s"
  "h_count (wake_starter s) = h_count s" "h_exited (wake_starter s) = h_exited s"
  "h_main (wake_starter s) = (if h_main s = H_Wait then H_Woken else h_main s)"
  by (simp_all add: wake_starter_def)

lemmas pc_kinds [simp] = main_inits_def main_hangs_def pc_inits_def has_counted_def to_signal_def saw_all_def created_def

lemma hang_any_cases [consumes 1, case_names move exit spurious]:
  assumes "hang_any v n s t"
  obtains "hang_move v n s t" | "hang_fail v n s" "t = s\<lparr>h_exited := True\<rparr>" | "h_main s = H_Wait" "t = s\<lparr>h_main := H_Woken\<rparr>"
  using assms unfolding hang_any_def hang_step_def by blast

lemma locks_step:
  assumes l: "locks_ok s" and w: "workers_ok n s" and st: "hang_any v n s t"
  shows "locks_ok t"
  using st
proof (cases rule: hang_any_cases)
  case move
  have lk: "h_init s = Some Starter \<longleftrightarrow> main_inits (h_main s)" "h_init s = Some (Hanger i) \<longleftrightarrow> pc_inits (h_pc s i)"
    "h_hang s = Some Starter \<longleftrightarrow> main_hangs (h_main s)" "h_hang s = Some (Hanger i) \<longleftrightarrow> h_pc s i = P_Pass" for i
    using l unfolding locks_ok_def by blast+
  have "(h_init t = Some Starter \<longleftrightarrow> main_inits (h_main t)) \<and> (h_init t = Some (Hanger j) \<longleftrightarrow> pc_inits (h_pc t j)) \<and>
      (h_hang t = Some Starter \<longleftrightarrow> main_hangs (h_main t)) \<and> (h_hang t = Some (Hanger j) \<longleftrightarrow> h_pc t j = P_Pass)" for j
    using move
  proof cases
    case (h_spawn i)
    then have "h_pc s i = P_None" using w by (simp add: workers_ok_def)
    then show ?thesis using h_spawn lk(1,3) lk(2)[of i] lk(2)[of j] lk(4)[of i] lk(4)[of j] by auto
  next
    case (p_setup i)
    then show ?thesis using lk(1,3) lk(2)[of i] lk(2)[of j] lk(4)[of i] lk(4)[of j] by auto
  next
    case (p_lock i)
    then show ?thesis using lk(1,3) lk(2)[of i] lk(2)[of j] lk(4)[of i] lk(4)[of j] by auto
  next
    case (p_inc i)
    then show ?thesis using lk(1,3) lk(2)[of i] lk(2)[of j] lk(4)[of i] lk(4)[of j] by auto
  next
    case (p_signal i)
    then show ?thesis using lk(1,3) lk(2)[of i] lk(2)[of j] lk(4)[of i] lk(4)[of j] by auto
  next
    case (p_unlock i)
    then show ?thesis using lk(1,3) lk(2)[of i] lk(2)[of j] lk(4)[of i] lk(4)[of j] by auto
  next
    case (p_hang i)
    then show ?thesis using lk(1,3) lk(2)[of i] lk(2)[of j] lk(4)[of i] lk(4)[of j] by auto
  next
    case (p_pass i)
    then show ?thesis using lk(1,3) lk(2)[of i] lk(2)[of j] lk(4)[of i] lk(4)[of j] by auto
  qed (use lk(1,3) lk(2)[of j] lk(4)[of j] in auto)
  then show ?thesis unfolding locks_ok_def by blast
qed (use l in \<open>auto simp: locks_ok_def\<close>)

lemma in_hang: "workers_ok n s \<Longrightarrow> h_pc s i \<noteq> P_None \<Longrightarrow> i < n"
  unfolding workers_ok_def using le_trans not_less by blast

lemma workers_step:
  assumes w: "workers_ok n s" and st: "hang_any v n s t"
  shows "workers_ok n t"
  using st
proof (cases rule: hang_any_cases)
  case move
  have c: "h_count s = card {i. i < n \<and> has_counted (h_pc s i)}" using w by (simp add: workers_ok_def)
  have n: "created n (h_main s) \<le> n" "h_pc s j = P_None \<longleftrightarrow> created n (h_main s) \<le> j" for j
    using w by (simp_all add: workers_ok_def)
  have cr: "created n (h_main t) \<le> n \<and> (h_pc t j = P_None \<longleftrightarrow> created n (h_main t) \<le> j)" for j
    using move by cases (use n(1) n(2)[of j] in auto)
  have same: "h_count t = card {i. i < n \<and> has_counted (h_pc t i)}"
    if "h_count t = h_count s" "\<And>j. has_counted (h_pc t j) = has_counted (h_pc s j)"
    using that c by simp
  from move have "h_count t = card {i. i < n \<and> has_counted (h_pc t i)}"
  proof cases
    case (p_inc i)
    then have "has_counted (h_pc t j) \<longleftrightarrow> has_counted (h_pc s j) \<or> j = i" for j by simp
    from card_filter_insert[of "\<lambda>j. has_counted (h_pc s j)", OF _ _ this] p_inc in_hang[OF w, of i] c show ?thesis by simp
  next
    case (h_spawn i)
    then have "h_pc s i = P_None" using w by (simp add: workers_ok_def)
    then show ?thesis using h_spawn by (intro same) simp_all
  qed (rule same; simp)+
  then show ?thesis using cr by (simp add: workers_ok_def)
qed (use w in \<open>auto simp: workers_ok_def\<close>)

text \<open>Once the main thread has seen all workers ready, each has counted itself.\<close>

lemma saw_all_counted: "workers_ok n s \<Longrightarrow> waits_ok n s \<Longrightarrow> saw_all (h_main s) \<Longrightarrow> i < n \<Longrightarrow> has_counted (h_pc s i)"
  using card_filter_all[of n "\<lambda>i. has_counted (h_pc s i)" i] unfolding workers_ok_def waits_ok_def by metis

text \<open>When the main thread goes to sleep, some worker has still to signal it.\<close>

lemma sleep_signal_left:
  assumes w: "workers_ok n s" and m: "h_main s = H_Check" "h_count s < n"
  shows "\<exists>i < n. to_signal (h_pc s i)"
proof (rule ccontr)
  assume a: "\<not> ?thesis"
  have "has_counted (h_pc s i)" if "i < n" for i
  proof -
    have "h_pc s i \<noteq> P_None" using w m(1) that by (simp add: workers_ok_def)
    then show ?thesis using a that by (cases "h_pc s i") auto
  qed
  then have "{i. i < n \<and> has_counted (h_pc s i)} = {..<n}" by auto
  then show False using w m(2) by (simp add: workers_ok_def)
qed

lemma counted_step:
  assumes w: "workers_ok n s" and q: "waits_ok n s" and move: "hang_move v n s t"
  shows "saw_all (h_main t) \<longrightarrow> h_count t = n"
proof -
  have p: "saw_all (h_main s) \<Longrightarrow> h_count s = n" using q unfolding waits_ok_def by blast
  from move show ?thesis
  proof cases
    case h_pass
    then show ?thesis using w card_filter_le[of n "\<lambda>i. has_counted (h_pc s i)"] by (simp add: workers_ok_def)
  next
    case (p_inc i)
    then have "\<not> saw_all (h_main s)" using saw_all_counted[OF w q, of i] in_hang[OF w, of i] by auto
    then show ?thesis using p_inc by simp
  qed (use p in auto)
qed

lemma passed_step:
  assumes l: "locks_ok s" and w: "workers_ok n s" and q: "waits_ok n s" and move: "hang_move v n s t"
    and t: "h_pc t i = P_Pass \<or> h_pc t i = P_Loop"
  shows "h_main t = H_Ret"
proof -
  have p: "h_pc s i = P_Pass \<or> h_pc s i = P_Loop \<Longrightarrow> h_main s = H_Ret" using q unfolding waits_ok_def by blast
  from move show ?thesis
  proof cases
    case (p_hang j)
    have sp: "\<And>k. h_pc s k = P_None \<longleftrightarrow> created n (h_main s) \<le> k" "h_hang s = Some Starter \<longleftrightarrow> main_hangs (h_main s)"
      using w l by (simp_all add: workers_ok_def locks_ok_def)
    then have "h_main s = H_Ret" using p_hang sp(1)[of j] by (cases "h_main s") auto
    then show ?thesis using p_hang by simp
  qed (use t p in \<open>auto split: if_splits\<close>)
qed

lemma signal_step:
  assumes w: "workers_ok n s" and q: "waits_ok n s" and move: "hang_move v n s t" and t: "h_main t = H_Wait"
  shows "\<exists>i < n. to_signal (h_pc t i)"
proof -
  have ws: "\<exists>i < n. to_signal (h_pc s i)" if "h_main s = H_Wait" using q that unfolding waits_ok_def by blast
  from move show ?thesis
  proof cases
    case h_sleep
    then show ?thesis using sleep_signal_left[OF w] by simp
  next
    case (p_signal i)
    then show ?thesis using t by (simp split: if_splits)
  next
    case (p_setup i)
    then show ?thesis using in_hang[OF w, of i] by (intro exI[of _ i]) simp
  next
    case (p_lock i)
    then show ?thesis using in_hang[OF w, of i] by (intro exI[of _ i]) simp
  next
    case (p_inc i)
    then show ?thesis using in_hang[OF w, of i] by (intro exI[of _ i]) simp
  next
    case (p_unlock i)
    then obtain j where "j < n" "to_signal (h_pc s j)" using ws t by auto
    then show ?thesis using p_unlock by (intro exI[of _ j]) auto
  next
    case (p_hang i)
    then obtain j where "j < n" "to_signal (h_pc s j)" using ws t by auto
    then show ?thesis using p_hang by (intro exI[of _ j]) auto
  next
    case (p_pass i)
    then obtain j where "j < n" "to_signal (h_pc s j)" using ws t by auto
    then show ?thesis using p_pass by (intro exI[of _ j]) auto
  qed (use t in simp_all)
qed

lemma waits_step:
  assumes l: "locks_ok s" and w: "workers_ok n s" and q: "waits_ok n s" and st: "hang_any v n s t"
  shows "waits_ok n t"
  using st
proof (cases rule: hang_any_cases)
  case move
  show ?thesis unfolding waits_ok_def
    using counted_step[OF w q move] passed_step[OF l w q move] signal_step[OF w q move] by blast
qed (use q in \<open>auto simp: waits_ok_def\<close>)

lemma calls_step:
  assumes c: "calls_ok v s" and st: "hang_any v n s t"
  shows "calls_ok v t"
  using st
proof (cases rule: hang_any_cases)
  case move
  then show ?thesis using c unfolding calls_ok_def by cases auto
qed (use c in \<open>auto simp: calls_ok_def\<close>)

lemma hang_inv_step:
  assumes inv: "hang_inv v n s" and st: "hang_any v n s t"
  shows "hang_inv v n t"
proof -
  have i: "locks_ok s" "workers_ok n s" "waits_ok n s" "calls_ok v s" "h_exited s \<longrightarrow> \<not> all_succeed v n"
    using inv by (simp_all add: hang_inv_def)
  have "h_exited t \<longrightarrow> \<not> all_succeed v n"
    using st
  proof (cases rule: hang_any_cases)
    case move
    then have "h_exited t = h_exited s" by cases simp_all
    then show ?thesis using i(5) by simp
  next
    case exit
    from exit(1) have "\<not> all_succeed v n"
    proof cases
      case (f_setup j)
      then show ?thesis using in_hang[OF i(2), of j] unfolding all_succeed_def by auto
    qed (auto simp: all_succeed_def)
    then show ?thesis by simp
  qed (use i(5) in simp)
  then show ?thesis
    using locks_step[OF i(1,2) st] workers_step[OF i(2) st] waits_step[OF i(1-3) st] calls_step[OF i(4) st]
    by (simp add: hang_inv_def)
qed

lemma hang_inv_init: "hang_init s \<Longrightarrow> hang_inv v n s"
  by (simp add: hang_init_def hang_inv_def locks_ok_def workers_ok_def waits_ok_def calls_ok_def)

section \<open>Progress\<close>

text \<open>Every step of the code makes this number smaller; the exit makes it zero.\<close>

fun hmain_rank :: "nat \<Rightarrow> hang_main \<Rightarrow> nat" where
  "hmain_rank n H_Attr = 40 + n"
| "hmain_rank n H_Hang = 30 + n"
| "hmain_rank n (H_Spawn i) = 20 + (n - i)"
| "hmain_rank n H_Lock = 14"
| "hmain_rank n H_Woken = 11"
| "hmain_rank n H_Check = 10"
| "hmain_rank n H_Wait = 9"
| "hmain_rank n H_Unlock = 8"
| "hmain_rank n H_Release = 7"
| "hmain_rank n H_Ret = 1"

fun pc_rank :: "hang_pc \<Rightarrow> nat" where
  "pc_rank P_None = 15"
| "pc_rank P_Setup = 14"
| "pc_rank P_Lock = 13"
| "pc_rank P_Inc = 12"
| "pc_rank P_Signal = 11"
| "pc_rank P_Unlock = 5"
| "pc_rank P_Hang = 4"
| "pc_rank P_Pass = 2"
| "pc_rank P_Loop = 0"

definition hang_rank :: "nat \<Rightarrow> hang \<Rightarrow> nat" where
  "hang_rank n s = (if h_exited s then 0 else hmain_rank n (h_main s) + (\<Sum>i<n. pc_rank (h_pc s i)))"

lemma pc_point:
  "i < n \<Longrightarrow> (\<Sum>j<n. pc_rank (if j = i then p else h_pc s j)) + pc_rank (h_pc s i) = (\<Sum>j<n. pc_rank (h_pc s j)) + pc_rank p"
  by (rule sum_point)

lemma hang_step_decreases:
  assumes inv: "hang_inv v n s" and st: "hang_step v n s t"
  shows "hang_rank n t < hang_rank n s"
proof -
  have w: "workers_ok n s" using inv by (simp add: hang_inv_def)
  have ne: "\<not> h_exited s" using st by (simp add: hang_step_def)
  have pos: "0 < hmain_rank n (h_main s)" by (cases "h_main s") simp_all
  from st consider "hang_move v n s t" | "t = s\<lparr>h_exited := True\<rparr>" by (auto simp: hang_step_def)
  then show ?thesis
  proof cases
    case 1
    then show ?thesis
    proof cases
      case (h_spawn i)
      then have "h_pc s i = P_None" using w by (simp add: workers_ok_def)
      then show ?thesis using h_spawn ne pc_point[of i n P_Setup s] by (simp add: hang_rank_def)
    next
      case (p_setup i)
      then show ?thesis using ne pc_point[of i n P_Lock s] in_hang[OF w, of i] by (simp add: hang_rank_def)
    next
      case (p_lock i)
      then show ?thesis using ne pc_point[of i n P_Inc s] in_hang[OF w, of i] by (simp add: hang_rank_def)
    next
      case (p_inc i)
      then show ?thesis using ne pc_point[of i n P_Signal s] in_hang[OF w, of i] by (simp add: hang_rank_def)
    next
      case (p_signal i)
      then show ?thesis using ne pc_point[of i n P_Unlock s] in_hang[OF w, of i] by (simp add: hang_rank_def)
    next
      case (p_unlock i)
      then show ?thesis using ne pc_point[of i n P_Hang s] in_hang[OF w, of i] by (simp add: hang_rank_def)
    next
      case (p_hang i)
      then show ?thesis using ne pc_point[of i n P_Pass s] in_hang[OF w, of i] by (simp add: hang_rank_def)
    next
      case (p_pass i)
      then show ?thesis using ne pc_point[of i n P_Loop s] in_hang[OF w, of i] by (simp add: hang_rank_def)
    qed (use ne in \<open>simp_all add: hang_rank_def\<close>)
  next
    case 2
    then show ?thesis using ne pos by (simp add: hang_rank_def)
  qed
qed

text \<open>The start-up has ended: in an exit because some call failed, or with all threads at work.\<close>

definition started :: "hang_env \<Rightarrow> nat \<Rightarrow> hang \<Rightarrow> bool" where
  "started v n s \<longleftrightarrow>
     (if h_exited s then \<not> all_succeed v n
      else all_succeed v n \<and> h_main s = H_Ret \<and> h_init s = None \<and> h_hang s = None \<and> (\<forall>i < n. h_pc s i = P_Loop))"

text \<open>Where the threads are when none can move.\<close>

lemma stuck_places:
  assumes inv: "locks_ok s" and nm: "\<And>t. \<not> hang_move v n s t" and nf: "\<not> hang_fail v n s"
  shows "h_main s = H_Wait \<or> h_main s = H_Ret \<or> h_main s = H_Hang" "h_init s = None"
    "h_pc s i = P_None \<or> h_pc s i = P_Hang \<or> h_pc s i = P_Loop"
    "h_hang s = Some Starter \<and> main_hangs (h_main s) \<or> h_hang s = None"
proof -
  have lk: "h_init s = Some Starter \<longleftrightarrow> main_inits (h_main s)" "h_init s = Some (Hanger i) \<longleftrightarrow> pc_inits (h_pc s i)"
    "h_hang s = Some Starter \<longleftrightarrow> main_hangs (h_main s)" "h_hang s = Some (Hanger i) \<longleftrightarrow> h_pc s i = P_Pass" for i
    using inv unfolding locks_ok_def by blast+
  have np: "h_pc s i \<noteq> P_Setup" "h_pc s i \<noteq> P_Inc" "h_pc s i \<noteq> P_Signal" "h_pc s i \<noteq> P_Unlock" "h_pc s i \<noteq> P_Pass" for i
    using nm nf hang_move.intros(11,13,14,15,17)[of s i v n] f_setup[of s i v n] by metis+
  have nh: "h_main s \<noteq> H_Attr" "h_main s \<noteq> H_Spawn i" "h_main s \<noteq> H_Check" "h_main s \<noteq> H_Unlock" "h_main s \<noteq> H_Release" for i
    using nm nf hang_move.intros(1,3,4,6,8,9,10)[of s] f_attr[of s v n] f_create[of s i n v] by metis+
  show init: "h_init s = None"
  proof (cases "h_init s")
    case (Some p)
    then show ?thesis using lk(1) lk(2) np nh by (cases p) auto
  qed simp
  show "h_main s = H_Wait \<or> h_main s = H_Ret \<or> h_main s = H_Hang"
    using nm hang_move.intros(5,7)[of s] init nh by (cases "h_main s") (auto; metis)+
  show "h_pc s i = P_None \<or> h_pc s i = P_Hang \<or> h_pc s i = P_Loop"
    using nm p_lock[of s i v n] init np[of i] by (cases "h_pc s i") auto
  show "h_hang s = Some Starter \<and> main_hangs (h_main s) \<or> h_hang s = None"
  proof (cases "h_hang s")
    case (Some p)
    then show ?thesis using lk(3) lk(4) np(5) by (cases p) auto
  qed simp
qed

lemma hang_no_deadlock:
  assumes inv: "hang_inv v n s" and stuck: "\<And>t. \<not> hang_step v n s t"
  shows "started v n s"
proof (cases "h_exited s")
  case True
  then show ?thesis using inv by (simp add: hang_inv_def started_def)
next
  case False
  then have nm: "\<not> hang_move v n s t" and nf: "\<not> hang_fail v n s" for t using stuck unfolding hang_step_def by blast+
  have i: "locks_ok s" "workers_ok n s" "waits_ok n s" "calls_ok v s" using inv by (simp_all add: hang_inv_def)
  note at = stuck_places[OF i(1) nm nf]
  have "h_main s \<noteq> H_Wait"
  proof
    assume "h_main s = H_Wait"
    then obtain k where "k < n" "to_signal (h_pc s k)" using i(3) unfolding waits_ok_def by blast
    then show False using at(3)[of k] by auto
  qed
  moreover have "h_main s \<noteq> H_Hang"
  proof
    assume h: "h_main s = H_Hang"
    then have "h_hang s = None" using at(4) by auto
    then show False using nm h_take[OF h] by blast
  qed
  ultimately have ret: "h_main s = H_Ret" using at(1) by blast
  then have free: "h_hang s = None" using at(4) by auto
  have loop: "h_pc s k = P_Loop" if "k < n" for k
  proof -
    have "h_pc s k \<noteq> P_None" using i(2) ret that by (simp add: workers_ok_def)
    moreover have "h_pc s k \<noteq> P_Hang" using nm p_hang[of s k v n] free by blast
    ultimately show ?thesis using at(3)[of k] by blast
  qed
  have "all_succeed v n" using i(4) loop ret unfolding calls_ok_def all_succeed_def by force
  then show ?thesis using False ret at(2) free loop by (simp add: started_def)
qed

interpretation hang: live_system hang_init "hang_any v n" "hang_inv v n" "hang_step v n" "hang_rank n" "started v n" for v n
proof unfold_locales
  show "hang_any v n s t" if "hang_step v n s t" for s t using that by (simp add: hang_any_def)
qed (rule hang_inv_init hang_inv_step hang_step_decreases hang_no_deadlock; assumption)+

text \<open>Once the main thread has seen all workers counted, and once a worker serves, all are set up.\<close>

lemma started_all_setup:
  assumes r: "reach hang_init (hang_any v n) s" and m: "h_main s \<in> {H_Unlock, H_Release, H_Ret}" and j: "j < n"
  shows "he_setup v j"
proof -
  have "hang_inv v n s" by (rule hang.reach_inv[OF r])
  then have inv: "workers_ok n s" "waits_ok n s" "calls_ok v s" by (simp_all add: hang_inv_def)
  have "has_counted (h_pc s j)" using saw_all_counted[OF inv(1,2) _ j] m by auto
  then show ?thesis using inv(3) unfolding calls_ok_def by fastforce
qed

lemma serving_all_setup:
  assumes r: "reach hang_init (hang_any v n) s" and i: "h_pc s i \<in> {P_Pass, P_Loop}" and j: "j < n"
  shows "he_setup v j"
proof -
  have "hang_inv v n s" by (rule hang.reach_inv[OF r])
  then have "h_main s = H_Ret" using i unfolding hang_inv_def waits_ok_def by blast
  then show ?thesis using started_all_setup[OF r _ j] by simp
qed

section \<open>Properties\<close>

text \<open>
  C14: The start-up of the epoll, io_uring and threaded servers and of the load generator always ends:
  the threads' own steps cannot go on for ever, and they end with the main thread past
  \<open>init_threads\<close>, both locks free and every worker in its loop if every call succeeds, and in an exit
  of the process otherwise.  No wake-up is lost and nobody deadlocks on the two locks.
\<close>

theorem hang_barrier_completes:
  assumes "reach hang_init (hang_any v n) s"
  shows "(\<exists>t. (hang_step v n)\<^sup>*\<^sup>* s t \<and> started v n t) \<and>
    (\<forall>t. (hang_step v n)\<^sup>*\<^sup>* s t \<and> (\<forall>u. \<not> hang_step v n t u) \<longrightarrow> started v n t) \<and>
    \<not> (\<exists>f. f 0 = s \<and> (\<forall>k. hang_step v n (f k) (f (Suc k))))"
  by (rule hang.completes[OF assms])

definition hang_start :: hang where
  "hang_start = \<lparr>h_init = None, h_hang = None, h_count = 0, h_main = H_Attr, h_pc = (\<lambda>_. P_None), h_exited = False\<rparr>"

lemma hang_start_reach: "reach hang_init (hang_any v n) hang_start"
  by (rule reach_init) (simp add: hang_init_def hang_start_def)

definition good_calls :: hang_env where
  "good_calls = \<lparr>he_attr = True, he_create = (\<lambda>_. True), he_setup = (\<lambda>_. True)\<rparr>"

theorem hang_barrier_completes_witness:
  "\<exists>t. (hang_step good_calls 3)\<^sup>*\<^sup>* hang_start t \<and> h_main t = H_Ret \<and> h_pc t 2 = P_Loop"
proof -
  obtain t where t: "(hang_step good_calls 3)\<^sup>*\<^sup>* hang_start t" "started good_calls 3 t"
    using hang_barrier_completes[OF hang_start_reach] by blast
  have "all_succeed good_calls 3" by (simp add: all_succeed_def good_calls_def)
  then have "h_main t = H_Ret \<and> h_pc t 2 = P_Loop" using t(2) by (auto simp: started_def split: if_splits)
  with t(1) show ?thesis by blast
qed

text \<open>
  C28: In every interleaving of that start-up: a worker is past \<open>worker_hang_lock\<close> only after the main
  thread released it, and then every worker has finished its set-up (so \<open>threads[cpu]\<close> is filled in for
  all of them before one serves a connection); \<open>init_threads\<close> leaves its wait only then; and each of
  the two locks has at most one holder.
\<close>

theorem hang_barrier_safety:
  assumes "reach hang_init (hang_any v n) s"
  shows "((\<exists>i. h_pc s i \<in> {P_Pass, P_Loop}) \<longrightarrow> h_main s = H_Ret) \<and>
    (h_main s \<in> {H_Unlock, H_Release, H_Ret} \<longrightarrow> h_count s = n \<and> (\<forall>j < n. has_counted (h_pc s j) \<and> he_setup v j)) \<and>
    \<not> (main_inits (h_main s) \<and> pc_inits (h_pc s i)) \<and> (pc_inits (h_pc s i) \<longrightarrow> pc_inits (h_pc s j) \<longrightarrow> i = j) \<and>
    \<not> (main_hangs (h_main s) \<and> h_pc s i = P_Pass) \<and> (h_pc s i = P_Pass \<longrightarrow> h_pc s j = P_Pass \<longrightarrow> i = j)"
proof -
  have "hang_inv v n s" by (rule hang.reach_inv[OF assms])
  then have i: "locks_ok s" "workers_ok n s" "waits_ok n s" "calls_ok v s" by (simp_all add: hang_inv_def)
  have lk: "h_init s = Some Starter \<longleftrightarrow> main_inits (h_main s)" "h_init s = Some (Hanger k) \<longleftrightarrow> pc_inits (h_pc s k)"
    "h_hang s = Some Starter \<longleftrightarrow> main_hangs (h_main s)" "h_hang s = Some (Hanger k) \<longleftrightarrow> h_pc s k = P_Pass" for k
    using i(1) unfolding locks_ok_def by blast+
  have ret: "h_main s = H_Ret" if "h_pc s k \<in> {P_Pass, P_Loop}" for k using i(3) that unfolding waits_ok_def by blast
  have all: "h_count s = n" "j < n \<Longrightarrow> has_counted (h_pc s j) \<and> he_setup v j" if "h_main s \<in> {H_Unlock, H_Release, H_Ret}" for j
  proof -
    have sw: "saw_all (h_main s)" using that by auto
    then show "h_count s = n" using i(3) unfolding waits_ok_def by blast
    have c: "has_counted (h_pc s j)" if "j < n" by (rule saw_all_counted[OF i(2,3) sw that])
    then show "has_counted (h_pc s j) \<and> he_setup v j" if "j < n" using i(4) that unfolding calls_ok_def by fastforce
  qed
  have "\<not> (main_inits (h_main s) \<and> pc_inits (h_pc s i))" using lk(1) lk(2)[of i] by (metis option.inject party.distinct(1))
  moreover have "i = j" if "pc_inits (h_pc s i)" "pc_inits (h_pc s j)"
    using that lk(2)[of i] lk(2)[of j] by (metis option.inject party.inject)
  moreover have "\<not> (main_hangs (h_main s) \<and> h_pc s i = P_Pass)" using lk(3) lk(4)[of i] by (metis option.inject party.distinct(1))
  moreover have "i = j" if "h_pc s i = P_Pass" "h_pc s j = P_Pass"
    using that lk(4)[of i] lk(4)[of j] by (metis option.inject party.inject)
  ultimately show ?thesis using ret all by blast
qed

theorem hang_barrier_safety_witness:
  "\<exists>t. reach hang_init (hang_any good_calls 2) t \<and> h_main t = H_Ret \<and> h_count t = 2"
proof -
  have "all_succeed good_calls 2" by (simp add: all_succeed_def good_calls_def)
  obtain t where t: "(hang_step good_calls 2)\<^sup>*\<^sup>* hang_start t" "started good_calls 2 t"
    using hang.runs_to_end[OF hang.reach_inv[OF hang_start_reach]] by blast
  have m: "h_main t = H_Ret" using t(2) \<open>all_succeed good_calls 2\<close> by (auto simp: started_def split: if_splits)
  have r: "reach hang_init (hang_any good_calls 2) t" by (rule hang.reach_own[OF t(1) hang_start_reach])
  from hang_barrier_safety[OF r] m have "h_count t = 2" by simp
  with r m show ?thesis by blast
qed

end
