(* ===== verification/Server_Startup.thy ===== *)
theory Server_Startup
  imports Hang_Barrier Epoll_Service Echo_Threads Uring_Service
begin

text \<open>
  \<open>init_threads\<close> of the epoll, io_uring and threaded servers: their start-up as instances of the
  barrier, with the set-up of their workers, and the states the workers start to serve from.
\<close>

text \<open>What the calls of \<open>init_threads\<close> return; a pthread function returns 0 on success.\<close>

record start_calls =
  sc_attr :: int
  sc_detach :: int
  sc_affinity :: "nat \<Rightarrow> int"
  sc_create :: "nat \<Rightarrow> int"

definition start_with :: "start_calls \<Rightarrow> (nat \<Rightarrow> bool) \<Rightarrow> hang_env" where
  "start_with c setup =
     \<lparr>he_attr = (sc_attr c = 0 \<and> sc_detach c = 0), he_create = (\<lambda>i. sc_affinity c i = 0 \<and> sc_create c i = 0), he_setup = setup\<rparr>"

definition epoll_start :: "start_calls \<Rightarrow> (nat \<Rightarrow> epoll_env) \<Rightarrow> int \<Rightarrow> nat \<Rightarrow> (nat \<Rightarrow> nat) \<Rightarrow> nat \<Rightarrow> hang_env" where
  "epoll_start c su mx sz at nr_cpus = start_with c (\<lambda>i. ok (epoll_setup (su i) mx sz at nr_cpus i))"

definition uring_start ::
  "start_calls \<Rightarrow> (nat \<Rightarrow> uring_setup_env) \<Rightarrow> uring_env \<Rightarrow> int \<Rightarrow> nat \<Rightarrow> (nat \<Rightarrow> nat) \<Rightarrow> nat \<Rightarrow> hang_env" where
  "uring_start c su env mx sz at nr_cpus = start_with c (\<lambda>i. ok (uring_setup (su i) env mx sz at nr_cpus i))"

definition threads_start :: "start_calls \<Rightarrow> (nat \<Rightarrow> thread_env) \<Rightarrow> nat \<Rightarrow> hang_env" where
  "threads_start c su cpus = start_with c (\<lambda>i. ok (thread_setup (su i) cpus i))"

lemma serving_start_with:
  "reach hang_init (hang_any (start_with c setup) n) s \<Longrightarrow> h_pc s i \<in> {P_Pass, P_Loop} \<Longrightarrow> j < n \<Longrightarrow> setup j"
  using serving_all_setup[of "start_with c setup" n s i j] by (simp add: start_with_def)

section \<open>Properties\<close>

text \<open>
  C16: Whenever a worker of the epoll, io_uring or threaded server serves, in whatever order the threads
  started, every worker was set up completely, and each started from the initial state its theorems
  ask for: no connection, well-formed tables, on io_uring an accept and an event read queued.
\<close>

theorem servers_start_clean:
  assumes "0 < sz" "sz < 2 ^ 64" "h_pc s i \<in> {P_Pass, P_Loop}" "j < n"
  shows "(reach hang_init (hang_any (epoll_start c se mx sz at n) n) s \<longrightarrow>
      (\<exists>a io. epoll_setup (se j) mx sz at n j = Inr (a, io) \<and> idle mx a \<and> msg_size a = sz \<and> index a = j)) \<and>
    (reach hang_init (hang_any (uring_start c su env mx sz at n) n) s \<longrightarrow>
      (\<exists>u io. uring_setup (su j) env mx sz at n j = Inr (u, io) \<and> ring_init (io_listen io) mx sz (fresh_ring u (\<lambda>_. [])))) \<and>
    (reach hang_init (hang_any (threads_start c st n) n) s \<longrightarrow> (\<exists>io. thread_setup (st j) n j = Inr io))"
proof (intro conjI impI)
  assume "reach hang_init (hang_any (epoll_start c se mx sz at n) n) s"
  from serving_start_with[OF this[unfolded epoll_start_def] assms(3,4)] obtain z where
    "epoll_setup (se j) mx sz at n j = Inr z" by (rule okE)
  then obtain a io where "epoll_setup (se j) mx sz at n j = Inr (a, io)" by (cases z) blast
  then show "\<exists>a io. epoll_setup (se j) mx sz at n j = Inr (a, io) \<and> idle mx a \<and> msg_size a = sz \<and> index a = j"
    using epoll_setup_idle[OF _ assms(1)] by blast
next
  assume "reach hang_init (hang_any (uring_start c su env mx sz at n) n) s"
  from serving_start_with[OF this[unfolded uring_start_def] assms(3,4)] obtain z where
    "uring_setup (su j) env mx sz at n j = Inr z" by (rule okE)
  then obtain u io where "uring_setup (su j) env mx sz at n j = Inr (u, io)" by (cases z) blast
  note s = this
  have "ring_init (io_listen io) mx sz (fresh_ring u (\<lambda>_. []))"
    by (rule uring_setup_init[OF s assms(1,2), where q = "\<lambda>_. []"]) (rule refl)
  with s show "\<exists>u io. uring_setup (su j) env mx sz at n j = Inr (u, io) \<and> ring_init (io_listen io) mx sz (fresh_ring u (\<lambda>_. []))"
    by blast
next
  assume "reach hang_init (hang_any (threads_start c st n) n) s"
  from serving_start_with[OF this[unfolded threads_start_def] assms(3,4)] obtain io where "thread_setup (st j) n j = Inr io" by (rule okE)
  then show "\<exists>io. thread_setup (st j) n j = Inr io" by blast
qed

definition granting_calls :: start_calls where
  "granting_calls = \<lparr>sc_attr = 0, sc_detach = 0, sc_affinity = (\<lambda>_. 0), sc_create = (\<lambda>_. 0)\<rparr>"

definition granting_thread :: thread_env where
  "granting_thread = \<lparr>su_calloc_me = True, su_msg_header = True, su_msg_entry = (\<lambda>_. True), su_conn_header = True,
     su_conn_entry = (\<lambda>_. True), su_sock = \<lparr>sk_socket = 3, sk_reuseport = 0, sk_reuseaddr = 0, sk_bind = 0, sk_listen = 0\<rparr>,
     su_perf = (\<lambda>pe pid cpu g. 11, \<lambda>fd. 100 + fd), te_attr_init = 0, te_attr_detach = 0\<rparr>"

lemma granting_runs: "i < n \<Longrightarrow> ok (thread_setup granting_thread n i)"
proof -
  assume "i < n"
  moreover have "open_listener (su_sock granting_thread) = Inr 3" by (simp add: open_listener_def granting_thread_def)
  moreover have "\<exists>p. setup_perf (su_perf granting_thread) i = Inr p"
    by (simp add: setup_perf_def perf_attrs_def granting_thread_def Let_def)
  then obtain p where "setup_perf (su_perf granting_thread) i = Inr p" by blast
  ultimately show ?thesis by (simp add: thread_setup_def) (simp add: granting_thread_def)
qed

theorem servers_start_clean_witness:
  "\<exists>s io. reach hang_init (hang_any (threads_start granting_calls (\<lambda>_. granting_thread) 2) 2) s \<and>
     h_pc s 0 = P_Loop \<and> thread_setup granting_thread 2 1 = Inr io"
proof -
  let ?v = "threads_start granting_calls (\<lambda>_. granting_thread) 2"
  have ok: "all_succeed ?v 2"
    using granting_runs[of _ 2] by (simp add: all_succeed_def threads_start_def start_with_def granting_calls_def)
  obtain t where t: "(hang_step ?v 2)\<^sup>*\<^sup>* hang_start t" "started ?v 2 t"
    using hang.runs_to_end[OF hang.reach_inv[OF hang_start_reach]] by blast
  have r: "reach hang_init (hang_any ?v 2) t" by (rule hang.reach_own[OF t(1) hang_start_reach])
  have l: "h_pc t 0 = P_Loop" using t(2) ok by (auto simp: started_def split: if_splits)
  have "(0 :: nat) < 4" "(4 :: nat) < 2 ^ 64" "h_pc t 0 \<in> {P_Pass, P_Loop}" "(1 :: nat) < 2" using l by simp_all
  from servers_start_clean[OF this, of granting_calls _ _ _ _ _ "\<lambda>_. granting_thread"] r l show ?thesis by blast
qed

end
