(* ===== verification/Server_Rounds.thy ===== *)
theory Server_Rounds
  imports Echo_System
begin

text \<open>
  A worker of the upcall server from its set-up through any number of rounds of its endless loop,
  the statistics included: every state in between is well-typed, the only ways to stop are a refused
  allocation or system call and the end of the range of \<open>int\<close>, and all buffers stay accounted for.
\<close>

section \<open>Well-typed loop states\<close>

definition stats_typed :: "stats_cfg \<Rightarrow> stats_tls \<Rightarrow> bool" where
  "stats_typed c st \<longleftrightarrow> (case batch_slot st of None \<Rightarrow> True | Some sl \<Rightarrow> cfg_wf c \<and> length sl = batch_stride c)"

definition loop_typed :: "stats_cfg \<Rightarrow> (echo_fn, echo, 'k) loop_state \<Rightarrow> bool" where
  "loop_typed c s \<longleftrightarrow> stats_typed c (lp_stats s) \<and> echo_wf (lp_app s) \<and> buffered (lp_app s) \<and>
     0 < msg_size (lp_app s) \<and> loop_ready (lp_worker s)"

lemma note_utime_typed: "stats_typed c st \<Longrightarrow> \<exists>st'. note_utime c t st = Inr st' \<and> stats_typed c st'"
proof (cases "batch_slot st")
  case (Some sl)
  assume "stats_typed c st"
  then have w: "cfg_wf c" "length sl = batch_stride c" using Some by (simp_all add: stats_typed_def)
  from note_utime_counts[OF w Some] obtain sl' where "note_utime c t st = Inr (st\<lparr>batch_slot := Some sl'\<rparr>)"
    "length sl' = length sl" by metis
  then show ?thesis using w by (simp add: stats_typed_def)
qed (simp add: note_utime_def)

lemma note_submit_typed: "stats_typed c st \<Longrightarrow> \<exists>st'. note_submit c t0 t1 n st = Inr st' \<and> stats_typed c st'"
proof (cases "batch_slot st")
  case (Some sl)
  assume "stats_typed c st"
  then have w: "cfg_wf c" "length sl = batch_stride c" using Some by (simp_all add: stats_typed_def)
  from note_submit_counts[OF w Some] obtain sl' where "note_submit c t0 t1 n st = Inr (st\<lparr>batch_slot := Some sl', proc_start := t1\<rparr>)"
    "length sl' = length sl" by metis
  then show ?thesis using w by (simp add: stats_typed_def)
qed (simp add: note_submit_def)

lemma hand_over_stops: "loop_ready w \<Longrightarrow> hand_over m w = Inl x \<Longrightarrow> out_of_room x"
  using add_buffers_stops[of w m "Ptr (buffers_at w) 0" "buf_cnt w" x]
  by (auto simp: hand_over_def loop_ready_def out_of_room_def split: if_splits)

text \<open>After the submission the pool and the batch are empty, and the callbacks' invariant holds.\<close>

lemma after_submit_ready:
  assumes "worker_wf w" "0 < buf_max w" "length outs \<le> recv_cnt w"
  shows "handler_ready (after_submit outs w)"
proof -
  have "pending (after_submit outs w) = []" by (simp add: pending_def after_submit_def)
  then show ?thesis using assms by (auto simp: handler_ready_def worker_wf_def no_vec_def after_submit_def)
qed

lemma after_submit_inv:
  assumes "loop_typed c s" "hand_over m (lp_worker s) = Inr w" "length outs \<le> recv_cnt w"
  shows "echo_inv (lp_app s, after_submit outs w)"
  using assms(1) hand_over_Inr[OF _ assms(2)] after_submit_ready[OF _ _ assms(3)]
  by (simp add: loop_typed_def echo_inv_def)

section \<open>Rounds\<close>

text \<open>A round has an allocator, two clock readings, a kernel, and what the callbacks see of memory.\<close>

type_synonym 'k round = "echo_fn mem_env \<times> (u64 \<times> u64) \<times> (echo_fn, 'k) kernel \<times> echo_env"

fun as_round :: "'k round \<Rightarrow> echo_fn mem_env \<times> (u64 \<times> u64) \<times> (echo_fn, 'k) kernel \<times> (echo_fn, echo) handler" where
  "as_round (m, clk, submit, env) = (m, clk, submit, echo_dispatch env)"

fun round_ok :: "('k \<Rightarrow> ptr multiset) \<Rightarrow> 'k round \<Rightarrow> bool" where
  "round_ok held (m, clk, submit, env) \<longleftrightarrow> upcall_kernel submit held brings \<and> mem_granted env"

definition events_expected :: "'k round \<Rightarrow> (echo_fn, echo, 'k) loop_state \<Rightarrow> bool" where
  "events_expected r s = (case r of (m, clk, submit, env) \<Rightarrow>
     (case hand_over m (lp_worker s) of
        Inl _ \<Rightarrow> True
      | Inr w \<Rightarrow>
          (case fst (submit (lp_kernel s) (pending w) (vecs w) (recv_cnt w)) of
             None \<Rightarrow> True
           | Some outs \<Rightarrow> all_expected (expects env) (echo_dispatch env) outs (lp_app s, after_submit outs w))))"

text \<open>Each round's completions are ones the server waits for in the state it has reached.\<close>

fun expected_rounds :: "stats_cfg \<Rightarrow> 'k round list \<Rightarrow> (echo_fn, echo, 'k) loop_state \<Rightarrow> bool" where
  "expected_rounds c [] s = True"
| "expected_rounds c (r # rs) s \<longleftrightarrow> events_expected r s \<and>
     (case worker_rounds c None [as_round r] s of Inl _ \<Rightarrow> True | Inr s' \<Rightarrow> expected_rounds c rs s')"

lemma round_expected:
  assumes "loop_typed c s" "events_expected (m, clk, submit, env) s" "upcall_kernel submit held brings"
  shows "expected_round echo_inv (expects env) m submit (echo_dispatch env) s"
proof (cases "hand_over m (lp_worker s)")
  case (Inr w)
  obtain r k where rk: "submit (lp_kernel s) (pending w) (vecs w) (recv_cnt w) = (r, k)" by force
  show ?thesis
  proof (cases r)
    case (Some outs)
    have "length outs \<le> recv_cnt w" using upcall_kernel.submit_room[OF assms(3) rk[unfolded Some]] .
    then show ?thesis using assms(2) rk Some Inr after_submit_inv[OF assms(1) Inr]
      by (simp add: expected_round_def events_expected_def)
  qed (simp add: expected_round_def Inr rk)
qed (simp add: expected_round_def)

text \<open>One round: it stops for want of room, or leads to a well-typed state with the same buffers.\<close>

lemma round_stops:
  assumes t: "loop_typed c s" and k: "upcall_kernel submit held brings" and g: "mem_granted env"
    and e: "events_expected (m, clk, submit, env) s"
    and run: "run_event_loop m c clk submit (echo_dispatch env) s = Inl x"
  shows "out_of_room x"
proof (cases "hand_over m (lp_worker s)")
  case (Inl y)
  then show ?thesis using run t hand_over_stops[of "lp_worker s" m y] by (simp add: run_event_loop_def loop_typed_def)
next
  case (Inr w)
  from t obtain st where st: "note_utime c (fst clk) (lp_stats s) = Inr st" "stats_typed c st"
    using note_utime_typed[of c "lp_stats s"] by (auto simp: loop_typed_def)
  obtain r k' where rk: "submit (lp_kernel s) (pending w) (vecs w) (recv_cnt w) = (r, k')" by force
  show ?thesis
  proof (cases r)
    case None
    then show ?thesis using run Inr st rk by (simp add: run_event_loop_def out_of_room_def)
  next
    case (Some outs)
    have l: "length outs \<le> recv_cnt w" using upcall_kernel.submit_room[OF k rk[unfolded Some]] .
    obtain st' where st': "note_submit c (fst clk) (snd clk) (length outs) st = Inr st'"
      using note_submit_typed[OF st(2)] by blast
    have "dispatch_all (echo_dispatch env) outs (lp_app s, after_submit outs w) = Inl x"
      using run Inr st rk Some l st'
      by (cases "dispatch_all (echo_dispatch env) outs (lp_app s, after_submit outs w)") (auto simp: run_event_loop_def not_less)
    moreover have "all_expected (expects env) (echo_dispatch env) outs (lp_app s, after_submit outs w)"
      using e Inr rk Some by (simp add: events_expected_def)
    ultimately show ?thesis using dispatch_all_stops[OF after_submit_inv[OF t Inr l] _ g] by blast
  qed
qed

lemma round_typed:
  assumes t: "loop_typed c s" and k: "upcall_kernel submit held brings"
    and e: "events_expected (m, clk, submit, env) s"
    and run: "run_event_loop m c clk submit (echo_dispatch env) s = Inr s'"
  shows "loop_typed c s' \<and> ledger held (\<lambda>_. {#}) s' = ledger held (\<lambda>_. {#}) s"
proof -
  have "upcall_system submit held brings (echo_dispatch env) echo_inv (expects env) (\<lambda>_. {#})"
    by (rule upcall_system.intro[OF k app.upcall_app_axioms])
  moreover have "loop_ready (lp_worker s)" using t by (simp add: loop_typed_def)
  ultimately have r: "ledger held (\<lambda>_. {#}) s' = ledger held (\<lambda>_. {#}) s" "echo_inv (lp_app s', lp_worker s')"
    "loop_ready (lp_worker s')"
    using upcall_system.run_event_loop_ledger[OF _ _ round_expected[OF t e k] run] by blast+
  from run obtain w st n st' where "note_utime c (fst clk) (lp_stats s) = Inr st"
    "note_submit c (fst clk) (snd clk) n st = Inr st'" "lp_stats s' = st'"
    by (rule run_event_loop_Inr) auto
  then have "stats_typed c (lp_stats s')"
    using note_utime_typed[of c "lp_stats s" "fst clk"] note_submit_typed[of c st "fst clk" "snd clk" n] t
    by (auto simp: loop_typed_def)
  then show ?thesis using r by (simp add: loop_typed_def echo_inv_def)
qed

lemma rounds_typed:
  "loop_typed c s \<Longrightarrow> \<forall>r \<in> set rs. round_ok held r \<Longrightarrow> expected_rounds c rs s \<Longrightarrow>
    (case worker_rounds c None (map as_round rs) s of
       Inl x \<Rightarrow> out_of_room x
     | Inr s' \<Rightarrow> loop_typed c s' \<and> ledger held (\<lambda>_. {#}) s' = ledger held (\<lambda>_. {#}) s)"
proof (induction rs arbitrary: s)
  case (Cons r rs)
  obtain m clk submit env where r: "r = (m, clk, submit, env)" by (cases r) auto
  have k: "upcall_kernel submit held brings" "mem_granted env" and e: "events_expected (m, clk, submit, env) s"
    using Cons.prems r by simp_all
  show ?case
  proof (cases "run_event_loop m c clk submit (echo_dispatch env) s")
    case (Inl x)
    then show ?thesis using round_stops[OF Cons.prems(1) k e Inl] by (simp add: r)
  next
    case (Inr s1)
    note t = round_typed[OF Cons.prems(1) k(1) e Inr]
    have "expected_rounds c rs s1" using Cons.prems(3) Inr by (simp add: r)
    from Cons.IH[OF conjunct1[OF t] _ this] Cons.prems(2) show ?thesis using Inr t by (auto simp: r split: sum.splits)
  qed
qed simp

text \<open>What the set-up of a worker leaves is well-typed, with the whole pool in the pending hand-over.\<close>

lemma setup_typed:
  assumes "upcall_worker_setup m n bsz = Inr w0" and "0 < n" and "n < 2 ^ 31" and "0 < sz"
    and "upcall_echo_setup su m mx sz at nr i w0 = Inr (a, io, w)" and "stats_typed c st"
  shows "loop_typed c \<lparr>lp_kernel = k, lp_stats = st, lp_app = a, lp_worker = w\<rparr> \<and>
    ledger held (\<lambda>_. {#}) \<lparr>lp_kernel = k, lp_stats = st, lp_app = a, lp_worker = w\<rparr> =
      held k + mset (map (\<lambda>i. Ptr (mem_bufs m i) 0) [0..<n])"
proof -
  note s = started_init[OF assms(1-5)] and u = upcall_worker_setup_Inr[OF assms(1,3)]
  from assms(5) obtain l where l: "add_accept m l (Some My_Accept) w0 = Inr w"
    by (auto simp: upcall_echo_setup_def rbind_eq_Inr_iff split: if_splits)
  have w: "worker_wf w" "same_pool w0 w" using add_request_Inr[OF _ l[unfolded add_accept_request]] u by auto
  have "vecs w0 = map (\<lambda>i. \<lparr>iov_base = Ptr (mem_bufs m i) 0, iov_len = bsz\<rparr>) [0..<n]"
    using u by (simp add: vecs_def vec_of_def)
  then have "bases (vecs w) = mset (map (\<lambda>i. Ptr (mem_bufs m i) 0) [0..<n])"
    using s by (simp add: bases_def comp_def)
  moreover have "pool w = []" using s by (simp add: pool_def)
  moreover have "loop_ready w" using w s u assms(2) by (simp add: loop_ready_def same_pool_def)
  moreover have "echo_wf a" "buffered a" "0 < msg_size a" using s by (auto simp: srv_init_def started_def echo_inv_def)
  ultimately show ?thesis using assms(6) by (simp add: loop_typed_def ledger_def)
qed

section \<open>Properties\<close>


text \<open>
  A kernel that answers the first read it is given with four bytes, or else the first accept with
  descriptor 5, and keeps the buffers it has not handed out.
\<close>

definition answer_submit :: "(echo_fn, ptr list) kernel" where
  "answer_submit k evs io n =
     (let h = k @ map iov_base io in
      if n = 0 then (Some [], h)
      else case (filter (\<lambda>e. ev_fn e = Some My_Read) evs, h, filter (\<lambda>e. ev_fn e = Some My_Accept) evs) of
        (e # _, b # bs, _) \<Rightarrow> (Some [e\<lparr>ev_result := 4, ev_buf := b, ev_len := 4\<rparr>], bs)
      | (_, _, e # _) \<Rightarrow> (Some [e\<lparr>ev_result := 5\<rparr>], h)
      | _ \<Rightarrow> (Some [], h))"

interpretation answer: upcall_kernel answer_submit mset brings
proof unfold_locales
  fix k k' :: "ptr list" and evs outs :: "echo_fn up_event list" and io n
  assume s: "answer_submit k evs io n = (Some outs, k')"
  show "length outs \<le> n" using s by (auto simp: answer_submit_def Let_def split: list.splits if_splits)
  have h: "mset (k @ map iov_base io) = mset k + bases io" by (simp add: bases_def)
  have r: "ev_fn e = Some f" if "filter (\<lambda>e. ev_fn e = Some f) evs = e # es" for f e es
    using that by (metis (mono_tags, lifting) filter_eq_ConsD)
  consider "outs = []" "k' = k @ map iov_base io"
    | e es where "filter (\<lambda>e. ev_fn e = Some My_Accept) evs = e # es" "outs = [e\<lparr>ev_result := 5\<rparr>]" "k' = k @ map iov_base io"
    | e es b where "filter (\<lambda>e. ev_fn e = Some My_Read) evs = e # es" "k @ map iov_base io = b # k'"
        "outs = [e\<lparr>ev_result := 4, ev_buf := b, ev_len := 4\<rparr>]"
    using s unfolding answer_submit_def Let_def by (auto split: list.splits if_splits)
  then show "mset k' + (\<Sum>e \<in># mset outs. brings e) = mset k + bases io"
  proof cases
    case 1
    then show ?thesis using h by simp
  next
    case 2
    then show ?thesis using h r[OF 2(1)] by (simp add: brings_def)
  next
    case 3
    then show ?thesis using h r[OF 3(1)] by (simp add: brings_def)
  qed
qed


end
