(* ===== verification/Latency_Run.thy ===== *)
theory Latency_Run
  imports Sched_Latency
begin

text \<open>
  The latency benchmark as a whole (\<open>run_one\<close>, the loop of \<open>write_times\<close> on the bytes of two logs, and
  \<open>main\<close> of \<open>scheduler_latency/tester.c\<close>): three pairs of threads, six logs, three tables.
\<close>

section \<open>One pair of threads\<close>

text \<open>The results of the two affinity calls, and where \<open>calloc\<close> put the two logs.\<close>

record run_calls =
  rc_slp_affinity :: int
  rc_wke_affinity :: int
  rc_slp_calloc :: "nat option"
  rc_wke_calloc :: "nat option"

text \<open>The records a thread passes to \<open>tsclog_1\<close>, on whatever processor and in whatever process.\<close>

definition stamped :: "(nat \<times> nat) list \<Rightarrow> (stamp \<times> u64 list) list \<Rightarrow> bool" where
  "stamped evs rs = list_all2 (\<lambda>e r. st_now (fst r) = word_of_nat (snd e) \<and> snd r = [word_of_nat (fst e)]) evs rs"

text \<open>
  A run whose clock stays below \<open>T\<close>: it ends in an exit, or with both threads joined and their logs
  as \<open>tsclog_1\<close> has left them, each with its address.
\<close>

inductive run_one :: "run_calls \<Rightarrow> nat \<Rightarrow> nat \<Rightarrow> ((nat \<times> tsc_log) \<times> (nat \<times> tsc_log)) res \<Rightarrow> bool" for v n T where
  run_affinity: "rc_slp_affinity v \<noteq> 0 \<or> rc_wke_affinity v \<noteq> 0 \<Longrightarrow> run_one v n T (Inl (Exit 1))"
| run_slp_oom: "init_logger n (rc_slp_calloc v) = Inl e \<Longrightarrow> run_one v n T (Inl e)"
| run_wke_oom: "init_logger n (rc_wke_calloc v) = Inl e \<Longrightarrow> run_one v n T (Inl e)"
| run_joined: "rc_slp_affinity v = 0 \<Longrightarrow> rc_wke_affinity v = 0 \<Longrightarrow>
    init_logger n (rc_slp_calloc v) = Inr (sa, sl) \<Longrightarrow> init_logger n (rc_wke_calloc v) = Inr (wa, wl) \<Longrightarrow>
    reach pp_init (pp_step n) s \<Longrightarrow> pp_done n s \<Longrightarrow> pp_clock s \<le> T \<Longrightarrow>
    stamped (pp_slog s) srs \<Longrightarrow> stamped (pp_wlog s) wrs \<Longrightarrow>
    run_one v n T (Inr ((sa, log_all 1 srs sl), (wa, log_all 1 wrs wl)))"

section \<open>The table from the logs in memory\<close>

text \<open>The loop of \<open>write_times\<close> from the first entries to \<open>cur\<close>, in steps of an entry.\<close>

partial_function (option) times_loop :: "nat \<Rightarrow> nat \<Rightarrow> memory \<Rightarrow> nat \<Rightarrow> nat \<Rightarrow> memory \<Rightarrow> u64 list \<Rightarrow> u64 list option" where
  "times_loop sc se sm wc we wm out =
     (if sc \<noteq> se \<and> wc \<noteq> we then
        let st = word_of_nat (load_le 8 (sc + 8) sm); wt = word_of_nat (load_le 8 (wc + 8) wm);
            latency = (if load_le 8 (sc + 16) sm = READ then st - wt else wt - st)
        in times_loop (sc + TscLogEntrySize 1) se sm (wc + TscLogEntrySize 1) we wm (out @ [latency])
      else Some out)"

declare times_loop.simps [code]

definition latency_rows :: "rat \<Rightarrow> (nat \<times> tsc_log) \<Rightarrow> (nat \<times> tsc_log) \<Rightarrow> rat list option" where
  "latency_rows tsc_khz slp wkr =
     map_option (map (\<lambda>l. of_nat (unat (l * 1000)) / tsc_khz))
       (times_loop (fst slp + L1_CACHE_BYTES) (tl_cur (snd slp)) (tl_mem (snd slp))
                   (fst wkr + L1_CACHE_BYTES) (tl_cur (snd wkr)) (tl_mem (snd wkr)) [])"

text \<open>On whole logs the loop is the fold over their entries.\<close>

definition word_entry :: "entry \<Rightarrow> u64 \<times> u64" where
  "word_entry e = (word_of_nat (en_vals e ! 0), word_of_nat (en_tsc e))"

definition entries_at :: "nat \<Rightarrow> nat \<Rightarrow> memory \<Rightarrow> (u64 \<times> u64) list" where
  "entries_at k a m = map word_entry (read_log 1 k a m)"

lemma entries_at_Suc:
  "entries_at (Suc k) a m =
    (word_of_nat (load_le 8 (a + 16) m), word_of_nat (load_le 8 (a + 8) m)) # entries_at k (a + TscLogEntrySize 1) m"
proof -
  have "read_log 1 (Suc k) a m = read_entry 1 a m # read_log 1 k (a + TscLogEntrySize 1) m"
    by (simp add: read_log_def upt_conv_Cons map_Suc_upt[symmetric] comp_def add.assoc del: upt_Suc)
  then show ?thesis by (simp add: entries_at_def word_entry_def read_entry_def)
qed

lemma load_le_less: "load_le k a m < 256 ^ k"
proof (induction k arbitrary: a)
  case (Suc k)
  have "unat (m a) < 256" using unsigned_less[of "m a", where 'a = nat] by simp
  moreover have "load_le k (a + 1) m < 256 ^ k" by (rule Suc.IH)
  then have "Suc (load_le k (a + 1) m) * 256 \<le> 256 ^ k * 256" by (intro mult_le_mono1) simp
  ultimately show ?case by simp
qed simp

lemma load_read: "load_le 8 a m = READ \<longleftrightarrow> (word_of_nat (load_le 8 a m) :: u64) = word_of_nat READ"
  using load_le_less[of 8 a m] by (intro word_of_nat_eq[symmetric]) (simp_all add: READ_def)

lemma times_loop_entries:
  "times_loop sc (sc + n * TscLogEntrySize 1) sm wc (wc + n * TscLogEntrySize 1) wm out =
     Some (out @ latencies (entries_at n sc sm) (entries_at n wc wm))"
proof (induction n arbitrary: sc wc out)
  case 0
  then show ?case by (subst times_loop.simps) (simp add: entries_at_def read_log_def)
next
  case (Suc n)
  have ne: "x \<noteq> x + Suc n * TscLogEntrySize 1" and e: "x + Suc n * TscLogEntrySize 1 = x + TscLogEntrySize 1 + n * TscLogEntrySize 1"
    for x by (simp_all add: TscLogEntrySize_def)
  show ?case
    unfolding entries_at_Suc e using ne[unfolded e] Suc.IH[of "sc + TscLogEntrySize 1" "wc + TscLogEntrySize 1"] load_read[of "sc + 16" sm]
    by (subst times_loop.simps) (simp add: Let_def)
qed

text \<open>The log of a thread that ran all its rounds is exactly full and holds its events.\<close>

lemma joined_log:
  assumes i: "init_logger n (Some m) = Inr (a, l)" and s: "stamped evs rs" and len: "length evs = 2 * n"
  shows "\<not> tl_overflow (log_all 1 rs l) \<and> tl_cur (log_all 1 rs l) = a + L1_CACHE_BYTES + 2 * n * TscLogEntrySize 1 \<and>
    entries_at (2 * n) (a + L1_CACHE_BYTES) (tl_mem (log_all 1 rs l)) = stored evs"
proof -
  have e: "snd (rs ! i) = [word_of_nat (fst (evs ! i))]" if "i < length rs" for i
    using s that by (auto simp: stamped_def list_all2_conv_all_nth)
  have l: "length rs = 2 * n" using s len by (simp add: stamped_def list_all2_lengthD[symmetric])
  have l1: "\<forall>r \<in> set rs. length (snd r) = 1"
  proof
    fix r assume "r \<in> set rs"
    then obtain i where "i < length rs" "r = rs ! i" by (metis in_set_conv_nth)
    then show "length (snd r) = 1" using e by simp
  qed
  have h: "holds 1 (a + L1_CACHE_BYTES) (2 * n) [] l" "\<not> tl_overflow l"
    using i by (auto simp: init_logger_def Let_def log_size_def holds_def read_log_def)
  have "map word_entry (map entry_of rs) = stored evs"
    using s by (intro nth_equalityI) (auto simp: stamped_def stored_def list_all2_conv_all_nth word_entry_def entry_of_def split_def)
  then show ?thesis using log_all_holds[OF h(1) _ l1] h(2) l by (simp add: holds_def entries_at_def)
qed

lemma run_joined_table:
  assumes s: "init_logger n cs = Inr (sa, sl)" "stamped (pp_slog s) srs"
    and w: "init_logger n cw = Inr (wa, wl)" "stamped (pp_wlog s) wrs"
    and r: "reach pp_init (pp_step n) s" "pp_done n s"
  shows "latency_rows khz (sa, log_all 1 srs sl) (wa, log_all 1 wrs wl) =
      Some (write_times khz (stored (pp_slog s)) (stored (pp_wlog s))) \<and>
    \<not> tl_overflow (log_all 1 srs sl) \<and> \<not> tl_overflow (log_all 1 wrs wl)"
proof -
  obtain ms mw where m: "cs = Some ms" "cw = Some mw" using s(1) w(1) by (auto simp: init_logger_def split: option.splits)
  have "pp_inv n s" by (rule pp.reach_inv[OF r(1)])
  then have len: "length (pp_slog s) = 2 * n" "length (pp_wlog s) = 2 * n"
    using r(2) by (auto simp: pp_inv_def pp_done_def s_logged_def w_logged_def)
  note js = joined_log[OF s(1)[unfolded m(1)] s(2) len(1)] and jw = joined_log[OF w(1)[unfolded m(2)] w(2) len(2)]
  show ?thesis using js jw times_loop_entries[of "sa + L1_CACHE_BYTES" "2 * n" "tl_mem (log_all 1 srs sl)" "wa + L1_CACHE_BYTES"]
    by (simp add: latency_rows_def write_times_def)
qed

section \<open>The whole benchmark\<close>

text \<open>
  \<open>main\<close>: the pairs of \<open>bench_plan\<close> are measured one after the other, each for its file; a failed call
  ends the process before any file is written.
\<close>

type_synonym bench_result = "string \<times> (nat \<times> tsc_log) \<times> (nat \<times> tsc_log)"

inductive bench_runs :: "nat \<Rightarrow> nat \<Rightarrow> (run_calls \<times> string) list \<Rightarrow> bench_result list res \<Rightarrow> bool" for n T where
  bench_done: "bench_runs n T [] (Inr [])"
| bench_stop: "run_one v n T (Inl e) \<Longrightarrow> bench_runs n T ((v, f) # ps) (Inl e)"
| bench_next: "run_one v n T (Inr (sl, wl)) \<Longrightarrow> bench_runs n T ps r \<Longrightarrow>
    bench_runs n T ((v, f) # ps) (rbind r (\<lambda>ts. Inr ((f, sl, wl) # ts)))"

inductive_cases bench_ConsE: "bench_runs n T ((v, f) # ps) r"
inductive_cases bench_NilE: "bench_runs n T [] r"

text \<open>The files, of those that could be created.\<close>

definition bench_files :: "rat \<Rightarrow> (string \<Rightarrow> bool) \<Rightarrow> bench_result list \<Rightarrow> (string \<times> rat list option) list" where
  "bench_files tsc_khz created ts =
     map (\<lambda>(f, sl, wl). (f, latency_rows tsc_khz sl wl)) (filter (\<lambda>t. created (fst t)) ts)"

definition granted_run :: "run_calls \<Rightarrow> bool" where
  "granted_run v \<longleftrightarrow> rc_slp_affinity v = 0 \<and> rc_wke_affinity v = 0 \<and> rc_slp_calloc v \<noteq> None \<and> rc_wke_calloc v \<noteq> None"

text \<open>What is promised of a table: it pairs the stamps of a complete run of the two threads.\<close>

definition good_table :: "nat \<Rightarrow> rat \<Rightarrow> rat list option \<Rightarrow> bool" where
  "good_table n khz t \<longleftrightarrow> (\<exists>s rows. t = Some rows \<and> reach pp_init (pp_step n) s \<and> pp_done n s \<and> length rows = 2 * n \<and>
     (\<forall>j < 2 * n.
       (let (rd, wr) = (if even j then (pp_slog s ! j, pp_wlog s ! j) else (pp_wlog s ! j, pp_slog s ! j)) in
        fst rd = READ \<and> fst wr = WRITE \<and> snd wr < snd rd \<and> rows ! j = of_nat ((snd rd - snd wr) * 1000) / khz)))"

lemma run_one_table:
  assumes "run_one v n T r" and "T * 1000 < 2 ^ 64"
  shows "case r of Inl e \<Rightarrow> e = Exit 1 \<and> \<not> granted_run v
    | Inr (sl, wl) \<Rightarrow> granted_run v \<and> good_table n khz (latency_rows khz sl wl) \<and> \<not> tl_overflow (snd sl) \<and> \<not> tl_overflow (snd wl)"
  using assms(1)
proof cases
  case (run_joined sa sl wa wl s srs wrs)
  note j = run_joined_table[OF run_joined(4,9,5,10,6,7), of khz]
  have "pp_clock s * 1000 < 2 ^ 64" using run_joined(8) assms(2) by (meson le_less_trans mult_le_mono1)
  from latency_table_correct[OF run_joined(6,7) this, of khz] j run_joined(6,7)
  have "good_table n khz (latency_rows khz (sa, log_all 1 srs sl) (wa, log_all 1 wrs wl))"
    unfolding good_table_def by blast
  moreover have "granted_run v" using run_joined(2-5) by (auto simp: granted_run_def init_logger_def split: option.splits)
  ultimately show ?thesis using j run_joined(1) by simp
qed (auto simp: granted_run_def init_logger_def Let_def split: option.splits)

section \<open>Properties\<close>


definition demo_calls :: run_calls where
  "demo_calls = \<lparr>rc_slp_affinity = 0, rc_wke_affinity = 0, rc_slp_calloc = Some 1008, rc_wke_calloc = Some 4096\<rparr>"

definition stamp_at :: "u64 \<Rightarrow> stamp" where
  "stamp_at t = \<lparr>st_now = t, st_cpu = 3, st_pid = 7\<rparr>"

lemma demo_run_one: "\<exists>sl wl. run_one demo_calls 1 13 (Inr (sl, wl))"
proof -
  obtain sa sl where s: "init_logger 1 (rc_slp_calloc demo_calls) = Inr (sa, sl)"
    by (simp add: init_logger_def demo_calls_def Let_def)
  obtain wa wl where w: "init_logger 1 (rc_wke_calloc demo_calls) = Inr (wa, wl)"
    by (simp add: init_logger_def demo_calls_def Let_def)
  have st: "stamped (pp_slog pp_end) [(stamp_at 8, [0]), (stamp_at 9, [1])]"
    "stamped (pp_wlog pp_end) [(stamp_at 5, [1]), (stamp_at 12, [0])]"
    by (simp_all add: stamped_def pp_end_def stamp_at_def)
  have d: "pp_done 1 pp_end" "pp_clock pp_end \<le> 13" by (simp_all add: pp_done_def pp_end_def)
  have a: "rc_slp_affinity demo_calls = 0" "rc_wke_affinity demo_calls = 0" by (simp_all add: demo_calls_def)
  from run_joined[OF a s w pp_end_reach d st] show ?thesis by blast
qed


end
