(* ===== verification/Tcp_Client.thy ===== *)
theory Tcp_Client
  imports Echo_Core Tsc_Log
begin

text \<open>
  The load generator (\<open>event-tester/tcp_client.c\<close>): worker threads that drive a number of clients
  each through the states of \<open>enum state\<close>, as epoll reports their sockets ready.  The system calls
  are a record of functions on a kernel state of any type.  A function that loops until the
  kernel is done with it is a partial function: \<open>None\<close> means that it does not return.
\<close>

section \<open>Data\<close>

definition CONNECT_START :: nat where "CONNECT_START = 0"
definition CONNECT_DONE :: nat where "CONNECT_DONE = 1"
definition SEND_START :: nat where "SEND_START = 2"
definition SEND_DONE :: nat where "SEND_DONE = 3"
definition RECV_START :: nat where "RECV_START = 4"
definition RECV_DONE :: nat where "RECV_DONE = 5"

lemmas event_ids = CONNECT_START_def CONNECT_DONE_def SEND_START_def SEND_DONE_def RECV_START_def RECV_DONE_def

datatype cstate = INIT | CONNECTING | NEW | READY | SENT | DONE

record client =
  cl_sock :: int
  cl_buf :: "byte list"
  cl_cursor :: nat
  cl_state :: cstate
  cl_buf_size :: nat
  cl_txn_remaining :: u64
  cl_batch_remaining :: u64

text \<open>The globals set from the command line.\<close>

record client_cfg =
  cf_transaction_count :: u64
  cf_batch_size :: u64
  cf_msg_size :: nat
  cf_clients_per_thread :: nat

text \<open>
  \<open>struct worker\<close>.  \<open>cw_log\<close> lists the records passed to \<open>tsclog_4\<close>, oldest first; the bytes they
  leave in the log are \<open>log_all 4\<close> of Tsc_Log.
\<close>

record cworker =
  cw_index :: nat
  cw_epoll_fd :: int
  cw_dying :: bool
  cw_log :: "(stamp \<times> u64 list) list"
  cw_clients :: "client list"

section \<open>System calls\<close>

datatype conn_reply = Connect_Ok | Connect_InProgress | Connect_Error
datatype recv_reply = Recv_Data "byte list" | Recv_Again | Recv_Error
datatype wait_reply = Wait_Timeout | Wait_Error | Wait_Ready "nat list"
datatype interest = Out_Oneshot | In_Level

text \<open>
  The calls the workers make; a \<open>bool\<close> reply is whether the call succeeded.  \<open>recv\<close> is asked for a
  number of bytes and brings the ones it stored; \<open>ns_stamp\<close> reads the time-stamp counter, and
  \<open>ns_dying\<close> is whether another thread has called \<open>set_dying\<close>.
\<close>

record 'k net_sys =
  ns_socket :: "'k \<Rightarrow> int \<times> 'k"
  ns_setsockopt :: "int \<Rightarrow> string \<Rightarrow> 'k \<Rightarrow> bool \<times> 'k"
  ns_connect :: "int \<Rightarrow> 'k \<Rightarrow> conn_reply \<times> 'k"
  ns_epoll_add :: "int \<Rightarrow> interest \<Rightarrow> nat \<Rightarrow> 'k \<Rightarrow> bool \<times> 'k"
  ns_epoll_del :: "int \<Rightarrow> 'k \<Rightarrow> bool \<times> 'k"
  ns_so_error :: "int \<Rightarrow> 'k \<Rightarrow> int option \<times> 'k"
  ns_send :: "int \<Rightarrow> byte list \<Rightarrow> 'k \<Rightarrow> int \<times> 'k"
  ns_recv :: "int \<Rightarrow> nat \<Rightarrow> 'k \<Rightarrow> recv_reply \<times> 'k"
  ns_shutdown :: "int \<Rightarrow> 'k \<Rightarrow> 'k"
  ns_close :: "int \<Rightarrow> 'k \<Rightarrow> 'k"
  ns_epoll_wait :: "nat \<Rightarrow> 'k \<Rightarrow> wait_reply \<times> 'k"
  ns_stamp :: "'k \<Rightarrow> stamp \<times> 'k"
  ns_dying :: "'k \<Rightarrow> bool"

text \<open>
  \<open>set_dying\<close> raises the flag of every thread: this one's here, and the others see it as their
  \<open>ns_dying\<close>.
\<close>

definition set_dying :: "cworker \<Rightarrow> cworker" where
  "set_dying me = me\<lparr>cw_dying := True\<rparr>"

definition client_at :: "cworker \<Rightarrow> nat \<Rightarrow> client" where
  "client_at me j = cw_clients me ! j"

definition upd_client :: "nat \<Rightarrow> (client \<Rightarrow> client) \<Rightarrow> cworker \<Rightarrow> cworker" where
  "upd_client j f me = me\<lparr>cw_clients := (cw_clients me)[j := f (client_at me j)]\<rparr>"

definition log_event :: "'k net_sys \<Rightarrow> client_cfg \<Rightarrow> nat \<Rightarrow> nat \<Rightarrow> cworker \<Rightarrow> 'k \<Rightarrow> cworker \<times> 'k" where
  "log_event nt cfg j ev me k =
     (let (st, k1) = ns_stamp nt k in
      (me\<lparr>cw_log := cw_log me @
         [(st, [word_of_nat (cw_index me), word_of_nat j,
                cf_transaction_count cfg - cl_txn_remaining (client_at me j), word_of_nat ev])]\<rparr>, k1))"

section \<open>Sending and receiving\<close>

text \<open>The loop of \<open>client_send\<close>: whether it got through, or gave up with an error.\<close>

partial_function (option) client_send :: "'k net_sys \<Rightarrow> int \<Rightarrow> byte list \<Rightarrow> nat \<Rightarrow> nat \<Rightarrow> 'k \<Rightarrow> (bool \<times> 'k) option" where
  "client_send nt sock buf len cursor k =
     (let (ret, k1) = ns_send nt sock (take (len - cursor) (drop cursor buf)) k in
      if ret < 0 then Some (False, k1)
      else let cursor1 = cursor + nat ret in
        if cursor1 < len then client_send nt sock buf len cursor1 k1 else Some (True, k1))"

text \<open>
  The loop of \<open>client_recv\<close> on the rest of a buffer that starts at offset \<open>off\<close>: the bytes it counts,
  whether it failed, and the buffer.
\<close>

partial_function (option) client_recv ::
  "'k net_sys \<Rightarrow> int \<Rightarrow> nat \<Rightarrow> nat \<Rightarrow> nat \<Rightarrow> byte list \<Rightarrow> 'k \<Rightarrow> (nat \<times> bool \<times> byte list \<times> 'k) option" where
  "client_recv nt sock off len cursor buf k =
     (let (r, k1) = ns_recv nt sock (len - cursor) k in
      case r of
        Recv_Again \<Rightarrow> Some (cursor, False, buf, k1)
      | Recv_Error \<Rightarrow> Some (0, True, buf, k1)
      | Recv_Data bs \<Rightarrow>
          (let cursor1 = cursor + length bs; buf1 = splice (off + cursor) bs buf in
           if cursor1 < len then client_recv nt sock off len cursor1 buf1 k1
           else Some (cursor1, False, buf1, k1)))"

definition do_connect :: "'k net_sys \<Rightarrow> int \<Rightarrow> cworker \<Rightarrow> 'k \<Rightarrow> cstate \<times> cworker \<times> 'k" where
  "do_connect nt sock me k =
     (let (r, k1) = ns_connect nt sock k in
      case r of
        Connect_Error \<Rightarrow> (DONE, set_dying me, k1)
      | Connect_InProgress \<Rightarrow> (CONNECTING, me, k1)
      | Connect_Ok \<Rightarrow> (READY, me, k1))"

section \<open>The state machine of a client\<close>

text \<open>
  The cases of \<open>do_state_transition\<close>.  Those that may end in a tail call say whether they do.
\<close>

definition init_case :: "'k net_sys \<Rightarrow> client_cfg \<Rightarrow> nat \<Rightarrow> cworker \<Rightarrow> 'k \<Rightarrow> bool \<times> cworker \<times> 'k" where
  "init_case nt cfg j me k =
     (let me0 = upd_client j (\<lambda>c. c\<lparr>cl_batch_remaining := cf_batch_size cfg\<rparr>) me;
          (sock, k1) = ns_socket nt k;
          me1 = upd_client j (\<lambda>c. c\<lparr>cl_sock := sock\<rparr>) me0
      in if sock < 0 then (False, set_dying me1, k1)
      else let (ok1, k2) = ns_setsockopt nt sock ''SO_REUSEPORT'' k1
      in if \<not> ok1 then (False, set_dying me1, k2)
      else let (ok2, k3) = ns_setsockopt nt sock ''SO_REUSEADDR'' k2
      in if \<not> ok2 then (False, set_dying me1, k3)
      else let (me2, k4) = log_event nt cfg j CONNECT_START me1 k3;
               (st, me3, k5) = do_connect nt sock me2 k4;
               me4 = upd_client j (\<lambda>c. c\<lparr>cl_state := st\<rparr>) me3
      in if st \<noteq> READY then
           (let (ok3, k6) = ns_epoll_add nt sock Out_Oneshot j k5
            in (False, if ok3 then me4 else set_dying me4, k6))
         else
           (let (me5, k6) = log_event nt cfg j CONNECT_DONE me4 k5 in (True, me5, k6)))"

definition connecting_case :: "'k net_sys \<Rightarrow> client_cfg \<Rightarrow> nat \<Rightarrow> cworker \<Rightarrow> 'k \<Rightarrow> bool \<times> cworker \<times> 'k" where
  "connecting_case nt cfg j me k =
     (let (me1, k1) = log_event nt cfg j CONNECT_DONE me k;
          sock = cl_sock (client_at me1 j);
          (ok1, k2) = ns_epoll_del nt sock k1
      in if \<not> ok1 then (False, set_dying me1, k2)
      else let (e, k3) = ns_so_error nt sock k2
      in case e of
           None \<Rightarrow> (False, set_dying me1, k3)
         | Some so_err \<Rightarrow>
             if so_err \<noteq> 0 then (False, set_dying me1, k3)
             else (True, upd_client j (\<lambda>c. c\<lparr>cl_state := NEW\<rparr>) me1, k3))"

definition new_case :: "'k net_sys \<Rightarrow> client_cfg \<Rightarrow> nat \<Rightarrow> cworker \<Rightarrow> 'k \<Rightarrow> bool \<times> cworker \<times> 'k" where
  "new_case nt cfg j me k =
     (let (ok1, k1) = ns_epoll_add nt (cl_sock (client_at me j)) In_Level j k
      in if \<not> ok1 then (False, set_dying me, k1)
      else (True, upd_client j (\<lambda>c. c\<lparr>cl_state := READY\<rparr>) me, k1))"

definition ready_case :: "'k net_sys \<Rightarrow> client_cfg \<Rightarrow> nat \<Rightarrow> cworker \<Rightarrow> 'k \<Rightarrow> (cworker \<times> 'k) option" where
  "ready_case nt cfg j me k =
     (let (me1, k1) = log_event nt cfg j SEND_START me k;
          c = client_at me1 j
      in Option.bind (client_send nt (cl_sock c) (cl_buf c) (cl_buf_size c) 0 k1) (\<lambda>(sent, k2).
      let me2 = (if sent then me1 else set_dying me1);
          (me3, k3) = log_event nt cfg j SEND_DONE me2 k2
      in Some (upd_client j (\<lambda>c. c\<lparr>cl_state := SENT\<rparr>) me3, k3)))"

definition sent_case :: "'k net_sys \<Rightarrow> client_cfg \<Rightarrow> nat \<Rightarrow> cworker \<Rightarrow> 'k \<Rightarrow> (bool \<times> cworker \<times> 'k) option" where
  "sent_case nt cfg j me k =
     (let (me1, k1) = log_event nt cfg j RECV_START me k;
          c = client_at me1 j
      in Option.bind (client_recv nt (cl_sock c) (cl_cursor c) (cl_buf_size c - cl_cursor c) 0 (cl_buf c) k1)
         (\<lambda>(got, failed, buf, k2).
      let me2 = (if failed then set_dying me1 else me1);
          me3 = upd_client j (\<lambda>c. c\<lparr>cl_cursor := cl_cursor c + got, cl_buf := buf\<rparr>) me2;
          (me4, k3) = log_event nt cfg j RECV_DONE me3 k2
      in if cl_cursor (client_at me4 j) < cl_buf_size (client_at me4 j) then Some (False, me4, k3)
      else
        let me5 = upd_client j (\<lambda>c. c\<lparr>cl_cursor := 0, cl_txn_remaining := cl_txn_remaining c - 1\<rparr>) me4
        in if cl_txn_remaining (client_at me5 j) = 0
        then Some (True, upd_client j (\<lambda>c. c\<lparr>cl_state := DONE\<rparr>) me5, k3)
        else
          let me6 = upd_client j (\<lambda>c. c\<lparr>cl_batch_remaining := cl_batch_remaining c - 1\<rparr>) me5
          in if cl_batch_remaining (client_at me6 j) = 0
          then
            (let (_, k4) = ns_epoll_del nt (cl_sock (client_at me6 j)) k3;
                 k5 = ns_close nt (cl_sock (client_at me6 j)) k4
             in Some (True, upd_client j (\<lambda>c. c\<lparr>cl_state := INIT\<rparr>) me6, k5))
          else Some (True, upd_client j (\<lambda>c. c\<lparr>cl_state := READY\<rparr>) me6, k3)))"

definition done_case :: "'k net_sys \<Rightarrow> nat \<Rightarrow> cworker \<Rightarrow> 'k \<Rightarrow> cworker \<times> 'k" where
  "done_case nt j me k =
     (let sock = cl_sock (client_at me j);
          (_, k1) = ns_epoll_del nt sock k;
          k2 = ns_shutdown nt sock k1;
          k3 = ns_close nt sock k2
      in (upd_client j (\<lambda>c. c\<lparr>cl_sock := - 1\<rparr>) me, k3))"

partial_function (option) do_state_transition ::
  "'k net_sys \<Rightarrow> client_cfg \<Rightarrow> nat \<Rightarrow> cworker \<Rightarrow> 'k \<Rightarrow> (nat \<times> cworker \<times> 'k) option" where
  "do_state_transition nt cfg j me k =
     (case cl_state (client_at me j) of
        INIT \<Rightarrow>
          (let (go, me1, k1) = init_case nt cfg j me k
           in if go then do_state_transition nt cfg j me1 k1 else Some (0, me1, k1))
      | CONNECTING \<Rightarrow>
          (let (go, me1, k1) = connecting_case nt cfg j me k
           in if go then do_state_transition nt cfg j me1 k1 else Some (0, me1, k1))
      | NEW \<Rightarrow>
          (let (go, me1, k1) = new_case nt cfg j me k
           in if go then do_state_transition nt cfg j me1 k1 else Some (0, me1, k1))
      | READY \<Rightarrow> Option.bind (ready_case nt cfg j me k) (\<lambda>(me1, k1). Some (0, me1, k1))
      | SENT \<Rightarrow>
          Option.bind (sent_case nt cfg j me k) (\<lambda>(go, me1, k1).
            if go then Option.bind (do_state_transition nt cfg j me1 k1) (\<lambda>(n, me2, k2). Some (1 + n, me2, k2))
            else Some (0, me1, k1))
      | DONE \<Rightarrow> (let (me1, k1) = done_case nt j me k in Some (0, me1, k1)))"

section \<open>The worker thread\<close>

definition EVENT_BACKLOG :: nat where "EVENT_BACKLOG = 20"

text \<open>
  The set-up before the barrier: the pieces of memory and the epoll descriptor, each with an
  \<open>exit\<close>; \<open>rnd i j\<close> is the value of \<open>random()\<close> for byte \<open>j\<close> of client \<open>i\<close>, and \<open>calloc\<close> has zeroed
  the rest of the client.
\<close>

record worker_env =
  we_log_calloc :: "nat option"
  we_epoll_fd :: int
  we_clients_calloc :: bool
  we_events_calloc :: bool
  we_buf_malloc :: "nat \<Rightarrow> bool"

definition fresh_client :: "client_cfg \<Rightarrow> (nat \<Rightarrow> byte) \<Rightarrow> client" where
  "fresh_client cfg rnd =
     \<lparr>cl_sock = 0, cl_buf = map rnd [0..<cf_msg_size cfg], cl_cursor = 0, cl_state = INIT,
      cl_buf_size = cf_msg_size cfg, cl_txn_remaining = cf_transaction_count cfg,
      cl_batch_remaining = cf_batch_size cfg\<rparr>"

definition worker_setup ::
  "worker_env \<Rightarrow> client_cfg \<Rightarrow> (nat \<Rightarrow> nat \<Rightarrow> byte) \<Rightarrow> nat \<Rightarrow> cworker res" where
  "worker_setup env cfg rnd idx =
     (if we_log_calloc env = None then Inl (Exit 1)
      else if we_epoll_fd env < 0 then Inl (Exit 1)
      else if \<not> we_clients_calloc env then Inl (Exit 1)
      else if \<not> we_events_calloc env then Inl (Exit 1)
      else if \<exists>i < cf_clients_per_thread cfg. \<not> we_buf_malloc env i then Inl (Exit 1)
      else Inr \<lparr>cw_index = idx, cw_epoll_fd = we_epoll_fd env, cw_dying = False, cw_log = [],
                cw_clients = map (\<lambda>i. fresh_client cfg (rnd i)) [0..<cf_clients_per_thread cfg]\<rparr>)"

text \<open>
  The log of a worker, in a block of \<open>hdr_size + entry_size + L1_CACHE_BYTES\<close> bytes at \<open>a\<close>: its
  header is aligned to a cache line and its entries follow.
\<close>

definition CACHE_LINE :: nat where "CACHE_LINE = 64"

definition align_log :: "nat \<Rightarrow> nat \<Rightarrow> nat \<times> tsc_log" where
  "align_log entry_size a =
     (let lg = (if a mod CACHE_LINE \<noteq> 0 then (a + CACHE_LINE) div CACHE_LINE * CACHE_LINE else a);
          cur = lg + CACHE_LINE
      in (lg, \<lparr>tl_cur = cur, tl_end = cur + entry_size, tl_overflow = False, tl_mem = (\<lambda>_. 0)\<rparr>))"

definition worker_memory :: "nat \<Rightarrow> nat \<Rightarrow> cworker \<Rightarrow> tsc_log" where
  "worker_memory entry_size a me = log_all 4 (cw_log me) (snd (align_log entry_size a))"

text \<open>
  The two loops that call \<open>do_state_transition\<close> for a list of clients and sum up what it returns;
  an index outside the array of clients is undefined behaviour.
\<close>

primrec serve ::
  "'k net_sys \<Rightarrow> client_cfg \<Rightarrow> nat list \<Rightarrow> nat \<Rightarrow> cworker \<Rightarrow> 'k \<Rightarrow> (nat \<times> cworker \<times> 'k) res option" where
  "serve nt cfg [] complete me k = Some (Inr (complete, me, k))"
| "serve nt cfg (j # js) complete me k =
     (if length (cw_clients me) \<le> j then Some (Inl (Fault OutOfBounds))
      else Option.bind (do_state_transition nt cfg j me k) (\<lambda>(n, me1, k1).
        serve nt cfg js (complete + n) me1 k1))"

definition is_dying :: "'k net_sys \<Rightarrow> cworker \<Rightarrow> 'k \<Rightarrow> bool" where
  "is_dying nt me k \<longleftrightarrow> cw_dying me \<or> ns_dying nt k"

text \<open>
  The event loop: it ends when the thread is dying, when all transactions are complete, or with
  an error of \<open>epoll_wait\<close>; ten seconds without an event end the process.
\<close>

partial_function (option) client_loop ::
  "'k net_sys \<Rightarrow> client_cfg \<Rightarrow> nat \<Rightarrow> nat \<Rightarrow> cworker \<Rightarrow> 'k \<Rightarrow> (nat \<times> cworker \<times> 'k) res option" where
  "client_loop nt cfg target complete me k =
     (if is_dying nt me k \<or> target \<le> complete then Some (Inr (complete, me, k))
      else let (w, k1) = ns_epoll_wait nt EVENT_BACKLOG k in
        case w of
          Wait_Timeout \<Rightarrow> Some (Inl (Exit 1))
        | Wait_Error \<Rightarrow> Some (Inr (complete, set_dying me, k1))
        | Wait_Ready js \<Rightarrow>
            Option.bind (serve nt cfg js complete me k1) (\<lambda>r.
              case r of
                Inl e \<Rightarrow> Some (Inl e)
              | Inr (complete1, me1, k2) \<Rightarrow> client_loop nt cfg target complete1 me1 k2))"

text \<open>\<open>cleanup\<close>: the sockets still open and the epoll descriptor are closed, all memory freed.\<close>

primrec close_socks :: "'k net_sys \<Rightarrow> client list \<Rightarrow> 'k \<Rightarrow> 'k" where
  "close_socks nt [] k = k"
| "close_socks nt (c # cs) k = close_socks nt cs (if cl_sock c \<ge> 0 then ns_close nt (cl_sock c) k else k)"

definition cleanup :: "'k net_sys \<Rightarrow> cworker \<Rightarrow> 'k \<Rightarrow> cworker \<times> 'k" where
  "cleanup nt me k =
     (let k1 = close_socks nt (cw_clients me) k;
          k2 = (if cw_epoll_fd me \<ge> 0 then ns_close nt (cw_epoll_fd me) k1 else k1)
      in (me\<lparr>cw_clients := [], cw_epoll_fd := - 1\<rparr>, k2))"

text \<open>
  \<open>worker_func\<close> after the barrier: the transactions counted, the state as the loop left it, and the
  state after the clean-up of a thread that is not dying.
\<close>

definition total_transactions :: "client_cfg \<Rightarrow> nat" where
  "total_transactions cfg = unat (cf_transaction_count cfg * word_of_nat (cf_clients_per_thread cfg))"

definition run_clients ::
  "'k net_sys \<Rightarrow> client_cfg \<Rightarrow> cworker \<Rightarrow> 'k \<Rightarrow> (nat \<times> cworker \<times> 'k) res option" where
  "run_clients nt cfg me k =
     Option.bind (serve nt cfg [0..<cf_clients_per_thread cfg] 0 me k) (\<lambda>r.
       case r of
         Inl e \<Rightarrow> Some (Inl e)
       | Inr (complete, me1, k1) \<Rightarrow> client_loop nt cfg (total_transactions cfg) complete me1 k1)"

definition worker_func ::
  "'k net_sys \<Rightarrow> client_cfg \<Rightarrow> cworker \<Rightarrow> 'k \<Rightarrow> (cworker \<times> 'k) res option" where
  "worker_func nt cfg me k =
     Option.bind (run_clients nt cfg me k) (\<lambda>r.
       case r of
         Inl e \<Rightarrow> Some (Inl e)
       | Inr (complete, me1, k1) \<Rightarrow>
           Some (Inr (if is_dying nt me1 k1 then (me1, k1) else cleanup nt me1 k1)))"

section \<open>What a transition leaves alone\<close>

definition only :: "nat \<Rightarrow> cworker \<Rightarrow> cworker \<Rightarrow> bool" where
  "only j me me' \<longleftrightarrow> cw_index me' = cw_index me \<and> cw_epoll_fd me' = cw_epoll_fd me \<and>
     length (cw_clients me') = length (cw_clients me) \<and> (\<forall>i. i \<noteq> j \<longrightarrow> client_at me' i = client_at me i) \<and>
     (cw_dying me \<longrightarrow> cw_dying me') \<and> (\<exists>es. cw_log me' = cw_log me @ es)"

lemma only_refl [simp]: "only j me me"
  by (simp add: only_def)

lemma only_trans: "only j me me1 \<Longrightarrow> only j me1 me2 \<Longrightarrow> only j me me2"
  unfolding only_def by (metis append.assoc)

lemma upd_client_simps [simp]:
  "cw_index (upd_client j f me) = cw_index me" "cw_epoll_fd (upd_client j f me) = cw_epoll_fd me"
  "cw_dying (upd_client j f me) = cw_dying me" "cw_log (upd_client j f me) = cw_log me"
  "length (cw_clients (upd_client j f me)) = length (cw_clients me)"
  by (simp_all add: upd_client_def)

lemma client_at_upd: "j < length (cw_clients me) \<Longrightarrow>
    client_at (upd_client j f me) i = (if i = j then f (client_at me j) else client_at me i)"
  by (simp add: client_at_def upd_client_def)

lemma client_at_upd_other: "i \<noteq> j \<Longrightarrow> client_at (upd_client j f me) i = client_at me i"
  by (simp add: client_at_def upd_client_def)

lemma set_dying_simps [simp]:
  "cw_index (set_dying me) = cw_index me" "cw_epoll_fd (set_dying me) = cw_epoll_fd me"
  "cw_dying (set_dying me)" "cw_log (set_dying me) = cw_log me"
  "cw_clients (set_dying me) = cw_clients me" "client_at (set_dying me) i = client_at me i"
  by (simp_all add: set_dying_def client_at_def)

lemma only_upd [simp]: "only j me (upd_client j f me)"
  by (simp add: only_def client_at_upd_other)

lemma only_set_dying [simp]: "only j me (set_dying me)"
  by (simp add: only_def)

lemma log_event_effect:
  assumes "log_event nt cfg j ev me k = (me', k')"
  shows "only i me me'" and "cw_clients me' = cw_clients me" and "client_at me' i = client_at me i"
    and "cw_dying me' = cw_dying me"
    and "\<exists>st. cw_log me' = cw_log me @ [(st, [word_of_nat (cw_index me), word_of_nat j,
           cf_transaction_count cfg - cl_txn_remaining (client_at me j), word_of_nat ev])]"
  using assms by (auto simp: log_event_def only_def client_at_def split: prod.splits)

lemma log_event_ex: "\<exists>me' k'. log_event nt cfg j ev me k = (me', k')"
  by (cases "log_event nt cfg j ev me k") auto

section \<open>Sound kernels\<close>

text \<open>
  What the workers rely on: \<open>recv\<close> stores no more than it was asked for (\<open>recv_fits\<close>), and, for
  termination, a call to move at least one byte moves one or fails (\<open>moves\<close>).
\<close>

definition recv_fits :: "'k net_sys \<Rightarrow> bool" where
  "recv_fits nt \<longleftrightarrow> (\<forall>sock n k bs k'. ns_recv nt sock n k = (Recv_Data bs, k') \<longrightarrow> length bs \<le> n)"

definition moves :: "'k net_sys \<Rightarrow> bool" where
  "moves nt \<longleftrightarrow> (\<forall>sock bs k. bs \<noteq> [] \<longrightarrow> fst (ns_send nt sock bs k) \<noteq> 0) \<and>
     (\<forall>sock n k. 0 < n \<longrightarrow> fst (ns_recv nt sock n k) \<noteq> Recv_Data [])"

lemmas client_send_induct = client_send.raw_induct[rotated 1, consumes 1, case_names step]
lemmas client_recv_induct = client_recv.raw_induct[rotated 1, consumes 1, case_names step]
lemmas transition_induct = do_state_transition.raw_induct[rotated 1, consumes 1, case_names step]
lemmas client_loop_induct = client_loop.raw_induct[rotated 1, consumes 1, case_names step]

lemma client_recv_fits:
  "client_recv nt sock off len cur buf k = Some y \<Longrightarrow> recv_fits nt \<longrightarrow> off + len \<le> length buf \<longrightarrow> cur \<le> len \<longrightarrow>
    fst y \<le> len \<and> length (fst (snd (snd y))) = length buf \<and> take off (fst (snd (snd y))) = take off buf \<and>
    drop (off + len) (fst (snd (snd y))) = drop (off + len) buf"
proof (induction rule: client_recv_induct)
  case (step rec nt sock off len cur buf k y)
  show ?case
  proof (intro impI)
    assume fits: "recv_fits nt" and room: "off + len \<le> length buf" and cur: "cur \<le> len"
    obtain r k1 where r: "ns_recv nt sock (len - cur) k = (r, k1)" by force
    show "fst y \<le> len \<and> length (fst (snd (snd y))) = length buf \<and> take off (fst (snd (snd y))) = take off buf \<and>
        drop (off + len) (fst (snd (snd y))) = drop (off + len) buf"
    proof (cases r)
      case (Recv_Data bs)
      let ?b = "splice (off + cur) bs buf"
      have n: "length bs \<le> len - cur" using fits r Recv_Data unfolding recv_fits_def by blast
      with room cur have b: "length ?b = length buf" "take off ?b = take off buf" "drop (off + len) ?b = drop (off + len) buf"
        by (auto simp: splice_def add.commute[of len off])
      show ?thesis
      proof (cases "cur + length bs < len")
        case True
        then have "rec nt sock off len (cur + length bs) ?b k1 = Some y"
          using step(2) r Recv_Data by (simp add: Let_def)
        from step(1)[OF this] fits room b True show ?thesis by simp
      next
        case False
        then show ?thesis using step(2) r Recv_Data b n cur by (auto simp: Let_def)
      qed
    qed (use step(2) r cur in auto)
  qed
qed

text \<open>With a kernel that moves bytes, both loops end.\<close>

lemma client_send_returns: "moves nt \<Longrightarrow> len \<le> length buf \<Longrightarrow> \<exists>y. client_send nt sock buf len cursor k = Some y"
proof (induction "len - cursor" arbitrary: cursor k rule: less_induct)
  case less
  obtain ret k1 where r: "ns_send nt sock (take (len - cursor) (drop cursor buf)) k = (ret, k1)" by force
  show ?case
  proof (cases "0 \<le> ret \<and> cursor + nat ret < len")
    case True
    then have "take (len - cursor) (drop cursor buf) \<noteq> []" using less.prems by auto
    then have "ret \<noteq> 0" using less.prems(1) r unfolding moves_def by (metis fst_conv)
    then have "len - (cursor + nat ret) < len - cursor" using True by auto
    from less.hyps[OF this less.prems] True r show ?thesis by (subst client_send.simps) (simp add: Let_def)
  next
    case False
    then show ?thesis using r by (subst client_send.simps) (auto simp: Let_def)
  qed
qed

lemma client_recv_returns: "moves nt \<Longrightarrow> \<exists>y. client_recv nt sock off len cursor buf k = Some y"
proof (induction "len - cursor" arbitrary: cursor buf k rule: less_induct)
  case less
  obtain r k1 where r: "ns_recv nt sock (len - cursor) k = (r, k1)" by force
  show ?case
  proof (cases r)
    case (Recv_Data bs)
    show ?thesis
    proof (cases "cursor + length bs < len")
      case True
      then have "bs \<noteq> []" using less.prems r Recv_Data unfolding moves_def by (metis fst_conv zero_less_diff add_lessD1)
      then have "len - (cursor + length bs) < len - cursor" using True by (cases bs) auto
      from less.hyps[OF this less.prems] True r Recv_Data show ?thesis
        by (subst client_recv.simps) (simp add: Let_def)
    qed (use r Recv_Data in \<open>subst client_recv.simps, auto simp: Let_def\<close>)
  next
    case Recv_Again
    then show ?thesis using r by (subst client_recv.simps) auto
  next
    case Recv_Error
    then show ?thesis using r by (subst client_recv.simps) auto
  qed
qed

section \<open>Accounting\<close>

text \<open>
  A client between two transitions, and a worker: a client that is done has no transaction left,
  unless its thread has given up.
\<close>

definition client_ok :: "client_cfg \<Rightarrow> client \<Rightarrow> bool" where
  "client_ok cfg c \<longleftrightarrow> length (cl_buf c) = cf_msg_size cfg \<and> cl_buf_size c = cf_msg_size cfg \<and>
     cl_cursor c < cf_msg_size cfg \<and> cl_txn_remaining c \<le> cf_transaction_count cfg \<and>
     (cl_state c \<noteq> DONE \<longrightarrow> 0 < cl_txn_remaining c) \<and> cl_batch_remaining c \<le> cf_batch_size cfg \<and>
     (cl_state c \<notin> {INIT, DONE} \<longrightarrow> 0 < cl_batch_remaining c)"

definition settled :: "cworker \<Rightarrow> nat \<Rightarrow> bool" where
  "settled me j \<longleftrightarrow> (cl_state (client_at me j) = DONE \<longrightarrow> cl_txn_remaining (client_at me j) = 0 \<or> cw_dying me)"

definition workers_ok :: "client_cfg \<Rightarrow> cworker \<Rightarrow> bool" where
  "workers_ok cfg me \<longleftrightarrow> (\<forall>j < length (cw_clients me). client_ok cfg (client_at me j) \<and> settled me j)"

definition left :: "cworker \<Rightarrow> nat \<Rightarrow> nat" where
  "left me j = unat (cl_txn_remaining (client_at me j))"

definition cfg_ok :: "client_cfg \<Rightarrow> bool" where
  "cfg_ok cfg \<longleftrightarrow> 0 < cf_batch_size cfg"

text \<open>The effect of each case on its own client.\<close>

lemma log_event_keeps:
  assumes "log_event nt cfg j ev me k = (me', k')"
  shows "client_at me' = client_at me" and "length (cw_clients me') = length (cw_clients me)"
    and "cw_dying me' = cw_dying me" and "only i me me'"
  using log_event_effect[OF assms] by (auto simp: client_at_def)

text \<open>
  The ways through the case \<open>INIT\<close>: it stops without a usable socket, or tries to connect \<open>tried\<close>
  and ends up in the state of the reply.
\<close>

definition tried :: "client_cfg \<Rightarrow> nat \<Rightarrow> int \<Rightarrow> cworker \<Rightarrow> cworker" where
  "tried cfg j sock me =
     upd_client j (\<lambda>c. c\<lparr>cl_sock := sock\<rparr>) (upd_client j (\<lambda>c. c\<lparr>cl_batch_remaining := cf_batch_size cfg\<rparr>) me)"

definition connect_state :: "conn_reply \<Rightarrow> cstate" where
  "connect_state r = (case r of Connect_Error \<Rightarrow> DONE | Connect_InProgress \<Rightarrow> CONNECTING | Connect_Ok \<Rightarrow> READY)"

definition connected :: "nat \<Rightarrow> conn_reply \<Rightarrow> cworker \<Rightarrow> cworker" where
  "connected j r m = upd_client j (\<lambda>c. c\<lparr>cl_state := connect_state r\<rparr>) (if r = Connect_Error then set_dying m else m)"

lemma init_case_cases:
  assumes "init_case nt cfg j me k = (go, me', k')"
  obtains (no_socket) sock where "\<not> go" "me' = set_dying (tried cfg j sock me)"
  | (connect) sock k3 m2 k4 r where "log_event nt cfg j CONNECT_START (tried cfg j sock me) k3 = (m2, k4)"
      "go \<longleftrightarrow> r = Connect_Ok"
      "if go then \<exists>k5 k6. log_event nt cfg j CONNECT_DONE (connected j r m2) k5 = (me', k6)
       else me' = connected j r m2 \<or> me' = set_dying (connected j r m2)"
proof -
  obtain sock k1 where so: "ns_socket nt k = (sock, k1)" by force
  obtain b2 k2 where s1: "ns_setsockopt nt sock ''SO_REUSEPORT'' k1 = (b2, k2)" by force
  obtain b3 k3 where s2: "ns_setsockopt nt sock ''SO_REUSEADDR'' k2 = (b3, k3)" by force
  obtain m2 k4 where l2: "log_event nt cfg j CONNECT_START (tried cfg j sock me) k3 = (m2, k4)" by force
  obtain r k5 where cn: "ns_connect nt sock k4 = (r, k5)" by force
  have dc: "do_connect nt sock m2 k4 = (connect_state r, if r = Connect_Error then set_dying m2 else m2, k5)"
    using cn by (cases r) (simp_all add: do_connect_def connect_state_def)
  have run: "(if sock < 0 then (False, set_dying (tried cfg j sock me), k1)
      else if \<not> b2 then (False, set_dying (tried cfg j sock me), k2)
      else if \<not> b3 then (False, set_dying (tried cfg j sock me), k3)
      else if connect_state r \<noteq> READY then
        (let (ok3, k6) = ns_epoll_add nt sock Out_Oneshot j k5
         in (False, if ok3 then connected j r m2 else set_dying (connected j r m2), k6))
      else (let (me5, k6) = log_event nt cfg j CONNECT_DONE (connected j r m2) k5 in (True, me5, k6))) = (go, me', k')"
    using assms unfolding init_case_def Let_def so s1 s2 prod.case tried_def[symmetric] l2 dc connected_def[symmetric] .
  show thesis
  proof (cases "sock < 0 \<or> \<not> b2 \<or> \<not> b3")
    case True
    then show thesis using run no_socket[of sock] by (auto split: if_splits)
  next
    case False
    show thesis
      by (rule connect[OF l2, of r])
        (use run False in \<open>auto simp: connect_state_def split: conn_reply.splits prod.splits if_splits\<close>)
  qed
qed

lemma init_case_effect:
  assumes "init_case nt cfg j me k = (go, me', k')" and j: "j < length (cw_clients me)"
  shows "only j me me' \<and> (\<exists>s st. client_at me' j = (client_at me j)\<lparr>cl_batch_remaining := cf_batch_size cfg,
      cl_sock := s, cl_state := st\<rparr> \<and> (go \<longrightarrow> st = READY) \<and>
      (\<not> go \<longrightarrow> st = cl_state (client_at me j) \<and> cw_dying me' \<or> st = CONNECTING \<or> st = DONE \<and> cw_dying me'))"
proof -
  have tr: "only j me (tried cfg j s me)" "length (cw_clients (tried cfg j s me)) = length (cw_clients me)"
    "client_at (tried cfg j s me) j = (client_at me j)\<lparr>cl_batch_remaining := cf_batch_size cfg, cl_sock := s\<rparr>" for s
    using j only_trans[OF only_upd only_upd] by (auto simp: tried_def client_at_upd)
  from assms(1) show ?thesis
  proof (cases rule: init_case_cases)
    case (no_socket sock)
    then show ?thesis using tr[of sock] only_trans[OF tr(1)[of sock] only_set_dying]
      by (auto intro!: exI[of _ sock] exI[of _ "cl_state (client_at me j)"])
  next
    case (connect sock k3 m2 k4 r)
    note l2 = log_event_keeps[OF connect(1)]
    let ?m = "connected j r m2"
    have o: "only j me ?m" "cw_dying m2 \<or> r = Connect_Error \<longrightarrow> cw_dying ?m"
      using only_trans[OF only_trans[OF tr(1) l2(4)] only_trans[OF only_set_dying only_upd]]
        only_trans[OF only_trans[OF tr(1) l2(4)] only_upd] by (auto simp: connected_def)
    have c: "client_at ?m j = (client_at me j)\<lparr>cl_batch_remaining := cf_batch_size cfg, cl_sock := sock, cl_state := connect_state r\<rparr>"
      using l2 tr j by (auto simp: connected_def client_at_upd)
    have m': "only j me me' \<and> client_at me' j = client_at ?m j \<and> (cw_dying ?m \<longrightarrow> cw_dying me')"
    proof (cases go)
      case True
      then obtain k5 k6 where l5: "log_event nt cfg j CONNECT_DONE ?m k5 = (me', k6)" using connect(3) by auto
      show ?thesis using log_event_keeps[OF l5] only_trans[OF o(1)] by simp
    next
      case False
      then show ?thesis using connect(3) o(1) only_trans[OF o(1) only_set_dying] by auto
    qed
    have st: "connect_state r = READY \<longleftrightarrow> go" "connect_state r = CONNECTING \<or> go \<or> connect_state r = DONE \<and> cw_dying me'"
      using m' connect(2) o(2) by (cases r; simp add: connect_state_def)+
    from m' have "only j me me'" "client_at me' j =
        (client_at me j)\<lparr>cl_batch_remaining := cf_batch_size cfg, cl_sock := sock, cl_state := connect_state r\<rparr>"
      using c by simp_all
    with st show ?thesis by (intro conjI exI[of _ sock] exI[of _ "connect_state r"]) auto
  qed
qed

lemma connecting_case_effect:
  assumes "connecting_case nt cfg j me k = (go, me', k')" and "j < length (cw_clients me)"
  shows "only j me me' \<and> client_at me' j = (client_at me j)\<lparr>cl_state := (if go then NEW else cl_state (client_at me j))\<rparr> \<and>
    (\<not> go \<longrightarrow> cw_dying me')"
proof -
  obtain m1 k1 where l: "log_event nt cfg j CONNECT_DONE me k = (m1, k1)" by force
  note l' = log_event_keeps[OF l]
  obtain b k2 where d: "ns_epoll_del nt (cl_sock (client_at m1 j)) k1 = (b, k2)" by force
  obtain e k3 where s: "ns_so_error nt (cl_sock (client_at m1 j)) k2 = (e, k3)" by force
  show ?thesis
  proof (cases "b \<and> e = Some 0")
    case True
    then have "me' = upd_client j (\<lambda>c. c\<lparr>cl_state := NEW\<rparr>) m1 \<and> go"
      using assms(1) l d s by (auto simp: connecting_case_def Let_def)
    then show ?thesis using l' assms(2) only_trans[OF l'(4) only_upd] by (auto simp: client_at_upd)
  next
    case False
    then have "me' = set_dying m1 \<and> \<not> go"
      using assms(1) l d s by (auto simp: connecting_case_def Let_def split: option.splits if_splits)
    then show ?thesis using l' only_trans[OF l'(4) only_set_dying] by auto
  qed
qed

lemma new_case_effect:
  assumes "new_case nt cfg j me k = (go, me', k')" and "j < length (cw_clients me)"
  shows "only j me me' \<and> client_at me' j = (client_at me j)\<lparr>cl_state := (if go then READY else cl_state (client_at me j))\<rparr> \<and>
    (\<not> go \<longrightarrow> cw_dying me')"
  using assms by (auto simp: new_case_def Let_def client_at_upd split: prod.splits if_splits)

lemma ready_case_effect:
  assumes "ready_case nt cfg j me k = Some (me', k')" and "j < length (cw_clients me)"
  shows "only j me me' \<and> client_at me' j = (client_at me j)\<lparr>cl_state := SENT\<rparr>"
proof -
  obtain m1 k1 where l: "log_event nt cfg j SEND_START me k = (m1, k1)" by force
  note l1 = log_event_keeps[OF l]
  let ?c = "client_at m1 j"
  obtain sent k2 where s: "client_send nt (cl_sock ?c) (cl_buf ?c) (cl_buf_size ?c) 0 k1 = Some (sent, k2)"
    using assms(1) l by (auto simp: ready_case_def Let_def bind_eq_Some_conv)
  let ?m = "if sent then m1 else set_dying m1"
  obtain m3 k3 where l3: "log_event nt cfg j SEND_DONE ?m k2 = (m3, k3)" by force
  note l3' = log_event_keeps[OF l3]
  have me': "me' = upd_client j (\<lambda>c. c\<lparr>cl_state := SENT\<rparr>) m3"
    using assms(1) l s l3 by (auto simp: ready_case_def Let_def)
  have "only j me ?m" using only_trans[OF l1(4)[of j] only_set_dying] l1(4)[of j] by auto
  then have "only j me me'" unfolding me' by (rule only_trans[OF only_trans[OF _ l3'(4)] only_upd])
  moreover have "client_at m3 j = client_at me j" using l1 l3' by (cases sent) auto
  ultimately show ?thesis using assms(2) l1 l3' unfolding me' by (cases sent) (auto simp: client_at_upd)
qed

lemma word_minus_1_unat: "(w :: u64) \<noteq> 0 \<Longrightarrow> unat (w - 1) = unat w - 1"
  by (rule unat_minus_one)

text \<open>The end of a transaction, and the ways through the case \<open>SENT\<close>.\<close>

definition txn_done :: "nat \<Rightarrow> cworker \<Rightarrow> cworker" where
  "txn_done j m =
     (let m5 = upd_client j (\<lambda>c. c\<lparr>cl_cursor := 0, cl_txn_remaining := cl_txn_remaining c - 1\<rparr>) m;
          m6 = upd_client j (\<lambda>c. c\<lparr>cl_batch_remaining := cl_batch_remaining c - 1\<rparr>) m5
      in if cl_txn_remaining (client_at m5 j) = 0 then upd_client j (\<lambda>c. c\<lparr>cl_state := DONE\<rparr>) m5
         else upd_client j (\<lambda>c. c\<lparr>cl_state := (if cl_batch_remaining (client_at m6 j) = 0 then INIT else READY)\<rparr>) m6)"

lemma txn_done_effect:
  "only j m (txn_done j m)" "cw_log (txn_done j m) = cw_log m"
  "j < length (cw_clients m) \<Longrightarrow> client_at (txn_done j m) j = (client_at m j)\<lparr>cl_cursor := 0,
     cl_txn_remaining := cl_txn_remaining (client_at m j) - 1,
     cl_batch_remaining := (if cl_txn_remaining (client_at m j) - 1 = 0 then cl_batch_remaining (client_at m j)
       else cl_batch_remaining (client_at m j) - 1),
     cl_state := (if cl_txn_remaining (client_at m j) - 1 = 0 then DONE
       else if cl_batch_remaining (client_at m j) - 1 = 0 then INIT else READY)\<rparr>"
  using only_trans[OF only_upd only_upd] only_trans[OF only_trans[OF only_upd only_upd] only_upd]
  by (auto simp: txn_done_def Let_def client_at_upd)

lemma sent_case_cases:
  assumes "sent_case nt cfg j me k = Some (go, me', k')"
  obtains m1 k1 got failed buf k2 m4 k3 where "log_event nt cfg j RECV_START me k = (m1, k1)"
    "client_recv nt (cl_sock (client_at me j)) (cl_cursor (client_at me j))
      (cl_buf_size (client_at me j) - cl_cursor (client_at me j)) 0 (cl_buf (client_at me j)) k1 = Some (got, failed, buf, k2)"
    "log_event nt cfg j RECV_DONE (upd_client j (\<lambda>c. c\<lparr>cl_cursor := cl_cursor c + got, cl_buf := buf\<rparr>)
      (if failed then set_dying m1 else m1)) k2 = (m4, k3)"
    "go \<longleftrightarrow> \<not> cl_cursor (client_at m4 j) < cl_buf_size (client_at m4 j)" "me' = (if go then txn_done j m4 else m4)"
proof -
  let ?c = "client_at me j"
  obtain m1 k1 where l: "log_event nt cfg j RECV_START me k = (m1, k1)" by force
  have cx: "client_at m1 j = ?c" using log_event_keeps(1)[OF l] by simp
  obtain got failed buf k2 where r: "client_recv nt (cl_sock ?c) (cl_cursor ?c) (cl_buf_size ?c - cl_cursor ?c) 0 (cl_buf ?c) k1
      = Some (got, failed, buf, k2)"
    using assms l cx by (auto simp: sent_case_def Let_def bind_eq_Some_conv)
  obtain m4 k3 where l4: "log_event nt cfg j RECV_DONE (upd_client j (\<lambda>c. c\<lparr>cl_cursor := cl_cursor c + got, cl_buf := buf\<rparr>)
      (if failed then set_dying m1 else m1)) k2 = (m4, k3)" by force
  note run = assms[unfolded sent_case_def l prod.case Let_def cx r Option.bind.bind_lunit l4]
  show thesis
    by (rule that[OF l r l4]) (use run in \<open>auto simp: txn_done_def Let_def split: if_splits prod.splits\<close>)
qed

lemma sent_case_effect:
  assumes "sent_case nt cfg j me k = Some (go, me', k')" and j: "j < length (cw_clients me)"
    and fits: "recv_fits nt" and c: "client_ok cfg (client_at me j)"
  shows "only j me me' \<and> (\<exists>got buf. length buf = cf_msg_size cfg \<and> take (cl_cursor (client_at me j)) buf =
      take (cl_cursor (client_at me j)) (cl_buf (client_at me j)) \<and>
     (if go then
        client_at me' j = (client_at me j)\<lparr>cl_buf := buf, cl_cursor := 0,
          cl_txn_remaining := cl_txn_remaining (client_at me j) - 1,
          cl_batch_remaining := (if cl_txn_remaining (client_at me j) - 1 = 0 then cl_batch_remaining (client_at me j)
            else cl_batch_remaining (client_at me j) - 1),
          cl_state := (if cl_txn_remaining (client_at me j) - 1 = 0 then DONE
            else if cl_batch_remaining (client_at me j) - 1 = 0 then INIT else READY)\<rparr>
      else cl_cursor (client_at me j) + got < cf_msg_size cfg \<and>
        client_at me' j = (client_at me j)\<lparr>cl_buf := buf, cl_cursor := cl_cursor (client_at me j) + got\<rparr>))"
  using assms(1)
proof (rule sent_case_cases)
  let ?c = "client_at me j"
  fix m1 k1 got failed buf k2 m4 k3
  assume l: "log_event nt cfg j RECV_START me k = (m1, k1)"
    and r: "client_recv nt (cl_sock ?c) (cl_cursor ?c) (cl_buf_size ?c - cl_cursor ?c) 0 (cl_buf ?c) k1 = Some (got, failed, buf, k2)"
    and l4: "log_event nt cfg j RECV_DONE (upd_client j (\<lambda>c. c\<lparr>cl_cursor := cl_cursor c + got, cl_buf := buf\<rparr>)
      (if failed then set_dying m1 else m1)) k2 = (m4, k3)"
    and go: "go \<longleftrightarrow> \<not> cl_cursor (client_at m4 j) < cl_buf_size (client_at m4 j)" and me': "me' = (if go then txn_done j m4 else m4)"
  have b: "length buf = cf_msg_size cfg" "take (cl_cursor ?c) buf = take (cl_cursor ?c) (cl_buf ?c)"
    "cl_buf_size ?c = cf_msg_size cfg"
    using client_recv_fits[OF r] fits c by (auto simp: client_ok_def)
  note l1 = log_event_keeps[OF l] and l4' = log_event_keeps[OF l4]
  have o4: "only j me m4"
    by (rule only_trans[OF only_trans[OF _ only_upd] l4'(4)]) (use l1(4)[of j] only_trans[OF l1(4) only_set_dying] in auto)
  have c4: "client_at m4 j = ?c\<lparr>cl_cursor := cl_cursor ?c + got, cl_buf := buf\<rparr>" "j < length (cw_clients m4)"
    using l1 l4' j by (auto simp: client_at_upd)
  show ?thesis
    using go me' b o4 only_trans[OF o4 txn_done_effect(1)] txn_done_effect(3)[OF c4(2)]
    by (cases go) (auto simp: c4(1) intro!: exI[of _ got] exI[of _ buf])
qed

lemma pred_le: "(w :: u64) \<noteq> 0 \<Longrightarrow> w \<le> b \<Longrightarrow> w - 1 \<le> b"
  by (simp add: word_le_nat_alt unat_minus_one)

lemma sent_case_ok:
  assumes "sent_case nt cfg j me k = Some (go, me', k')" and j: "j < length (cw_clients me)"
    and fits: "recv_fits nt" and c: "client_ok cfg (client_at me j)" "cl_state (client_at me j) = SENT"
  shows "only j me me' \<and> client_ok cfg (client_at me' j) \<and> settled me' j \<and> cl_state (client_at me' j) \<noteq> CONNECTING \<and>
    cl_state (client_at me' j) \<noteq> NEW \<and> (go \<longleftrightarrow> cl_state (client_at me' j) \<noteq> SENT) \<and>
    (if go then 1 else 0) + left me' j = left me j"
proof -
  let ?c = "client_at me j"
  from sent_case_effect[OF assms(1) j fits c(1)] obtain got buf where e: "only j me me'" "length buf = cf_msg_size cfg"
    "if go then client_at me' j = ?c\<lparr>cl_buf := buf, cl_cursor := 0, cl_txn_remaining := cl_txn_remaining ?c - 1,
          cl_batch_remaining := (if cl_txn_remaining ?c - 1 = 0 then cl_batch_remaining ?c else cl_batch_remaining ?c - 1),
          cl_state := (if cl_txn_remaining ?c - 1 = 0 then DONE
            else if cl_batch_remaining ?c - 1 = 0 then INIT else READY)\<rparr>
      else cl_cursor ?c + got < cf_msg_size cfg \<and> client_at me' j = ?c\<lparr>cl_buf := buf, cl_cursor := cl_cursor ?c + got\<rparr>"
    by blast
  have t: "cl_txn_remaining ?c \<noteq> 0" "cl_batch_remaining ?c \<noteq> 0" "0 < cf_msg_size cfg" using c by (auto simp: client_ok_def)
  show ?thesis
  proof (cases go)
    case True
    have "0 < unat (cl_txn_remaining ?c)" using t(1) by (simp add: unat_gt_0)
    then have u: "unat (cl_txn_remaining ?c - 1) + 1 = unat (cl_txn_remaining ?c)"
      by (simp add: unat_minus_one[OF t(1)])
    consider "cl_txn_remaining ?c - 1 = 0" | "cl_txn_remaining ?c - 1 \<noteq> 0" "cl_batch_remaining ?c - 1 = 0"
      | "cl_txn_remaining ?c - 1 \<noteq> 0" "cl_batch_remaining ?c - 1 \<noteq> 0" by blast
    then show ?thesis
      using True e c t u pred_le[OF t(1)] pred_le[OF t(2)] 
      by cases (auto simp: client_ok_def settled_def left_def word_neq_0_conv[symmetric])
  next
    case False
    then show ?thesis using e c by (auto simp: client_ok_def settled_def left_def)
  qed
qed

text \<open>
  One turn of a transition: a case of its \<open>switch\<close>, and whether a call of itself follows.  A
  transition is a chain of turns, and with a kernel that moves bytes it ends: at most four turns
  follow each other.
\<close>

definition turn :: "'k net_sys \<Rightarrow> client_cfg \<Rightarrow> nat \<Rightarrow> cworker \<Rightarrow> 'k \<Rightarrow> (bool \<times> cworker \<times> 'k) option" where
  "turn nt cfg j me k =
     (case cl_state (client_at me j) of
        INIT \<Rightarrow> Some (init_case nt cfg j me k)
      | CONNECTING \<Rightarrow> Some (connecting_case nt cfg j me k)
      | NEW \<Rightarrow> Some (new_case nt cfg j me k)
      | READY \<Rightarrow> map_option (Pair False) (ready_case nt cfg j me k)
      | SENT \<Rightarrow> sent_case nt cfg j me k
      | DONE \<Rightarrow> Some (False, done_case nt j me k))"

definition gain :: "nat \<Rightarrow> cworker \<Rightarrow> nat" where
  "gain j me = (if cl_state (client_at me j) = SENT then 1 else 0)"

lemma switch_turn:
  "(case cl_state (client_at me j) of
        INIT \<Rightarrow> (let (go, me1, k1) = init_case nt cfg j me k in if go then rec me1 k1 else Some (0, me1, k1))
      | CONNECTING \<Rightarrow> (let (go, me1, k1) = connecting_case nt cfg j me k in if go then rec me1 k1 else Some (0, me1, k1))
      | NEW \<Rightarrow> (let (go, me1, k1) = new_case nt cfg j me k in if go then rec me1 k1 else Some (0, me1, k1))
      | READY \<Rightarrow> Option.bind (ready_case nt cfg j me k) (\<lambda>(me1, k1). Some (0, me1, k1))
      | SENT \<Rightarrow> Option.bind (sent_case nt cfg j me k) (\<lambda>(go, me1, k1).
            if go then Option.bind (rec me1 k1) (\<lambda>(n, me2, k2). Some (1 + n, me2, k2)) else Some (0, me1, k1))
      | DONE \<Rightarrow> (let (me1, k1) = done_case nt j me k in Some (0, me1, k1))) =
    Option.bind (turn nt cfg j me k) (\<lambda>(go, me1, k1).
      if go then map_option (\<lambda>(n, me2, k2). (gain j me + n, me2, k2)) (rec me1 k1) else Some (0, me1, k1))"
proof (cases "cl_state (client_at me j)")
  case READY
  then show ?thesis by (cases "ready_case nt cfg j me k") (simp_all add: turn_def split_beta)
next
  case SENT
  have h: "Option.bind x (\<lambda>(n, me2, k2). Some (1 + n, me2, k2)) = map_option (\<lambda>(n, me2, k2). (1 + n, me2, k2)) x"
    for x :: "(nat \<times> cworker \<times> 'a) option" by (cases x) (simp_all add: split_beta)
  have g: "gain j me = 1" using SENT by (simp add: gain_def)
  show ?thesis unfolding turn_def SENT cstate.case g h by (rule refl)
next
  case DONE
  then show ?thesis by (simp add: turn_def split_beta)
qed (simp_all add: turn_def gain_def split_beta option.map_id)

lemma transition_turn:
  "do_state_transition nt cfg j me k =
    Option.bind (turn nt cfg j me k) (\<lambda>(go, me1, k1).
      if go then map_option (\<lambda>(n, me2, k2). (gain j me + n, me2, k2)) (do_state_transition nt cfg j me1 k1)
      else Some (0, me1, k1))"
  by (subst do_state_transition.simps) (rule switch_turn)

lemma turns_induct [consumes 1, case_names stop go]:
  assumes "do_state_transition nt cfg j me k = Some (n, me', k')"
    and stop: "\<And>me k m k1. turn nt cfg j me k = Some (False, m, k1) \<Longrightarrow> P me 0 m"
    and go: "\<And>me k m k1 n m2. turn nt cfg j me k = Some (True, m, k1) \<Longrightarrow> P m n m2 \<Longrightarrow> P me (gain j me + n) m2"
  shows "P me n me'"
proof -
  have "nt' = nt \<longrightarrow> cfg' = cfg \<longrightarrow> j' = j \<longrightarrow> P me (fst y) (fst (snd y))"
    if "do_state_transition nt' cfg' j' me k = Some y" for nt' cfg' j' me k y
    using that
  proof (induction rule: transition_induct)
    case (step rec nt' cfg' j' me k y)
    show ?case
    proof (intro impI)
      assume e: "nt' = nt" "cfg' = cfg" "j' = j"
      from step(2) obtain b m k1 where t: "turn nt cfg j me k = Some (b, m, k1)"
        and y: "(if b then map_option (\<lambda>(n, me2, k2). (gain j me + n, me2, k2)) (rec nt cfg j m k1) else Some (0, m, k1)) = Some y"
        unfolding switch_turn e by (auto simp: bind_eq_Some_conv)
      show "P me (fst y) (fst (snd y))"
      proof (cases b)
        case True
        then obtain n m2 k2 where r: "rec nt cfg j m k1 = Some (n, m2, k2)" "y = (gain j me + n, m2, k2)" using y by auto
        have "P m n m2" using step(1)[OF r(1)] by simp
        then show ?thesis using go t True by (simp add: r(2))
      next
        case False
        then show ?thesis using stop t y by auto
      qed
    qed
  qed
  from this[OF assms(1)] show ?thesis by simp
qed

primrec rank :: "cstate \<Rightarrow> nat" where
  "rank SENT = 3" | "rank CONNECTING = 3" | "rank INIT = 2" | "rank NEW = 2" | "rank READY = 1" | "rank DONE = 0"

lemma turn_ok:
  assumes t: "turn nt cfg j me k = Some (go, m, k1)" and a: "recv_fits nt" "cfg_ok cfg" "j < length (cw_clients me)"
    and c: "client_ok cfg (client_at me j)" "settled me j"
  shows "only j me m \<and> client_ok cfg (client_at m j) \<and> settled m j \<and>
    (go \<longrightarrow> rank (cl_state (client_at m j)) < rank (cl_state (client_at me j))) \<and>
    (if go then gain j me else 0) + left m j = left me j"
proof -
  let ?c = "client_at me j"
  have bs: "0 < cf_batch_size cfg" "0 < cf_msg_size cfg" using a c by (auto simp: cfg_ok_def client_ok_def)
  show ?thesis
  proof (cases "cl_state ?c")
    case INIT
    then have "init_case nt cfg j me k = (go, m, k1)" using t by (simp add: turn_def)
    from init_case_effect[OF this a(3)] INIT c(1) bs show ?thesis
      by (auto simp: client_ok_def settled_def left_def gain_def)
  next
    case CONNECTING
    then have "connecting_case nt cfg j me k = (go, m, k1)" using t by (simp add: turn_def)
    from connecting_case_effect[OF this a(3)] CONNECTING c(1) show ?thesis
      by (auto simp: client_ok_def settled_def left_def gain_def)
  next
    case NEW
    then have "new_case nt cfg j me k = (go, m, k1)" using t by (simp add: turn_def)
    from new_case_effect[OF this a(3)] NEW c(1) show ?thesis
      by (auto simp: client_ok_def settled_def left_def gain_def)
  next
    case READY
    then have "ready_case nt cfg j me k = Some (m, k1)" "\<not> go" using t by (auto simp: turn_def)
    from ready_case_effect[OF this(1) a(3)] this(2) READY c(1) show ?thesis
      by (auto simp: client_ok_def settled_def left_def)
  next
    case SENT
    then have "sent_case nt cfg j me k = Some (go, m, k1)" using t by (simp add: turn_def)
    note e = sent_case_ok[OF this a(3,1) c(1) SENT]
    then have "go \<longrightarrow> rank (cl_state (client_at m j)) < rank (cl_state ?c)"
      using SENT by (cases "cl_state (client_at m j)") auto
    then show ?thesis using e SENT by (auto simp: gain_def)
  next
    case DONE
    then have "done_case nt j me k = (m, k1)" "\<not> go" using t by (auto simp: turn_def)
    then show ?thesis using DONE a c
      by (auto simp: done_case_def Let_def client_at_upd client_ok_def settled_def left_def split: prod.splits)
  qed
qed

lemma transition_accounts:
  assumes "do_state_transition nt cfg j me k = Some y" and a: "recv_fits nt" "cfg_ok cfg"
    and "j < length (cw_clients me)" "client_ok cfg (client_at me j)" "settled me j"
  shows "only j me (fst (snd y)) \<and> client_ok cfg (client_at (fst (snd y)) j) \<and> settled (fst (snd y)) j \<and>
    fst y + left (fst (snd y)) j = left me j \<and> (cl_state (client_at me j) \<noteq> SENT \<longrightarrow> fst y = 0) \<and> fst y \<le> 1"
proof -
  obtain n me' k' where y: "y = (n, me', k')" by (cases y)
  from assms(1)[unfolded y] assms(4-6) have "only j me me' \<and> client_ok cfg (client_at me' j) \<and> settled me' j \<and>
    n + left me' j = left me j \<and> (cl_state (client_at me j) \<noteq> SENT \<longrightarrow> n = 0) \<and> n \<le> 1"
  proof (induction rule: turns_induct)
    case (stop me k m k1)
    from turn_ok[OF stop(1) a stop(2-4)] show ?case by simp
  next
    case (go me k m k1 n m2)
    from turn_ok[OF go(1) a go(3-5)] have t: "only j me m" "client_ok cfg (client_at m j)" "settled m j"
      "rank (cl_state (client_at m j)) < rank (cl_state (client_at me j))" "gain j me + left m j = left me j" by simp_all
    have "j < length (cw_clients m)" using t(1) go(3) by (simp add: only_def)
    note ih = go.IH[OF this t(2,3)]
    moreover have "cl_state (client_at m j) \<noteq> SENT" using t(4) by (cases "cl_state (client_at me j)") auto
    ultimately show ?case using t only_trans[OF t(1)] by (auto simp: gain_def)
  qed
  then show ?thesis by (simp add: y)
qed

lemma turn_returns:
  assumes "moves nt" and b: "cl_buf_size (client_at me j) \<le> length (cl_buf (client_at me j))"
  shows "turn nt cfg j me k \<noteq> None"
proof (cases "cl_state (client_at me j)")
  case READY
  obtain m1 k1 where l: "log_event nt cfg j SEND_START me k = (m1, k1)" by force
  have "client_at m1 j = client_at me j" using log_event_keeps[OF l] by simp
  then obtain s k2 where "client_send nt (cl_sock (client_at m1 j)) (cl_buf (client_at m1 j)) (cl_buf_size (client_at m1 j)) 0 k1
      = Some (s, k2)" using client_send_returns[OF assms] by fastforce
  then show ?thesis using READY l by (auto simp: turn_def ready_case_def Let_def split: prod.splits)
next
  case SENT
  obtain m1 k1 where l: "log_event nt cfg j RECV_START me k = (m1, k1)" by force
  obtain z where "client_recv nt (cl_sock (client_at m1 j)) (cl_cursor (client_at m1 j))
      (cl_buf_size (client_at m1 j) - cl_cursor (client_at m1 j)) 0 (cl_buf (client_at m1 j)) k1 = Some z"
    using client_recv_returns[OF assms(1)] by blast
  then show ?thesis using SENT l by (auto simp: turn_def sent_case_def Let_def split: prod.splits)
qed (simp_all add: turn_def)

lemma transition_returns_ok:
  assumes a: "recv_fits nt" "cfg_ok cfg" and mv: "moves nt"
  shows "j < length (cw_clients me) \<Longrightarrow> client_ok cfg (client_at me j) \<Longrightarrow> settled me j \<Longrightarrow>
    \<exists>y. do_state_transition nt cfg j me k = Some y"
proof (induction "rank (cl_state (client_at me j))" arbitrary: me k rule: less_induct)
  case less
  have "cl_buf_size (client_at me j) \<le> length (cl_buf (client_at me j))" using less.prems by (simp add: client_ok_def)
  then obtain go m k1 where t: "turn nt cfg j me k = Some (go, m, k1)" using turn_returns[OF mv] by fastforce
  note o = turn_ok[OF t a less.prems]
  show ?case
  proof (cases go)
    case True
    have "j < length (cw_clients m)" using o less.prems(1) by (simp add: only_def)
    then obtain y where "do_state_transition nt cfg j m k1 = Some y" using less.hyps[of m k1] o True by blast
    then show ?thesis using t True by (subst transition_turn) (simp add: split_beta)
  qed (use t in \<open>subst transition_turn, simp\<close>)
qed

section \<open>All clients of a worker\<close>

definition all_left :: "cworker \<Rightarrow> nat" where
  "all_left me = (\<Sum>i < length (cw_clients me). left me i)"

lemma only_all_left:
  assumes "only j me me'" and "j < length (cw_clients me)" and "n + left me' j = left me j"
  shows "n + all_left me' = all_left me"
proof -
  let ?L = "length (cw_clients me)"
  have len: "length (cw_clients me') = ?L" using assms(1) by (simp add: only_def)
  have "(\<Sum>i \<in> {..<?L} - {j}. left me' i) = (\<Sum>i \<in> {..<?L} - {j}. left me i)"
    using assms(1) by (intro sum.cong) (auto simp: only_def left_def)
  then show ?thesis using assms(2,3) unfolding all_left_def len
    by (simp add: sum.remove[of "{..<?L}" j])
qed

lemma only_workers_ok:
  assumes "only j me me'" and "workers_ok cfg me" and "client_ok cfg (client_at me' j)" and "settled me' j"
  shows "workers_ok cfg me'"
  unfolding workers_ok_def
proof (intro allI impI)
  fix i assume "i < length (cw_clients me')"
  then have i: "i < length (cw_clients me)" using assms(1) by (simp add: only_def)
  show "client_ok cfg (client_at me' i) \<and> settled me' i"
  proof (cases "i = j")
    case False
    then have "client_at me' i = client_at me i" "cw_dying me \<longrightarrow> cw_dying me'" using assms(1) by (auto simp: only_def)
    moreover have "client_ok cfg (client_at me i)" "settled me i" using assms(2) i by (auto simp: workers_ok_def)
    ultimately show ?thesis by (auto simp: settled_def)
  qed (use assms(3,4) in simp)
qed

lemma transition_worker:
  assumes "do_state_transition nt cfg j me k = Some (n, me', k')" and "recv_fits nt" and "cfg_ok cfg"
    and "j < length (cw_clients me)" and "workers_ok cfg me"
  shows "workers_ok cfg me' \<and> length (cw_clients me') = length (cw_clients me) \<and> n + all_left me' = all_left me \<and>
    (cw_dying me \<longrightarrow> cw_dying me')"
proof -
  have "client_ok cfg (client_at me j)" "settled me j" using assms(4,5) by (auto simp: workers_ok_def)
  then have t: "only j me me'" "client_ok cfg (client_at me' j)" "settled me' j" "n + left me' j = left me j"
    using transition_accounts[OF assms(1)] assms(2-4) by auto
  then show ?thesis using only_workers_ok[OF t(1) assms(5) t(2,3)] only_all_left[OF t(1) assms(4) t(4)]
    by (simp add: only_def)
qed

lemma serve_accounts:
  "serve nt cfg js complete me k = Some (Inr (complete', me', k')) \<Longrightarrow> recv_fits nt \<Longrightarrow> cfg_ok cfg \<Longrightarrow> workers_ok cfg me \<Longrightarrow>
    workers_ok cfg me' \<and> length (cw_clients me') = length (cw_clients me) \<and>
    complete' + all_left me' = complete + all_left me \<and> (cw_dying me \<longrightarrow> cw_dying me')"
proof (induction js arbitrary: complete me k)
  case Nil
  then show ?case by auto
next
  case (Cons j js)
  then obtain n m k1 where j: "j < length (cw_clients me)" "do_state_transition nt cfg j me k = Some (n, m, k1)"
    "serve nt cfg js (complete + n) m k1 = Some (Inr (complete', me', k'))"
    by (auto simp: bind_eq_Some_conv split: if_splits)
  from transition_worker[OF j(2) Cons.prems(2,3) j(1) Cons.prems(4)] Cons.IH[OF j(3) Cons.prems(2,3)]
  show ?case by auto
qed

lemma client_loop_accounts:
  "client_loop nt cfg target complete me k = Some y \<Longrightarrow> (\<forall>complete' me' k'. y = Inr (complete', me', k') \<longrightarrow>
    recv_fits nt \<longrightarrow> cfg_ok cfg \<longrightarrow> workers_ok cfg me \<longrightarrow>
    workers_ok cfg me' \<and> length (cw_clients me') = length (cw_clients me) \<and>
    complete' + all_left me' = complete + all_left me \<and> (cw_dying me \<longrightarrow> cw_dying me') \<and>
    (is_dying nt me' k' \<or> target \<le> complete'))"
proof (induction rule: client_loop_induct)
  case (step rec nt cfg target complete me k y)
  show ?case
  proof (intro allI impI)
    fix complete' me' k' assume a: "y = Inr (complete', me', k')" "recv_fits nt" "cfg_ok cfg" "workers_ok cfg me"
    let ?P = "workers_ok cfg me' \<and> length (cw_clients me') = length (cw_clients me) \<and>
      complete' + all_left me' = complete + all_left me \<and> (cw_dying me \<longrightarrow> cw_dying me') \<and>
      (is_dying nt me' k' \<or> target \<le> complete')"
    show ?P
    proof (cases "is_dying nt me k \<or> target \<le> complete")
      case True
      then show ?thesis using step(2) a by auto
    next
      case False
      obtain w k1 where w: "ns_epoll_wait nt EVENT_BACKLOG k = (w, k1)" by force
      show ?thesis
      proof (cases w)
        case Wait_Timeout
        then show ?thesis using step(2) False w a by auto
      next
        case Wait_Error
        then show ?thesis using step(2) False w a
          by (auto simp: is_dying_def workers_ok_def settled_def all_left_def left_def)
      next
        case (Wait_Ready js)
        then obtain r where r: "serve nt cfg js complete me k1 = Some r"
          "(case r of Inl e \<Rightarrow> Some (Inl e) | Inr (c1, m, k2) \<Rightarrow> rec nt cfg target c1 m k2) = Some (Inr (complete', me', k'))"
          using step(2) False w a(1) by (auto simp: bind_eq_Some_conv)
        then obtain c1 m k2 where s: "serve nt cfg js complete me k1 = Some (Inr (c1, m, k2))"
          "rec nt cfg target c1 m k2 = Some (Inr (complete', me', k'))"
          by (cases r) auto
        from serve_accounts[OF s(1) a(2,3,4)] step(1)[OF s(2)] a(2,3) show ?thesis by auto
      qed
    qed
  qed
qed

lemma worker_setup_Inr:
  assumes "worker_setup env cfg rnd idx = Inr me"
  shows "length (cw_clients me) = cf_clients_per_thread cfg" and "cw_log me = []" and "\<not> cw_dying me"
    and "i < cf_clients_per_thread cfg \<Longrightarrow> client_at me i = fresh_client cfg (rnd i)"
  using assms by (auto simp: worker_setup_def client_at_def split: if_splits)

lemma setup_workers_ok:
  assumes "worker_setup env cfg rnd idx = Inr me" and "0 < cf_msg_size cfg" and "0 < cf_transaction_count cfg"
  shows "workers_ok cfg me"
  using assms(2,3) worker_setup_Inr[OF assms(1)]
  by (auto simp: workers_ok_def client_ok_def settled_def fresh_client_def)

lemma setup_all_left:
  assumes "worker_setup env cfg rnd idx = Inr me"
  shows "all_left me = cf_clients_per_thread cfg * unat (cf_transaction_count cfg)"
  using worker_setup_Inr[OF assms] by (simp add: all_left_def left_def fresh_client_def)

lemma total_transactions_exact:
  "cf_clients_per_thread cfg * unat (cf_transaction_count cfg) < 2 ^ 64 \<Longrightarrow> cf_clients_per_thread cfg < 2 ^ 64 \<Longrightarrow>
    total_transactions cfg = cf_clients_per_thread cfg * unat (cf_transaction_count cfg)"
  by (simp add: total_transactions_def unat_word_ariths take_bit_nat_eq_self unsigned_of_nat mult.commute)

text \<open>A worker all of whose transactions are done: every client has reached \<open>DONE\<close>.\<close>

lemma none_left_done:
  assumes "workers_ok cfg me" and "all_left me = 0" and "j < length (cw_clients me)"
  shows "cl_state (client_at me j) = DONE \<and> cl_txn_remaining (client_at me j) = 0"
proof -
  have "left me j = 0" using assms(2,3) by (auto simp: all_left_def)
  then have "cl_txn_remaining (client_at me j) = 0" by (simp add: left_def unat_eq_zero)
  then show ?thesis using assms(1,3) by (force simp: workers_ok_def client_ok_def)
qed

lemma run_clients_accounts:
  assumes "run_clients nt cfg me k = Some (Inr (complete, me', k'))" and "recv_fits nt" and "cfg_ok cfg"
    and "workers_ok cfg me"
  shows "workers_ok cfg me' \<and> length (cw_clients me') = length (cw_clients me) \<and> complete + all_left me' = all_left me \<and>
    (is_dying nt me' k' \<or> total_transactions cfg \<le> complete)"
proof -
  obtain r where r: "serve nt cfg [0..<cf_clients_per_thread cfg] 0 me k = Some r"
    "(case r of Inl e \<Rightarrow> Some (Inl e) | Inr (c1, m, k1) \<Rightarrow> client_loop nt cfg (total_transactions cfg) c1 m k1)
       = Some (Inr (complete, me', k'))"
    using assms(1) by (auto simp: run_clients_def bind_eq_Some_conv)
  then obtain c1 m k1 where s: "serve nt cfg [0..<cf_clients_per_thread cfg] 0 me k = Some (Inr (c1, m, k1))"
    "client_loop nt cfg (total_transactions cfg) c1 m k1 = Some (Inr (complete, me', k'))"
    by (cases r) auto
  from serve_accounts[OF s(1) assms(2-4)] client_loop_accounts[OF s(2)] assms(2,3) show ?thesis by auto
qed

section \<open>Properties\<close>

text \<open>
  C20: A worker counts its transactions exactly: what the event loop has counted as complete plus
  what its clients still have to do is always the total it set out with.  If the loop ends and no
  thread is dying, then all transactions are complete and every client has reached its final state;
  in particular a worker never stops early and never counts a transaction twice.
\<close>

theorem worker_counts_transactions:
  assumes "worker_setup env cfg rnd idx = Inr me" and "run_clients nt cfg me k = Some (Inr (complete, me', k'))"
    and "recv_fits nt" and "0 < cf_batch_size cfg" and "0 < cf_msg_size cfg" and "0 < cf_transaction_count cfg"
    and "cf_clients_per_thread cfg * unat (cf_transaction_count cfg) < 2 ^ 64" and "cf_clients_per_thread cfg < 2 ^ 64"
  shows "complete + (\<Sum>i < cf_clients_per_thread cfg. unat (cl_txn_remaining (client_at me' i))) =
      cf_clients_per_thread cfg * unat (cf_transaction_count cfg) \<and>
    (\<not> is_dying nt me' k' \<longrightarrow> complete = cf_clients_per_thread cfg * unat (cf_transaction_count cfg) \<and>
      (\<forall>j < cf_clients_per_thread cfg. cl_state (client_at me' j) = DONE \<and> cl_txn_remaining (client_at me' j) = 0))"
proof -
  have c: "cfg_ok cfg" using assms(4) by (simp add: cfg_ok_def)
  note r = run_clients_accounts[OF assms(2,3) c setup_workers_ok[OF assms(1,5,6)]]
  have len: "length (cw_clients me') = cf_clients_per_thread cfg" using r worker_setup_Inr(1)[OF assms(1)] by simp
  have sum: "complete + all_left me' = cf_clients_per_thread cfg * unat (cf_transaction_count cfg)"
    using r setup_all_left[OF assms(1)] by simp
  have z: "all_left me' = 0" if "\<not> is_dying nt me' k'"
  proof -
    have "total_transactions cfg \<le> complete" using that r by blast
    then show ?thesis using sum unfolding total_transactions_exact[OF assms(7,8)] by linarith
  qed
  have d: "cl_state (client_at me' j) = DONE \<and> cl_txn_remaining (client_at me' j) = 0"
    if "\<not> is_dying nt me' k'" "j < cf_clients_per_thread cfg" for j
    using none_left_done[OF conjunct1[OF r] z[OF that(1)]] that(2) len by simp
  show ?thesis
  proof (intro conjI impI allI)
    show "complete + (\<Sum>i < cf_clients_per_thread cfg. unat (cl_txn_remaining (client_at me' i))) =
        cf_clients_per_thread cfg * unat (cf_transaction_count cfg)"
      using sum by (simp only: all_left_def left_def len)
    show "complete = cf_clients_per_thread cfg * unat (cf_transaction_count cfg)" if "\<not> is_dying nt me' k'"
      using sum z[OF that] by linarith
  qed (use d in blast)+
qed

text \<open>
  C21: \<open>do_state_transition\<close> always returns, whatever state the client is in, if the kernel moves at
  least one byte or fails when asked to move some; it counts at most one transaction, exactly the one
  by which \<open>txn_remaining\<close> went down, and touches no other client.
\<close>

theorem transition_returns:
  assumes "recv_fits nt" and "moves nt" and "0 < cf_batch_size cfg" and "workers_ok cfg me" and "j < length (cw_clients me)"
  shows "\<exists>n me' k'. do_state_transition nt cfg j me k = Some (n, me', k') \<and> n \<le> 1 \<and> workers_ok cfg me' \<and>
    unat (cl_txn_remaining (client_at me' j)) + n = unat (cl_txn_remaining (client_at me j)) \<and>
    (\<forall>i. i \<noteq> j \<longrightarrow> client_at me' i = client_at me i)"
proof -
  have c: "cfg_ok cfg" using assms(3) by (simp add: cfg_ok_def)
  have o: "client_ok cfg (client_at me j)" "settled me j" using assms(4,5) by (auto simp: workers_ok_def)
  obtain n me' k' where t: "do_state_transition nt cfg j me k = Some (n, me', k')"
    using transition_returns_ok[OF assms(1) c assms(2,5) o, of k] by auto
  have a: "only j me me'" "client_ok cfg (client_at me' j)" "settled me' j" "n + left me' j = left me j" "n \<le> 1"
    using transition_accounts[OF t] assms(1,5) c o by auto
  show ?thesis using t a only_workers_ok[OF a(1) assms(4) a(2,3)] by (auto simp: left_def only_def add.commute)
qed

text \<open>
  C39: If the server closes the connection while a response is outstanding, the client never
  returns: \<open>recv\<close> then yields 0 for ever, which \<open>client_recv\<close> takes for progress.
\<close>

theorem closed_peer_hangs_client:
  assumes "cl_state (client_at me j) = SENT" and "cl_cursor (client_at me j) < cl_buf_size (client_at me j)"
    and "\<forall>sock n k. fst (ns_recv nt sock n k) = Recv_Data []"
  shows "do_state_transition nt cfg j me k = None"
proof -
  have stuck: "client_recv nt sock off len cur buf k1 = Some y \<Longrightarrow>
      (\<forall>sock n k. fst (ns_recv nt sock n k) = Recv_Data []) \<longrightarrow> len \<le> cur" for nt :: "'k net_sys" and sock off len cur buf k1 y
  proof (induction rule: client_recv_induct)
    case (step rec nt sock off len cur buf k1 y)
    obtain r k2 where r: "ns_recv nt sock (len - cur) k1 = (r, k2)" by force
    show ?case
    proof (intro impI)
      assume a: "\<forall>sock n k. fst (ns_recv nt sock n k) = Recv_Data []"
      then have "r = Recv_Data []" using r by (metis fst_conv)
      then show "len \<le> cur" using step(2) step(1)[rule_format, OF _ a[rule_format]] r by (auto simp: Let_def split: if_splits)
    qed
  qed
  obtain m1 k1 where l: "log_event nt cfg j RECV_START me k = (m1, k1)" by force
  have "client_at m1 j = client_at me j" using log_event_keeps(1)[OF l] by simp
  then have "client_recv nt (cl_sock (client_at m1 j)) (cl_cursor (client_at m1 j))
      (cl_buf_size (client_at m1 j) - cl_cursor (client_at m1 j)) 0 (cl_buf (client_at m1 j)) k1 = None"
    using stuck assms(2,3) by (metis diff_is_0_eq leD le_zero_eq option.exhaust)
  then have "sent_case nt cfg j me k = None" using l by (simp add: sent_case_def Let_def)
  then show ?thesis using assms(1) by (subst do_state_transition.simps) simp
qed

text \<open>A loop-back kernel: what is sent can be received, the one socket is always reported ready.\<close>

definition demo_stamps :: stamp where
  "demo_stamps = \<lparr>st_now = 9, st_cpu = 0, st_pid = 1\<rparr>"

definition loopback :: "(int \<times> byte list) net_sys" where
  "loopback = \<lparr>ns_socket = (\<lambda>(n, q). (n, (n + 1, []))), ns_setsockopt = (\<lambda>_ _ k. (True, k)),
     ns_connect = (\<lambda>_ k. (Connect_InProgress, k)), ns_epoll_add = (\<lambda>_ _ _ k. (True, k)),
     ns_epoll_del = (\<lambda>_ k. (True, k)), ns_so_error = (\<lambda>_ k. (Some 0, k)),
     ns_send = (\<lambda>_ bs (n, q). (int (length (take 3 bs)), (n, q @ take 3 bs))),
     ns_recv = (\<lambda>_ c (n, q). if q = [] then (Recv_Again, (n, q)) else (Recv_Data (take c q), (n, drop c q))),
     ns_shutdown = (\<lambda>_ k. k), ns_close = (\<lambda>_ k. k), ns_epoll_wait = (\<lambda>_ k. (Wait_Ready [0], k)),
     ns_stamp = (\<lambda>k. (demo_stamps, k)), ns_dying = (\<lambda>_. False)\<rparr>"

lemma loopback_fits: "recv_fits loopback"
  by (auto simp: recv_fits_def loopback_def split: if_splits)

lemma loopback_moves: "moves loopback"
  by (auto simp: moves_def loopback_def)

definition demo_cfg :: client_cfg where
  "demo_cfg = \<lparr>cf_transaction_count = 3, cf_batch_size = 2, cf_msg_size = 4, cf_clients_per_thread = 1\<rparr>"

definition demo_client_env :: worker_env where
  "demo_client_env = \<lparr>we_log_calloc = Some 1024, we_epoll_fd = 4, we_clients_calloc = True, we_events_calloc = True,
     we_buf_malloc = (\<lambda>_. True)\<rparr>"

definition demo_cworker :: cworker where
  "demo_cworker = \<lparr>cw_index = 0, cw_epoll_fd = 4, cw_dying = False, cw_log = [],
     cw_clients = [fresh_client demo_cfg (\<lambda>i. word_of_nat (i + 65))]\<rparr>"

lemma demo_cworker_setup: "worker_setup demo_client_env demo_cfg (\<lambda>_ i. word_of_nat (i + 65)) 0 = Inr demo_cworker"
  by (simp add: worker_setup_def demo_client_env_def demo_cworker_def demo_cfg_def)

declare client_send.simps [code] client_recv.simps [code] do_state_transition.simps [code] client_loop.simps [code]

lemma demo_run: "\<exists>n m k. run_clients loopback demo_cfg demo_cworker (3, []) = Some (Inr (n, m, k)) \<and> \<not> is_dying loopback m k"
proof -
  have "case run_clients loopback demo_cfg demo_cworker (3, []) of Some (Inr (n, m, k)) \<Rightarrow> \<not> cw_dying m | _ \<Rightarrow> False"
    by code_simp
  then show ?thesis
    by (auto simp: is_dying_def loopback_def split: option.splits sum.splits)
qed

theorem worker_counts_transactions_witness:
  "\<exists>m k. run_clients loopback demo_cfg demo_cworker (3, []) = Some (Inr (3, m, k)) \<and> cl_state (client_at m 0) = DONE"
proof -
  obtain n m k where r: "run_clients loopback demo_cfg demo_cworker (3, []) = Some (Inr (n, m, k))" "\<not> is_dying loopback m k"
    using demo_run by blast
  have "n = 3 \<and> cl_state (client_at m 0) = DONE"
    using worker_counts_transactions[OF demo_cworker_setup r(1) loopback_fits] r(2) by (simp add: demo_cfg_def)
  then show ?thesis using r(1) by blast
qed

theorem transition_returns_witness:
  "\<exists>n me' k'. do_state_transition loopback demo_cfg 0 demo_cworker (3, []) = Some (n, me', k') \<and> n \<le> 1"
proof -
  have "workers_ok demo_cfg demo_cworker"
    by (rule setup_workers_ok[OF demo_cworker_setup]) (simp_all add: demo_cfg_def)
  then show ?thesis
    using transition_returns[OF loopback_fits loopback_moves, of demo_cfg demo_cworker 0 "(3, [])"]
    by (auto simp: demo_cfg_def demo_cworker_def)
qed

definition closed_peer :: "(int \<times> byte list) net_sys" where
  "closed_peer = loopback\<lparr>ns_recv := (\<lambda>_ _ k. (Recv_Data [], k))\<rparr>"

theorem closed_peer_hangs_client_witness:
  "do_state_transition closed_peer demo_cfg 0 (upd_client 0 (\<lambda>c. c\<lparr>cl_state := SENT\<rparr>) demo_cworker) (3, []) = None"
  by (rule closed_peer_hangs_client)
    (simp_all add: closed_peer_def upd_client_def client_at_def demo_cworker_def fresh_client_def demo_cfg_def)

end
