(* ===== verification/Client_Log.thy ===== *)
theory Client_Log
  imports Tcp_Client
begin

text \<open>
  What the workers of the load generator (Tcp_Client) write to their logs: per client, which events
  with which transaction numbers, and how many, so that the size computed for the log in \<open>main\<close> can
  be compared with what a run needs.
\<close>

section \<open>The log of a run\<close>

text \<open>The values of the records written, without their stamps, and the ones of one client.\<close>

definition recs :: "cworker \<Rightarrow> u64 list list" where
  "recs me = map snd (cw_log me)"

definition event_rec :: "client_cfg \<Rightarrow> nat \<Rightarrow> cworker \<Rightarrow> nat \<Rightarrow> u64 list" where
  "event_rec cfg j me ev = [word_of_nat (cw_index me), word_of_nat j,
     cf_transaction_count cfg - cl_txn_remaining (client_at me j), word_of_nat ev]"

definition logs :: "client_cfg \<Rightarrow> nat \<Rightarrow> nat list \<Rightarrow> cworker \<Rightarrow> cworker \<Rightarrow> bool" where
  "logs cfg j evs me me' \<longleftrightarrow> recs me' = recs me @ map (event_rec cfg j me) evs"

definition same_ids :: "nat \<Rightarrow> cworker \<Rightarrow> cworker \<Rightarrow> bool" where
  "same_ids j me me' \<longleftrightarrow> cw_index me' = cw_index me \<and> cl_txn_remaining (client_at me' j) = cl_txn_remaining (client_at me j)"

lemma event_rec_same: "same_ids j me me1 \<Longrightarrow> event_rec cfg j me1 = event_rec cfg j me"
  by (auto simp: same_ids_def event_rec_def)

lemma logs_trans: "logs cfg j xs me m1 \<Longrightarrow> same_ids j me m1 \<Longrightarrow> logs cfg j ys m1 m2 \<Longrightarrow> logs cfg j (xs @ ys) me m2"
  by (simp add: logs_def event_rec_same)

lemma logs_trivial [simp]: "logs cfg j [] me me" "logs cfg j [] me (set_dying me)" "logs cfg j [] me (upd_client i f me)"
  by (simp_all add: logs_def recs_def)

lemma log_event_logs: "log_event nt cfg j ev me k = (m, k1) \<Longrightarrow> logs cfg j [ev] me m \<and> same_ids j me m"
  using log_event_effect(1,3,5)[of nt cfg j ev me k m k1]
  by (auto simp: logs_def recs_def event_rec_def same_ids_def only_def)

lemma same_ids_simps [simp]: "same_ids j me me" "same_ids j me (set_dying me)"
  by (simp_all add: same_ids_def)

lemma same_ids_trans: "same_ids j me m1 \<Longrightarrow> same_ids j m1 m2 \<Longrightarrow> same_ids j me m2"
  by (simp add: same_ids_def)

lemma same_ids_upd: "j < length (cw_clients me) \<Longrightarrow> (\<And>c. cl_txn_remaining (f c) = cl_txn_remaining c) \<Longrightarrow> same_ids j me (upd_client j f me)"
  by (simp add: same_ids_def client_at_upd)

lemma logs_upd: "logs cfg j evs me m \<Longrightarrow> logs cfg j evs me (upd_client i f m)"
  and logs_set_dying: "logs cfg j evs me m \<Longrightarrow> logs cfg j evs me (set_dying m)"
  by (simp_all add: logs_def recs_def)

lemma init_case_logs:
  assumes "init_case nt cfg j me k = (go, me', k')" and j: "j < length (cw_clients me)"
  shows "cw_dying me' \<or> (if go then logs cfg j [CONNECT_START, CONNECT_DONE] me me'
     else logs cfg j [CONNECT_START] me me' \<and> cl_state (client_at me' j) = CONNECTING)"
  using assms(1)
proof (cases rule: init_case_cases)
  case (no_socket sock)
  then show ?thesis by simp
next
  case (connect sock k3 m2 k4 r)
  have tr: "logs cfg j [] me (tried cfg j sock me)" "same_ids j me (tried cfg j sock me)" "j < length (cw_clients (tried cfg j sock me))"
    using j by (auto simp: tried_def logs_upd same_ids_def client_at_upd)
  have g: "logs cfg j [CONNECT_START] me m2" "same_ids j me m2" "j < length (cw_clients m2)"
    using logs_trans[OF tr(1,2), of "[CONNECT_START]" m2] log_event_logs[OF connect(1)] tr(2,3) log_event_keeps(2)[OF connect(1)]
    by (auto simp: same_ids_def)
  then have m4: "logs cfg j [CONNECT_START] me (connected j r m2)" "same_ids j me (connected j r m2)"
    "cl_state (client_at (connected j r m2) j) = connect_state r" "r = Connect_Error \<longrightarrow> cw_dying (connected j r m2)"
    by (auto simp: connected_def client_at_upd logs_upd logs_set_dying same_ids_def)
  show ?thesis
  proof (cases r)
    case Connect_Ok
    then obtain k5 k6 where l5: "log_event nt cfg j CONNECT_DONE (connected j r m2) k5 = (me', k6)" "go" using connect by auto
    then show ?thesis using logs_trans[OF m4(1,2), of "[CONNECT_DONE]" me'] log_event_logs[OF l5(1)] by simp
  qed (use connect(2,3) m4 in \<open>auto simp: connect_state_def\<close>)
qed

lemma connecting_case_logs:
  assumes "connecting_case nt cfg j me k = (go, me', k')"
  shows "logs cfg j [CONNECT_DONE] me me'"
proof -
  obtain m1 k1 where l: "log_event nt cfg j CONNECT_DONE me k = (m1, k1)" by force
  have "\<exists>f. me' = m1 \<or> me' = set_dying m1 \<or> me' = upd_client j f m1"
    using assms l by (auto simp: connecting_case_def Let_def split: prod.splits option.splits if_splits)
  then show ?thesis using log_event_logs[OF l] by (auto simp: logs_upd logs_set_dying)
qed

lemma new_case_logs: "new_case nt cfg j me k = (go, me', k') \<Longrightarrow> logs cfg j [] me me'"
  by (auto simp: new_case_def Let_def logs_upd logs_set_dying split: prod.splits if_splits)

lemma ready_case_logs:
  assumes "ready_case nt cfg j me k = Some (me', k')"
  shows "logs cfg j [SEND_START, SEND_DONE] me me'"
proof -
  obtain m1 k1 where l: "log_event nt cfg j SEND_START me k = (m1, k1)" by force
  let ?c = "client_at m1 j"
  obtain sent k2 where s: "client_send nt (cl_sock ?c) (cl_buf ?c) (cl_buf_size ?c) 0 k1 = Some (sent, k2)"
    using assms(1) l by (auto simp: ready_case_def Let_def bind_eq_Some_conv)
  let ?m = "if sent then m1 else set_dying m1"
  obtain m3 k3 where l3: "log_event nt cfg j SEND_DONE ?m k2 = (m3, k3)" by force
  have me': "me' = upd_client j (\<lambda>c. c\<lparr>cl_state := SENT\<rparr>) m3"
    using assms(1) l s l3 by (auto simp: ready_case_def Let_def)
  have "logs cfg j [SEND_START] me ?m" "same_ids j me ?m"
    using log_event_logs[OF l] by (auto simp: logs_set_dying same_ids_def)
  from logs_trans[OF this, of "[SEND_DONE]" m3] log_event_logs[OF l3] show ?thesis
    unfolding me' by (simp add: logs_upd)
qed

lemma sent_case_logs:
  assumes "sent_case nt cfg j me k = Some (go, me', k')" and j: "j < length (cw_clients me)"
  shows "logs cfg j [RECV_START, RECV_DONE] me me'"
  using assms(1)
proof (rule sent_case_cases)
  fix m1 k1 got failed buf k2 m4 k3
  let ?m3 = "upd_client j (\<lambda>c. c\<lparr>cl_cursor := cl_cursor c + got, cl_buf := buf\<rparr>) (if failed then set_dying m1 else m1)"
  assume l: "log_event nt cfg j RECV_START me k = (m1, k1)" and l4: "log_event nt cfg j RECV_DONE ?m3 k2 = (m4, k3)"
    and me': "me' = (if go then txn_done j m4 else m4)"
  have "logs cfg j [RECV_START] me ?m3" "same_ids j me ?m3"
    using log_event_logs[OF l] j log_event_keeps(2)[OF l] by (auto simp: logs_upd logs_set_dying same_ids_def client_at_upd)
  from logs_trans[OF this, of "[RECV_DONE]" m4] log_event_logs[OF l4]
  have "logs cfg j [RECV_START, RECV_DONE] me m4" by simp
  then show ?thesis by (simp add: me' logs_def recs_def txn_done_effect(2))
qed

lemma done_case_logs: "done_case nt j me k = (me', k') \<Longrightarrow> logs cfg j [] me me'"
  by (auto simp: done_case_def Let_def split: prod.splits)

text \<open>The transaction numbers in the records of one client and one kind of event, in order.\<close>

definition ids :: "nat \<Rightarrow> nat \<Rightarrow> u64 list list \<Rightarrow> u64 list" where
  "ids j ev rs = map (\<lambda>vs. vs ! 2) (filter (\<lambda>vs. vs ! 1 = word_of_nat j \<and> vs ! 3 = word_of_nat ev) rs)"

lemma ids_Nil [simp]: "ids j ev [] = []"
  by (simp add: ids_def)

lemma ids_append [simp]: "ids j ev (xs @ ys) = ids j ev xs @ ids j ev ys"
  by (simp add: ids_def)

lemma ids_event_rec:
  assumes "e < 6" and "ev < 6" and "i < 2 ^ 64" and "j < 2 ^ 64"
  shows "ids i ev [event_rec cfg j me e] =
    (if i = j \<and> e = ev then [cf_transaction_count cfg - cl_txn_remaining (client_at me j)] else [])"
proof -
  have "(word_of_nat e :: u64) = word_of_nat ev \<longleftrightarrow> e = ev" by (rule word_of_nat_eq) (use assms in auto)
  moreover have "(word_of_nat j :: u64) = word_of_nat i \<longleftrightarrow> j = i" by (rule word_of_nat_eq) (use assms in auto)
  ultimately show ?thesis by (auto simp: ids_def event_rec_def numeral_2_eq_2 numeral_3_eq_3)
qed

lemma ids_logs:
  assumes "logs cfg j evs me m" and "\<forall>e \<in> set evs. e < 6" and "ev < 6" and "i < 2 ^ 64" and "j < 2 ^ 64"
  shows "ids i ev (recs m) = ids i ev (recs me) @ (if i = j
    then replicate (length (filter ((=) ev) evs)) (cf_transaction_count cfg - cl_txn_remaining (client_at me j)) else [])"
proof -
  have "ids i ev (map (event_rec cfg j me) es) = (if i = j
      then replicate (length (filter ((=) ev) es)) (cf_transaction_count cfg - cl_txn_remaining (client_at me j)) else [])"
    if "\<forall>e \<in> set es. e < 6" for es
    using that
  proof (induction es)
    case (Cons e es)
    have "ids i ev (map (event_rec cfg j me) (e # es)) = ids i ev [event_rec cfg j me e] @ ids i ev (map (event_rec cfg j me) es)"
      by (simp add: ids_def)
    moreover have "e < 6" "\<forall>e \<in> set es. e < 6" using Cons.prems by simp_all
    ultimately show ?case using Cons.IH ids_event_rec[OF _ assms(3-5), of e cfg me]
      by (cases "i = j"; cases "ev = e") simp_all
  qed simp
  with assms(1,2) show ?thesis by (simp add: logs_def)
qed

definition done_txns :: "client_cfg \<Rightarrow> client \<Rightarrow> nat" where
  "done_txns cfg c = unat (cf_transaction_count cfg) - unat (cl_txn_remaining c)"

text \<open>How often a client has started to connect: once for every batch it has begun.\<close>

definition connects :: "nat \<Rightarrow> nat \<Rightarrow> cstate \<Rightarrow> nat" where
  "connects b d s = (case s of INIT \<Rightarrow> d div b | DONE \<Rightarrow> (d - 1) div b + 1 | _ \<Rightarrow> d div b + 1)"

definition log_inv :: "client_cfg \<Rightarrow> nat \<Rightarrow> cworker \<Rightarrow> bool" where
  "log_inv cfg j me \<longleftrightarrow>
     (let c = client_at me j; d = done_txns cfg c; b = unat (cf_batch_size cfg);
          sends = map word_of_nat [0..<d + (if cl_state c = SENT then 1 else 0)]
      in ids j SEND_START (recs me) = sends \<and> ids j SEND_DONE (recs me) = sends \<and>
         length (ids j RECV_START (recs me)) = length (ids j RECV_DONE (recs me)) \<and>
         d \<le> length (ids j RECV_DONE (recs me)) \<and>
         length (ids j CONNECT_START (recs me)) = connects b d (cl_state c) \<and>
         length (ids j CONNECT_DONE (recs me)) + (if cl_state c = CONNECTING then 1 else 0) = connects b d (cl_state c) \<and>
         (cl_state c = INIT \<longrightarrow> d mod b = 0) \<and>
         (cl_state c = DONE \<longrightarrow> 0 < d) \<and>
         (cl_state c \<notin> {INIT, DONE} \<longrightarrow> unat (cl_batch_remaining c) = b - d mod b))"

lemma txn_id: "client_ok cfg c \<Longrightarrow> cf_transaction_count cfg - cl_txn_remaining c = word_of_nat (done_txns cfg c)"
  by (simp add: client_ok_def done_txns_def word_le_nat_alt of_nat_diff)

lemma log_inv_via:
  assumes l: "logs cfg j evs me m" "\<forall>e \<in> set evs. e < 6" "j < 2 ^ 64"
    and c: "client_ok cfg (client_at me j)" and inv: "log_inv cfg j me"
    and d: "done_txns cfg (client_at m j) = done_txns cfg (client_at me j) + (if fin then 1 else 0)"
    and t: "let c = client_at me j; c' = client_at m j; d = done_txns cfg c; d' = done_txns cfg c'; b = unat (cf_batch_size cfg);
        n = \<lambda>e. length (filter ((=) e) evs) in
      n SEND_START = n SEND_DONE \<and> n SEND_START + (if cl_state c = SENT then 1 else 0) = (if fin then 1 else 0) + (if cl_state c' = SENT then 1 else 0) \<and>
      (n SEND_START = 0 \<or> cl_state c \<noteq> SENT \<and> n SEND_START = 1) \<and>
      n RECV_START = n RECV_DONE \<and> (fin \<longrightarrow> n RECV_DONE = 1) \<and>
      connects b d (cl_state c) + n CONNECT_START = connects b d' (cl_state c') \<and>
      n CONNECT_DONE + (if cl_state c' = CONNECTING then 1 else 0) = n CONNECT_START + (if cl_state c = CONNECTING then 1 else 0) \<and>
      (cl_state c' = INIT \<longrightarrow> d' mod b = 0) \<and> (cl_state c' = DONE \<longrightarrow> 0 < d') \<and>
      (cl_state c' \<notin> {INIT, DONE} \<longrightarrow> unat (cl_batch_remaining c') = b - d' mod b)"
  shows "log_inv cfg j m"
proof -
  let ?n = "\<lambda>e. length (filter ((=) e) evs)"
  let ?d = "done_txns cfg (client_at me j)"
  have i: "ids j ev (recs m) = ids j ev (recs me) @ replicate (?n ev) (word_of_nat ?d)" if "ev < 6" for ev
    using ids_logs[OF l(1,2) that l(3,3)] txn_id[OF c] by simp
  have s: "ids j SEND_START (recs m) = ids j SEND_START (recs me) @ replicate (?n SEND_START) (word_of_nat ?d)"
    "ids j SEND_DONE (recs m) = ids j SEND_DONE (recs me) @ replicate (?n SEND_DONE) (word_of_nat ?d)"
    "ids j RECV_START (recs m) = ids j RECV_START (recs me) @ replicate (?n RECV_START) (word_of_nat ?d)"
    "ids j RECV_DONE (recs m) = ids j RECV_DONE (recs me) @ replicate (?n RECV_DONE) (word_of_nat ?d)"
    "ids j CONNECT_START (recs m) = ids j CONNECT_START (recs me) @ replicate (?n CONNECT_START) (word_of_nat ?d)"
    "ids j CONNECT_DONE (recs m) = ids j CONNECT_DONE (recs me) @ replicate (?n CONNECT_DONE) (word_of_nat ?d)"
    by (rule i, simp add: event_ids)+
  have snd: "?n SEND_START = 0 \<or> ?n SEND_START = 1" using t by (auto simp: Let_def)
  let ?s = "map word_of_nat [0..<?d + (if cl_state (client_at me j) = SENT then 1 else 0)] :: u64 list"
  let ?t = "map word_of_nat [0..<done_txns cfg (client_at m j) + (if cl_state (client_at m j) = SENT then 1 else 0)] :: u64 list"
  have len: "length (replicate (?n e) x) = ?n e" for e and x :: u64 by simp
  have st: "?s @ replicate (?n SEND_START) (word_of_nat ?d) = ?t"
    using t d by (auto simp: Let_def split: if_splits)
  let ?b = "unat (cf_batch_size cfg)" and ?c = "client_at me j" and ?c' = "client_at m j"
  have o: "ids j SEND_START (recs me) = ?s" "ids j SEND_DONE (recs me) = ?s"
    "length (ids j RECV_START (recs me)) = length (ids j RECV_DONE (recs me))" "?d \<le> length (ids j RECV_DONE (recs me))"
    "length (ids j CONNECT_START (recs me)) = connects ?b ?d (cl_state ?c)"
    "length (ids j CONNECT_DONE (recs me)) + (if cl_state ?c = CONNECTING then 1 else 0) = connects ?b ?d (cl_state ?c)"
    using inv by (simp_all add: log_inv_def Let_def)
  have t': "?n SEND_DONE = ?n SEND_START" "?n RECV_START = ?n RECV_DONE" "fin \<longrightarrow> ?n RECV_DONE = 1"
    "connects ?b ?d (cl_state ?c) + ?n CONNECT_START = connects ?b (done_txns cfg ?c') (cl_state ?c')"
    "?n CONNECT_DONE + (if cl_state ?c' = CONNECTING then 1 else 0) = ?n CONNECT_START + (if cl_state ?c = CONNECTING then 1 else 0)"
    "(cl_state ?c' = INIT \<longrightarrow> done_txns cfg ?c' mod ?b = 0) \<and> (cl_state ?c' = DONE \<longrightarrow> 0 < done_txns cfg ?c') \<and>
      (cl_state ?c' \<notin> {INIT, DONE} \<longrightarrow> unat (cl_batch_remaining ?c') = ?b - done_txns cfg ?c' mod ?b)"
    using t by (simp_all add: Let_def)
  have "done_txns cfg ?c' \<le> length (ids j RECV_DONE (recs m))"
    using o(4) d t'(3) by (cases fin) (simp_all add: s)
  moreover have "length (ids j CONNECT_START (recs m)) = connects ?b (done_txns cfg ?c') (cl_state ?c')"
    using o(5) t'(4) by (simp add: s)
  moreover have "length (ids j CONNECT_DONE (recs m)) + (if cl_state ?c' = CONNECTING then 1 else 0) =
      connects ?b (done_txns cfg ?c') (cl_state ?c')"
    unfolding s length_append length_replicate using o(6) t'(4,5) by linarith
  moreover have "ids j SEND_START (recs m) = ?t" "ids j SEND_DONE (recs m) = ?t"
    using o(1,2) st unfolding s t'(1) by simp_all
  moreover have "length (ids j RECV_START (recs m)) = length (ids j RECV_DONE (recs m))"
    using o(3) t'(2) by (simp add: s)
  ultimately show ?thesis using t'(6) unfolding log_inv_def Let_def by blast
qed

text \<open>A transition of client \<open>j\<close> writes records of client \<open>j\<close> only.\<close>

definition tag :: "nat \<Rightarrow> u64 list \<Rightarrow> bool" where
  "tag j vs \<longleftrightarrow> length vs = 4 \<and> vs ! 1 = word_of_nat j \<and> (\<exists>ev < 6. vs ! 3 = word_of_nat ev)"

definition quiet :: "nat \<Rightarrow> cworker \<Rightarrow> cworker \<Rightarrow> bool" where
  "quiet j me m \<longleftrightarrow> (\<exists>rs. recs m = recs me @ rs \<and> (\<forall>vs \<in> set rs. tag j vs))"

lemma logs_quiet: "logs cfg j evs me m \<Longrightarrow> \<forall>e \<in> set evs. e < 6 \<Longrightarrow> quiet j me m"
  by (auto simp: quiet_def logs_def tag_def event_rec_def numeral_3_eq_3)

lemma quiet_trans: "quiet j me m \<Longrightarrow> quiet j m m2 \<Longrightarrow> quiet j me m2"
  unfolding quiet_def by (elim exE conjE) (auto intro!: exI[of _ "_ @ _"])

lemma ids_other: "\<forall>vs \<in> set rs. tag j vs \<Longrightarrow> i \<noteq> j \<Longrightarrow> i < 2 ^ 64 \<Longrightarrow> j < 2 ^ 64 \<Longrightarrow> ids i ev rs = []"
  by (auto simp: ids_def tag_def word_of_nat_eq)

lemma log_inv_other:
  assumes "only j me m" and "quiet j me m" and "i \<noteq> j" and "i < 2 ^ 64" and "j < 2 ^ 64" and "log_inv cfg i me"
  shows "log_inv cfg i m"
proof -
  have "client_at m i = client_at me i" using assms(1,3) by (simp add: only_def)
  moreover have "ids i ev (recs m) = ids i ev (recs me)" for ev
    using assms(2-5) ids_other by (force simp: quiet_def)
  ultimately show ?thesis using assms(6) by (simp add: log_inv_def)
qed

lemma log_inv_cong: "recs m = recs me \<Longrightarrow> done_txns cfg (client_at m j) = done_txns cfg (client_at me j) \<Longrightarrow>
    cl_state (client_at m j) = cl_state (client_at me j) \<Longrightarrow> cl_batch_remaining (client_at m j) = cl_batch_remaining (client_at me j) \<Longrightarrow>
    log_inv cfg j m = log_inv cfg j me"
  by (simp only: log_inv_def Let_def)

lemma filter_events: "length (filter ((=) e) [a, b]) = (if e = a then 1 else 0) + (if e = b then 1 else 0 :: nat)"
  "length (filter ((=) e) [a]) = (if e = a then 1 else 0)"
  by auto

lemma sent_done_txns:
  assumes "client_ok cfg c" and "cl_txn_remaining c \<noteq> 0"
    and "cl_txn_remaining c' = cl_txn_remaining c - 1"
  shows "done_txns cfg c' = done_txns cfg c + 1"
proof -
  have "0 < unat (cl_txn_remaining c)" "unat (cl_txn_remaining c) \<le> unat (cf_transaction_count cfg)"
    using assms(1,2) by (auto simp: client_ok_def word_le_nat_alt unat_gt_0)
  then show ?thesis using assms(3) by (simp add: done_txns_def unat_minus_one[OF assms(2)])
qed

text \<open>A batch ends exactly when the number of transactions done is divisible by its size.\<close>

lemma batch_step:
  assumes "0 < (b::nat)" and "r = b - d mod b"
  shows "(r - 1 = 0 \<longleftrightarrow> (d + 1) mod b = 0) \<and> (r - 1 = 0 \<longrightarrow> (d + 1) div b = d div b + 1) \<and>
    (r - 1 \<noteq> 0 \<longrightarrow> (d + 1) div b = d div b \<and> r - 1 = b - (d + 1) mod b)"
proof -
  have lt: "d mod b < b" using assms(1) by simp
  show ?thesis
  proof (cases "Suc (d mod b) = b")
    case True
    then have "Suc d mod b = 0" "Suc d div b = Suc (d div b)" by (simp_all add: mod_Suc div_Suc)
    then show ?thesis using True assms by simp
  next
    case False
    then have "Suc d mod b = Suc (d mod b)" "Suc d div b = d div b" by (simp_all add: mod_Suc div_Suc)
    then show ?thesis using False assms lt by auto
  qed
qed

lemma sent_case_log_inv:
  assumes "sent_case nt cfg j me k = Some (go, m, k')" and j: "j < length (cw_clients me)" "j < 2 ^ 64"
    and ok: "recv_fits nt" "cfg_ok cfg" "client_ok cfg (client_at me j)" "cl_state (client_at me j) = SENT"
    and inv: "log_inv cfg j me"
  shows "log_inv cfg j m"
proof -
  let ?c = "client_at me j"
  note lg = sent_case_logs[OF assms(1) j(1)]
  have ev: "\<forall>e \<in> set [RECV_START, RECV_DONE]. e < 6" by (simp add: event_ids)
  have b: "0 < unat (cf_batch_size cfg)" using ok(2) by (simp add: cfg_ok_def unat_gt_0)
  have r: "unat (cl_batch_remaining ?c) = unat (cf_batch_size cfg) - done_txns cfg ?c mod unat (cf_batch_size cfg)"
    using inv ok(4) by (auto simp: log_inv_def Let_def)
  have nz: "cl_txn_remaining ?c \<noteq> 0" "cl_batch_remaining ?c \<noteq> 0" using ok(3,4) by (auto simp: client_ok_def)
  from sent_case_effect[OF assms(1) j(1) ok(1,3)] obtain got buf where e:
    "if go then client_at m j = ?c\<lparr>cl_buf := buf, cl_cursor := 0, cl_txn_remaining := cl_txn_remaining ?c - 1,
          cl_batch_remaining := (if cl_txn_remaining ?c - 1 = 0 then cl_batch_remaining ?c else cl_batch_remaining ?c - 1),
          cl_state := (if cl_txn_remaining ?c - 1 = 0 then DONE
            else if cl_batch_remaining ?c - 1 = 0 then INIT else READY)\<rparr>
      else client_at m j = ?c\<lparr>cl_buf := buf, cl_cursor := cl_cursor ?c + got\<rparr>"
    by metis
  show ?thesis
  proof (cases go)
    case False
    then have cm: "client_at m j = ?c\<lparr>cl_buf := buf, cl_cursor := cl_cursor ?c + got\<rparr>" using e by simp
    have d: "done_txns cfg (client_at m j) = done_txns cfg ?c + (if False then 1 else 0)" by (simp add: cm done_txns_def)
    show ?thesis
      by (rule log_inv_via[OF lg ev j(2) ok(3) inv d]) (use cm d ok(4) r in \<open>simp add: filter_events event_ids connects_def\<close>)
  next
    case True
    then have cm: "client_at m j = ?c\<lparr>cl_buf := buf, cl_cursor := 0, cl_txn_remaining := cl_txn_remaining ?c - 1,
          cl_batch_remaining := (if cl_txn_remaining ?c - 1 = 0 then cl_batch_remaining ?c else cl_batch_remaining ?c - 1),
          cl_state := (if cl_txn_remaining ?c - 1 = 0 then DONE
            else if cl_batch_remaining ?c - 1 = 0 then INIT else READY)\<rparr>" using e by simp
    have d: "done_txns cfg (client_at m j) = done_txns cfg ?c + (if True then 1 else 0)"
      using sent_done_txns[OF ok(3) nz(1), of "client_at m j"] cm by simp
    have rz: "cl_batch_remaining ?c - 1 = 0 \<longleftrightarrow> unat (cl_batch_remaining ?c) - 1 = 0"
      by (metis unat_minus_one[OF nz(2)] unat_eq_zero)
    note bt = batch_step[OF b r]
    have st: "cl_state (client_at m j) = (if cl_txn_remaining ?c - 1 = 0 then DONE
        else if cl_batch_remaining ?c - 1 = 0 then INIT else READY)"
      and ba: "cl_txn_remaining ?c - 1 \<noteq> 0 \<Longrightarrow> cl_batch_remaining (client_at m j) = cl_batch_remaining ?c - 1"
      unfolding cm by simp_all
    show ?thesis
      by (rule log_inv_via[OF lg ev j(2) ok(3) inv d])
        (use st ba d ok(4) bt rz unat_minus_one[OF nz(2)] in \<open>auto simp: filter_events event_ids connects_def Let_def split: if_splits\<close>)
  qed
qed

text \<open>The other cases: no transaction is completed, so only the events and the state have to fit.\<close>

abbreviation kept :: "client_cfg \<Rightarrow> nat \<Rightarrow> cworker \<Rightarrow> cworker \<Rightarrow> bool" where
  "kept cfg j me m \<equiv> cw_dying m \<or> log_inv cfg j m \<and> quiet j me m"

lemma log_inv_same:
  assumes l: "logs cfg j evs me m" "\<forall>e \<in> set evs. e < 6" and j64: "j < 2 ^ 64" and ok: "client_ok cfg (client_at me j)"
    and inv: "log_inv cfg j me" and d: "done_txns cfg (client_at m j) = done_txns cfg (client_at me j)"
    and t: "let c = client_at me j; b = unat (cf_batch_size cfg); c' = client_at m j; d' = done_txns cfg c';
        n = \<lambda>e. length (filter ((=) e) evs) in
      n SEND_START = n SEND_DONE \<and> n SEND_START + (if cl_state c = SENT then 1 else 0) = (if cl_state c' = SENT then 1 else 0) \<and>
      (n SEND_START = 0 \<or> cl_state c \<noteq> SENT \<and> n SEND_START = 1) \<and> n RECV_START = n RECV_DONE \<and>
      connects b (done_txns cfg c) (cl_state c) + n CONNECT_START = connects b d' (cl_state c') \<and>
      n CONNECT_DONE + (if cl_state c' = CONNECTING then 1 else 0) = n CONNECT_START + (if cl_state c = CONNECTING then 1 else 0) \<and>
      (cl_state c' = INIT \<longrightarrow> d' mod b = 0) \<and> (cl_state c' = DONE \<longrightarrow> 0 < d') \<and>
      (cl_state c' \<notin> {INIT, DONE} \<longrightarrow> unat (cl_batch_remaining c') = b - d' mod b)"
  shows "log_inv cfg j m \<and> quiet j me m"
proof
  show "log_inv cfg j m"
    by (rule log_inv_via[OF l j64 ok inv, where fin = False]) (use d t in \<open>auto simp: Let_def simp del: length_0_conv\<close>)
  show "quiet j me m" by (rule logs_quiet[OF l])
qed

lemma log_inv_batch:
  assumes "log_inv cfg j me"
  shows "cl_state (client_at me j) \<notin> {INIT, DONE} \<Longrightarrow> unat (cl_batch_remaining (client_at me j)) =
      unat (cf_batch_size cfg) - done_txns cfg (client_at me j) mod unat (cf_batch_size cfg)"
    "cl_state (client_at me j) = INIT \<Longrightarrow> done_txns cfg (client_at me j) mod unat (cf_batch_size cfg) = 0"
  using assms by (auto simp: log_inv_def Let_def)

lemma init_case_kept:
  assumes i: "init_case nt cfg j me k = (go, m, k1)" and j: "j < length (cw_clients me)" "j < 2 ^ 64"
    and ok: "client_ok cfg (client_at me j)" and s: "cl_state (client_at me j) = INIT" and inv: "log_inv cfg j me"
  shows "kept cfg j me m"
proof (cases "cw_dying m")
  case False
  from init_case_effect[OF i j(1)] obtain sk st where e:
    "client_at m j = (client_at me j)\<lparr>cl_batch_remaining := cf_batch_size cfg, cl_sock := sk, cl_state := st\<rparr>" "go \<longrightarrow> st = READY"
    using s by auto
  have d: "done_txns cfg (client_at m j) = done_txns cfg (client_at me j)" by (simp add: e(1) done_txns_def)
  have st: "cl_state (client_at m j) = st" "cl_batch_remaining (client_at m j) = cf_batch_size cfg" by (simp_all add: e(1))
  have lg: "if go then logs cfg j [CONNECT_START, CONNECT_DONE] me m
      else logs cfg j [CONNECT_START] me m \<and> st = CONNECTING"
    using False init_case_logs[OF i j(1)] st by (cases go) auto
  then have "logs cfg j (if go then [CONNECT_START, CONNECT_DONE] else [CONNECT_START]) me m" by (cases go) auto
  from log_inv_same[OF this _ j(2) ok inv d] show ?thesis using lg e(2) log_inv_batch(2)[OF inv s] s st d
    by (cases go) (auto simp: filter_events event_ids connects_def)
qed simp

lemma connecting_case_kept:
  assumes i: "connecting_case nt cfg j me k = (go, m, k1)" and j: "j < length (cw_clients me)" "j < 2 ^ 64"
    and ok: "client_ok cfg (client_at me j)" and s: "cl_state (client_at me j) = CONNECTING" and inv: "log_inv cfg j me"
  shows "kept cfg j me m"
proof -
  note e = connecting_case_effect[OF i j(1)]
  have d: "done_txns cfg (client_at m j) = done_txns cfg (client_at me j)" by (simp add: e done_txns_def)
  show ?thesis using log_inv_same[OF connecting_case_logs[OF i] _ j(2) ok inv d] e s log_inv_batch(1)[OF inv]
    by (cases go) (auto simp: filter_events event_ids connects_def done_txns_def)
qed

lemma new_case_kept:
  assumes i: "new_case nt cfg j me k = (go, m, k1)" and j: "j < length (cw_clients me)" "j < 2 ^ 64"
    and ok: "client_ok cfg (client_at me j)" and s: "cl_state (client_at me j) = NEW" and inv: "log_inv cfg j me"
  shows "kept cfg j me m"
proof -
  note e = new_case_effect[OF i j(1)]
  have d: "done_txns cfg (client_at m j) = done_txns cfg (client_at me j)" by (simp add: e done_txns_def)
  show ?thesis using log_inv_same[OF new_case_logs[OF i] _ j(2) ok inv d] e s log_inv_batch(1)[OF inv]
    by (cases go) (auto simp: connects_def done_txns_def)
qed

lemma ready_case_kept:
  assumes i: "ready_case nt cfg j me k = Some (m, k1)" and j: "j < length (cw_clients me)" "j < 2 ^ 64"
    and ok: "client_ok cfg (client_at me j)" and s: "cl_state (client_at me j) = READY" and inv: "log_inv cfg j me"
  shows "kept cfg j me m"
proof -
  have e: "client_at m j = (client_at me j)\<lparr>cl_state := SENT\<rparr>" using ready_case_effect[OF i j(1)] by simp
  have d: "done_txns cfg (client_at m j) = done_txns cfg (client_at me j)" by (simp add: e done_txns_def)
  show ?thesis using log_inv_same[OF ready_case_logs[OF i] _ j(2) ok inv d] e s log_inv_batch(1)[OF inv]
    by (auto simp: filter_events event_ids connects_def done_txns_def)
qed

lemma sent_case_kept:
  assumes i: "sent_case nt cfg j me k = Some (go, m, k1)" and j: "j < length (cw_clients me)" "j < 2 ^ 64"
    and fits: "recv_fits nt" "cfg_ok cfg" and ok: "client_ok cfg (client_at me j)" and s: "cl_state (client_at me j) = SENT"
    and inv: "log_inv cfg j me"
  shows "kept cfg j me m"
proof -
  have "quiet j me m" by (rule logs_quiet[OF sent_case_logs[OF i j(1)]]) (simp add: event_ids)
  then show ?thesis using sent_case_log_inv[OF i j fits ok s inv] by blast
qed

lemma done_case_kept:
  assumes "done_case nt j me k = (m, k1)" and "j < length (cw_clients me)" and "log_inv cfg j me"
  shows "kept cfg j me m"
proof -
  have e: "\<exists>s. client_at m j = (client_at me j)\<lparr>cl_sock := s\<rparr>" "recs m = recs me"
    using assms(1,2) by (auto simp: done_case_def Let_def client_at_upd recs_def split: prod.splits)
  then have "log_inv cfg j m = log_inv cfg j me" by (intro log_inv_cong) (auto simp: done_txns_def)
  then show ?thesis using assms(3) e(2) by (simp add: quiet_def)
qed

lemma turn_kept:
  assumes t: "turn nt cfg j me k = Some (go, m, k1)" and a: "recv_fits nt" "cfg_ok cfg"
    and j: "j < length (cw_clients me)" "j < 2 ^ 64" and c: "client_ok cfg (client_at me j)" and inv: "log_inv cfg j me"
  shows "kept cfg j me m"
proof (cases "cl_state (client_at me j)")
  case INIT
  then show ?thesis using t init_case_kept[OF _ j c INIT inv] by (simp add: turn_def)
next
  case CONNECTING
  then show ?thesis using t connecting_case_kept[OF _ j c CONNECTING inv] by (simp add: turn_def)
next
  case NEW
  then show ?thesis using t new_case_kept[OF _ j c NEW inv] by (simp add: turn_def)
next
  case READY
  then have "ready_case nt cfg j me k = Some (m, k1)" using t by (auto simp: turn_def)
  then show ?thesis by (rule ready_case_kept[OF _ j c READY inv])
next
  case SENT
  then show ?thesis using t sent_case_kept[OF _ j a c SENT inv] by (simp add: turn_def)
next
  case DONE
  then have "done_case nt j me k = (m, k1)" using t by (simp add: turn_def)
  then show ?thesis by (rule done_case_kept[OF _ j(1) inv])
qed

lemma transition_log:
  assumes a: "recv_fits nt" "cfg_ok cfg" and j64: "j < 2 ^ 64"
    and run: "do_state_transition nt cfg j me k = Some (n, me', k')"
    and j: "j < length (cw_clients me)" and c: "client_ok cfg (client_at me j)" "settled me j" and inv: "log_inv cfg j me"
  shows "kept cfg j me me'"
proof -
  have "(cw_dying me \<longrightarrow> cw_dying me') \<and> (log_inv cfg j me \<longrightarrow> kept cfg j me me')"
    using run j c
  proof (induction rule: turns_induct)
    case (stop me k m k1)
    show ?case using turn_ok[OF stop(1) a stop(2-4)] turn_kept[OF stop(1) a stop(2) j64 stop(3)] by (auto simp: only_def)
  next
    case (go me k m k1 n m2)
    from turn_ok[OF go(1) a go(3-5)] have t: "only j me m" "client_ok cfg (client_at m j)" "settled m j" by simp_all
    have jm: "j < length (cw_clients m)" "cw_dying me \<longrightarrow> cw_dying m" using t(1) go(3) by (simp_all add: only_def)
    show ?case using go.IH[OF jm(1) t(2,3)] jm(2) turn_kept[OF go(1) a go(3) j64 go(4)] quiet_trans by blast
  qed
  then show ?thesis using inv by blast
qed

definition logs_ok :: "client_cfg \<Rightarrow> cworker \<Rightarrow> bool" where
  "logs_ok cfg me \<longleftrightarrow> length (cw_clients me) < 2 ^ 64 \<and>
     (cw_dying me \<or> (\<forall>j < length (cw_clients me). log_inv cfg j me) \<and>
        (\<forall>vs \<in> set (recs me). \<exists>j < length (cw_clients me). tag j vs))"

lemma transition_logs_ok:
  assumes "do_state_transition nt cfg j me k = Some (n, me', k')" and "recv_fits nt" and "cfg_ok cfg"
    and "j < length (cw_clients me)" and "workers_ok cfg me" and "logs_ok cfg me"
  shows "logs_ok cfg me'"
proof -
  have len: "length (cw_clients me') = length (cw_clients me)" and dy: "cw_dying me \<longrightarrow> cw_dying me'"
    using transition_worker[OF assms(1-5)] by auto
  have c: "client_ok cfg (client_at me j)" "settled me j" "j < 2 ^ 64"
    using assms(4-6) by (auto simp: workers_ok_def logs_ok_def)
  have o: "only j me me'" using transition_accounts[OF assms(1)] assms(2-4) c by auto
  show ?thesis
  proof (cases "cw_dying me'")
    case False
    then have inv: "\<forall>i < length (cw_clients me). log_inv cfg i me" "length (cw_clients me) < 2 ^ 64"
      "\<forall>vs \<in> set (recs me). \<exists>j < length (cw_clients me). tag j vs"
      using dy assms(6) by (auto simp: logs_ok_def)
    then have t: "log_inv cfg j me' \<and> quiet j me me'"
      using transition_log[OF assms(2,3) c(3) assms(1,4) c(1,2)] assms(4) False by blast
    have "log_inv cfg i me'" if "i < length (cw_clients me)" for i
      using t log_inv_other[OF o conjunct2[OF t], of i cfg] inv that c(3) by (cases "i = j") auto
    moreover have "\<forall>vs \<in> set (recs me'). \<exists>j < length (cw_clients me). tag j vs"
      using t inv(3) assms(4) by (auto simp: quiet_def)
    ultimately show ?thesis using inv(2) by (simp add: logs_ok_def len)
  qed (use assms(6) in \<open>simp add: logs_ok_def len\<close>)
qed

lemma serve_logs_ok:
  "serve nt cfg js complete me k = Some (Inr (complete', me', k')) \<Longrightarrow> recv_fits nt \<Longrightarrow> cfg_ok cfg \<Longrightarrow> workers_ok cfg me \<Longrightarrow>
    logs_ok cfg me \<Longrightarrow> logs_ok cfg me'"
proof (induction js arbitrary: complete me k)
  case (Cons j js)
  then obtain n m k1 where j: "j < length (cw_clients me)" "do_state_transition nt cfg j me k = Some (n, m, k1)"
    "serve nt cfg js (complete + n) m k1 = Some (Inr (complete', me', k'))"
    by (auto simp: bind_eq_Some_conv split: if_splits)
  from transition_worker[OF j(2) Cons.prems(2,3) j(1) Cons.prems(4)]
    transition_logs_ok[OF j(2) Cons.prems(2,3) j(1) Cons.prems(4,5)] Cons.IH[OF j(3) Cons.prems(2,3)]
  show ?case by auto
qed simp

lemma client_loop_logs_ok:
  "client_loop nt cfg target complete me k = Some y \<Longrightarrow> (\<forall>complete' me' k'. y = Inr (complete', me', k') \<longrightarrow>
    recv_fits nt \<longrightarrow> cfg_ok cfg \<longrightarrow> workers_ok cfg me \<longrightarrow> logs_ok cfg me \<longrightarrow> logs_ok cfg me')"
proof (induction rule: client_loop_induct)
  case (step rec nt cfg target complete me k y)
  show ?case
  proof (intro allI impI)
    fix complete' me' k'
    assume a: "y = Inr (complete', me', k')" "recv_fits nt" "cfg_ok cfg" "workers_ok cfg me" "logs_ok cfg me"
    obtain w k1 where w: "ns_epoll_wait nt EVENT_BACKLOG k = (w, k1)" by force
    show "logs_ok cfg me'"
    proof (cases "is_dying nt me k \<or> target \<le> complete")
      case True
      then show ?thesis using step(2) a by auto
    next
      case False
      show ?thesis
      proof (cases w)
        case (Wait_Ready js)
        then obtain r where r: "serve nt cfg js complete me k1 = Some r"
          "(case r of Inl e \<Rightarrow> Some (Inl e) | Inr (c1, m, k2) \<Rightarrow> rec nt cfg target c1 m k2) = Some (Inr (complete', me', k'))"
          using step(2) False w a(1) by (auto simp: bind_eq_Some_conv)
        then obtain c1 m k2 where s: "serve nt cfg js complete me k1 = Some (Inr (c1, m, k2))"
          "rec nt cfg target c1 m k2 = Some (Inr (complete', me', k'))"
          by (cases r) auto
        from serve_accounts[OF s(1) a(2,3,4)] serve_logs_ok[OF s(1) a(2-5)] step(1)[OF s(2)] a(2,3)
        show ?thesis by auto
      qed (use step(2) False w a in \<open>auto simp: logs_ok_def\<close>)
    qed
  qed
qed

lemma run_clients_logs_ok:
  assumes "run_clients nt cfg me k = Some (Inr (complete, me', k'))" and "recv_fits nt" and "cfg_ok cfg"
    and "workers_ok cfg me" and "logs_ok cfg me"
  shows "logs_ok cfg me'"
proof -
  obtain r where r: "serve nt cfg [0..<cf_clients_per_thread cfg] 0 me k = Some r"
    "(case r of Inl e \<Rightarrow> Some (Inl e) | Inr (c1, m, k1) \<Rightarrow> client_loop nt cfg (total_transactions cfg) c1 m k1)
       = Some (Inr (complete, me', k'))"
    using assms(1) by (auto simp: run_clients_def bind_eq_Some_conv)
  then obtain c1 m k1 where s: "serve nt cfg [0..<cf_clients_per_thread cfg] 0 me k = Some (Inr (c1, m, k1))"
    "client_loop nt cfg (total_transactions cfg) c1 m k1 = Some (Inr (complete, me', k'))"
    by (cases r) auto
  from serve_accounts[OF s(1) assms(2-4)] serve_logs_ok[OF s(1) assms(2-5)] client_loop_logs_ok[OF s(2)] assms(2,3)
  show ?thesis by auto
qed

lemma setup_logs_ok:
  assumes "worker_setup env cfg rnd idx = Inr me" and "cf_clients_per_thread cfg < 2 ^ 64"
  shows "logs_ok cfg me"
  using assms(2) worker_setup_Inr[OF assms(1)]
  by (auto simp: logs_ok_def log_inv_def Let_def recs_def fresh_client_def done_txns_def connects_def)

text \<open>The number of records is the sum over all clients and kinds of events.\<close>

definition event_count :: "nat \<Rightarrow> u64 list list \<Rightarrow> nat" where
  "event_count j rs = (\<Sum>ev < 6. length (ids j ev rs))"

lemma event_count_Cons:
  assumes "tag i vs" and "i < 2 ^ 64" and "j < 2 ^ 64"
  shows "event_count j (vs # rs) = (if i = j then 1 else 0) + event_count j rs"
proof -
  obtain e where e: "e < 6" "vs ! 3 = word_of_nat e" "vs ! 1 = word_of_nat i" using assms(1) by (auto simp: tag_def)
  have "(word_of_nat i :: u64) = word_of_nat j \<longleftrightarrow> i = j" using assms(2,3) by (rule word_of_nat_eq)
  moreover have "(word_of_nat e :: u64) = word_of_nat ev \<longleftrightarrow> e = ev" if "ev < 6" for ev
    by (rule word_of_nat_eq) (use e(1) that in auto)
  ultimately have "length (ids j ev (vs # rs)) = (if i = j \<and> ev = e then 1 else 0) + length (ids j ev rs)" if "ev < 6" for ev
    using that e by (auto simp: ids_def)
  then have "event_count j (vs # rs) = (\<Sum>ev < 6. (if i = j \<and> ev = e then 1 else 0) + length (ids j ev rs))"
    by (simp add: event_count_def)
  also have "\<dots> = (\<Sum>ev < 6. if i = j \<and> ev = e then 1 else 0) + event_count j rs"
    by (simp add: sum.distrib event_count_def)
  also have "(\<Sum>ev < 6. if i = j \<and> ev = e then 1 else (0::nat)) = (if i = j then 1 else 0)"
    using e(1) by (cases "i = j") simp_all
  finally show ?thesis .
qed

lemma length_recs_sum:
  "\<forall>vs \<in> set rs. \<exists>j < n. tag j vs \<Longrightarrow> n < 2 ^ 64 \<Longrightarrow> length rs = (\<Sum>j < n. event_count j rs)"
proof (induction rs)
  case Nil
  then show ?case by (simp add: event_count_def)
next
  case (Cons vs rs)
  then obtain i where i: "i < n" "tag i vs" by auto
  have "event_count j (vs # rs) = (if i = j then 1 else 0) + event_count j rs" if "j < n" for j
    using event_count_Cons[OF i(2)] i(1) that Cons.prems(2) by simp
  then have "(\<Sum>j < n. event_count j (vs # rs)) = (\<Sum>j < n. (if i = j then 1 else 0) + event_count j rs)" by simp
  also have "\<dots> = (\<Sum>j < n. if i = j then 1 else 0) + length rs"
    using Cons by (simp add: sum.distrib)
  also have "(\<Sum>j < n. if i = j then 1 else (0::nat)) = 1" using i(1) by simp
  finally show ?case by simp
qed

lemma finished_state:
  assumes "worker_setup env cfg rnd idx = Inr me" and "run_clients nt cfg me k = Some (Inr (complete, me', k'))"
    and "\<not> is_dying nt me' k'" and "recv_fits nt"
    and "0 < cf_batch_size cfg" and "0 < cf_msg_size cfg" and "0 < cf_transaction_count cfg"
    and "cf_clients_per_thread cfg * unat (cf_transaction_count cfg) < 2 ^ 64" and "cf_clients_per_thread cfg < 2 ^ 64"
    and "j < cf_clients_per_thread cfg"
  shows "log_inv cfg j me' \<and> cl_state (client_at me' j) = DONE \<and> cl_txn_remaining (client_at me' j) = 0 \<and>
    (\<forall>vs \<in> set (recs me'). \<exists>j < cf_clients_per_thread cfg. tag j vs)"
proof -
  have c: "cfg_ok cfg" using assms(5) by (simp add: cfg_ok_def)
  have ok: "workers_ok cfg me" by (rule setup_workers_ok[OF assms(1,6,7)])
  note r = run_clients_accounts[OF assms(2,4) c ok]
  have len: "length (cw_clients me') = cf_clients_per_thread cfg" using r worker_setup_Inr(1)[OF assms(1)] by simp
  have sum: "complete + all_left me' = cf_clients_per_thread cfg * unat (cf_transaction_count cfg)"
    using r setup_all_left[OF assms(1)] by simp
  have "total_transactions cfg \<le> complete" using assms(3) r by blast
  then have "all_left me' = 0" using sum unfolding total_transactions_exact[OF assms(8,9)] by linarith
  then have "cl_state (client_at me' j) = DONE \<and> cl_txn_remaining (client_at me' j) = 0"
    using none_left_done[of cfg me' j] r assms(10) len by simp
  moreover have "logs_ok cfg me'" by (rule run_clients_logs_ok[OF assms(2,4) c ok setup_logs_ok[OF assms(1,9)]])
  moreover have "\<not> cw_dying me'" using assms(3) by (simp add: is_dying_def)
  ultimately show ?thesis using assms(10) len by (simp add: logs_ok_def)
qed

text \<open>What \<open>main\<close> reserves for the log of a worker, and what it writes per client.\<close>

lemma finished_event_count:
  assumes "log_inv cfg j me" and "cl_state (client_at me j) = DONE" and "cl_txn_remaining (client_at me j) = 0"
  shows "event_count j (recs me) =
    2 * ((unat (cf_transaction_count cfg) - 1) div unat (cf_batch_size cfg) + 1) + 2 * unat (cf_transaction_count cfg) +
    2 * length (ids j RECV_DONE (recs me))"
proof -
  have six: "(\<Sum>e < (6::nat). f e) = f CONNECT_START + f CONNECT_DONE + f SEND_START + f SEND_DONE + f RECV_START + f RECV_DONE"
    for f :: "nat \<Rightarrow> nat" by (simp add: event_ids eval_nat_numeral)
  have "length (ids j SEND_START (recs me)) = unat (cf_transaction_count cfg)"
    "length (ids j SEND_DONE (recs me)) = unat (cf_transaction_count cfg)"
    "length (ids j RECV_START (recs me)) = length (ids j RECV_DONE (recs me))"
    "length (ids j CONNECT_START (recs me)) = (unat (cf_transaction_count cfg) - 1) div unat (cf_batch_size cfg) + 1"
    "length (ids j CONNECT_DONE (recs me)) = (unat (cf_transaction_count cfg) - 1) div unat (cf_batch_size cfg) + 1"
    using assms by (simp_all add: log_inv_def connects_def done_txns_def Let_def)
  then show ?thesis unfolding event_count_def six by simp
qed

section \<open>Properties\<close>

text \<open>
  C31: The log of a run without failure is complete and in order.  For every client of a worker that
  has finished, the send events carry the transaction numbers \<open>0, 1, ..., n - 1\<close> in this order, start
  and end alike; there is a connect for every started batch; every receive that was started is also
  logged as ended, and there are at least as many as transactions.
\<close>

theorem finished_log_complete:
  assumes "worker_setup env cfg rnd idx = Inr me" and "run_clients nt cfg me k = Some (Inr (complete, me', k'))"
    and "\<not> is_dying nt me' k'" and "recv_fits nt"
    and "0 < cf_batch_size cfg" and "0 < cf_msg_size cfg" and "0 < cf_transaction_count cfg"
    and "cf_clients_per_thread cfg * unat (cf_transaction_count cfg) < 2 ^ 64" and "cf_clients_per_thread cfg < 2 ^ 64"
    and "j < cf_clients_per_thread cfg"
  shows "ids j SEND_START (recs me') = map word_of_nat [0..<unat (cf_transaction_count cfg)] \<and>
    ids j SEND_DONE (recs me') = map word_of_nat [0..<unat (cf_transaction_count cfg)] \<and>
    length (ids j CONNECT_START (recs me')) = (unat (cf_transaction_count cfg) - 1) div unat (cf_batch_size cfg) + 1 \<and>
    length (ids j CONNECT_DONE (recs me')) = length (ids j CONNECT_START (recs me')) \<and>
    length (ids j RECV_START (recs me')) = length (ids j RECV_DONE (recs me')) \<and>
    unat (cf_transaction_count cfg) \<le> length (ids j RECV_DONE (recs me'))"
proof -
  have f: "log_inv cfg j me'" "cl_state (client_at me' j) = DONE" "cl_txn_remaining (client_at me' j) = 0"
    using finished_state[OF assms] by auto
  then show ?thesis by (simp add: log_inv_def connects_def done_txns_def Let_def)
qed

theorem finished_log_complete_witness:
  "\<exists>m k. run_clients loopback demo_cfg demo_cworker (3, []) = Some (Inr (3, m, k)) \<and>
     ids 0 SEND_START (recs m) = [0, 1, 2] \<and> length (ids 0 CONNECT_START (recs m)) = 2"
proof -
  obtain n m k where r: "run_clients loopback demo_cfg demo_cworker (3, []) = Some (Inr (n, m, k))" "\<not> is_dying loopback m k"
    using demo_run by blast
  have "n = 3" using run_clients_accounts[OF r(1) loopback_fits _ setup_workers_ok[OF demo_cworker_setup]] r(2)
      setup_all_left[OF demo_cworker_setup] by (simp add: demo_cfg_def cfg_ok_def total_transactions_def)
  moreover have "map word_of_nat [0..<unat (3::u64)] = [0, 1, 2 :: u64]" by code_simp
  then have "ids 0 SEND_START (recs m) = [0, 1, 2] \<and> length (ids 0 CONNECT_START (recs m)) = 2"
    using finished_log_complete[OF demo_cworker_setup r loopback_fits, of 0] by (simp add: demo_cfg_def)
  ultimately show ?thesis using r(1) by blast
qed

end
