(* ===== verification/Echo_Control.thy ===== *)
theory Echo_Control
  imports Io_Loops Worker_Setup
begin

text \<open>
  The coordinating thread of the echo server (\<open>event-tester/tcp_echo.c\<close>): its command line, the
  sockets it opens, the reports it sends on the stats and error ports, and its event loop.  What is
  sent on a connection goes through a call \<open>put\<close> as in Io_Loops; strings are lists of characters,
  and a character is a byte.
\<close>

section \<open>Command line\<close>

definition DEFAULT_PORT :: nat where "DEFAULT_PORT = 1072"
definition DEFAULT_STATS :: nat where "DEFAULT_STATS = 1073"
definition DEFAULT_ERROR :: nat where "DEFAULT_ERROR = 1074"
definition PAYLOAD_SIZE :: nat where "PAYLOAD_SIZE = 32"

text \<open>The ports are \<open>unsigned int\<close>; \<open>msg_size\<close> is a \<open>size_t\<close>.\<close>

record server_opts =
  so_port :: u32
  so_stats :: u32
  so_error :: u32
  so_msg_size :: u64

definition default_opts :: server_opts where
  "default_opts = \<lparr>so_port = word_of_nat DEFAULT_PORT, so_stats = word_of_nat DEFAULT_STATS,
     so_error = word_of_nat DEFAULT_ERROR, so_msg_size = word_of_nat PAYLOAD_SIZE\<rparr>"

text \<open>
  The loop over \<open>getopt_long\<close>, given the options it finds, each with its argument: \<open>Inl\<close> is a return
  from \<open>main\<close> with a value.
\<close>

fun parse_opts :: "(char \<times> string) list \<Rightarrow> server_opts \<Rightarrow> int + server_opts" where
  "parse_opts [] o1 = Inr o1"
| "parse_opts ((c, arg) # cs) o1 =
     (if c = CHR ''?'' \<or> c = CHR ''h'' then Inl 0
      else if c = CHR ''p'' then parse_opts cs (o1\<lparr>so_port := word_of_int (strtol10 arg)\<rparr>)
      else if c = CHR ''m'' then parse_opts cs (o1\<lparr>so_msg_size := word_of_int (strtol10 arg)\<rparr>)
      else if c = CHR ''s'' then parse_opts cs (o1\<lparr>so_stats := word_of_int (strtol10 arg)\<rparr>)
      else if c = CHR ''e'' then parse_opts cs (o1\<lparr>so_error := word_of_int (strtol10 arg)\<rparr>)
      else Inl (- 1))"

definition check_ports :: "server_opts \<Rightarrow> int + server_opts" where
  "check_ports o1 =
     (if so_port o1 > 65535 then Inl (- 1)
      else if so_stats o1 > 65535 then Inl (- 1)
      else if so_error o1 > 65535 then Inl (- 1)
      else Inr o1)"

text \<open>
  \<open>main\<close> up to the loop: the calls that set up the control sockets in their order, each returning
  whether it succeeded, then the connection table, the threads and the address to print.
\<close>

datatype setup_call = Getaddrinfo string | Socket_Stats | Socket_Error | Bind_Stats | Bind_Error
  | Listen_Stats nat | Listen_Error nat | Epoll_Create | Epoll_Add_Stats | Epoll_Add_Error

definition BACKLOG :: nat where "BACKLOG = BUF_COUNT"

definition setup_calls :: "server_opts \<Rightarrow> setup_call list" where
  "setup_calls o1 =
     [Getaddrinfo (show_nat (unat (so_port o1))), Getaddrinfo (show_nat (unat (so_stats o1))),
      Getaddrinfo (show_nat (unat (so_error o1))), Socket_Stats, Socket_Error, Bind_Stats, Bind_Error,
      Listen_Stats BACKLOG, Listen_Error BACKLOG, Epoll_Create, Epoll_Add_Stats, Epoll_Add_Error]"

record main_env =
  me_call :: "setup_call \<Rightarrow> bool"
  me_dup :: int
  me_rlimit :: "int option"
  me_conns_calloc :: bool
  me_threads_calloc :: bool
  me_inet_ntop :: bool

text \<open>
  \<open>Inl\<close> is the value \<open>main\<close> returns; an \<open>exit\<close> inside is the outer \<open>Inl\<close>.  \<open>threads\<close> stands for
  \<open>init_threads\<close> of the implementation linked in.
\<close>

definition server_main ::
  "main_env \<Rightarrow> (char \<times> string) list \<Rightarrow> unit res \<Rightarrow> (int + server_opts \<times> (int \<Rightarrow> nat option) \<times> int) res" where
  "server_main env args threads =
     (case parse_opts args default_opts of
        Inl r \<Rightarrow> Inr (Inl r)
      | Inr o1 \<Rightarrow>
          (case check_ports o1 of
             Inl r \<Rightarrow> Inr (Inl r)
           | Inr o2 \<Rightarrow>
               if \<not> list_all (me_call env) (setup_calls o2) then Inr (Inl (- 1))
               else rbind (init_conns (me_dup env) (me_rlimit env) (me_conns_calloc env)) (\<lambda>(tbl, mx).
                 if \<not> me_threads_calloc env then Inl (Exit 1)
                 else rbind threads (\<lambda>_.
                   if \<not> me_inet_ntop env then Inl (Exit 1) else Inr (Inr (o2, tbl, mx))))))"

section \<open>Performance counters\<close>

text \<open>
  What \<open>write_perf_stats\<close> reads of a thread and of its counter group: the pairs of a value and an
  id, or \<open>None\<close> if the read fails.
\<close>

record perf_thread =
  pt_index :: nat
  pt_ids :: "int list"
  pt_accept_count :: nat
  pt_conn_count :: nat
  pt_values :: "(nat \<times> int) list option"

text \<open>A value goes to the first counter that has its id.\<close>

fun find_id :: "int list \<Rightarrow> int \<Rightarrow> nat option" where
  "find_id [] i = None"
| "find_id (x # xs) i = (if i = x then Some 0 else map_option Suc (find_id xs i))"

fun note_values :: "int list \<Rightarrow> (nat \<times> int) list \<Rightarrow> nat list \<Rightarrow> nat list" where
  "note_values ids [] pv = pv"
| "note_values ids ((v, i) # vs) pv =
     note_values ids vs (case find_id ids i of None \<Rightarrow> pv | Some j \<Rightarrow> pv[j := v])"

definition perf_text :: "perf_thread \<Rightarrow> nat list \<Rightarrow> string" where
  "perf_text t pv = show_nat (pt_index t) @ concat (map (\<lambda>v. tab # show_nat v) (take TOTAL_EVENTS pv)) @
     tab # show_nat (pt_accept_count t) @ tab # show_nat (pt_conn_count t) @ [newline]"

text \<open>\<open>snprintf\<close> into \<open>perf_line\<close>, which holds \<open>23 + 21 * (TOTAL_EVENTS + 2)\<close> characters with the NUL.\<close>

definition PERF_LINE :: nat where "PERF_LINE = 23 + 21 * (TOTAL_EVENTS + 2)"

definition perf_line :: "perf_thread \<Rightarrow> nat list \<Rightarrow> string" where
  "perf_line t pv = take (PERF_LINE - 1) (perf_text t pv)"

text \<open>The array \<open>perf_values\<close> is not cleared between threads.\<close>

fun perf_lines :: "nat list \<Rightarrow> perf_thread list \<Rightarrow> string list res" where
  "perf_lines pv [] = Inr []"
| "perf_lines pv (t # ts) =
     (case pt_values t of
        None \<Rightarrow> Inl (Exit 1)
      | Some vs \<Rightarrow>
          (let pv1 = note_values (pt_ids t) vs pv
           in rbind (perf_lines pv1 ts) (\<lambda>ls. Inr (perf_line t pv1 # ls))))"

definition write_perf_stats :: "perf_thread list \<Rightarrow> string list res" where
  "write_perf_stats ts = perf_lines (replicate TOTAL_EVENTS 0) ts"

section \<open>The stats port\<close>

definition stats_header :: string where
  "stats_header = ''CPU'' @ tab # ''CYCLES'' @ tab # ''INSTRUCTIONS'' @ tab # ''CACHE_READS'' @ tab #
     ''CACHE_MISSES'' @ tab # ''ICACHE_MISSES'' @ tab # ''ACCEPT_COUNT'' @ tab # ''CONNECTION_COUNT'' @ [newline]"

text \<open>A \<open>uint64_t\<close> as it is written to a socket: eight bytes, the lowest first.\<close>

definition le64 :: "nat \<Rightarrow> string" where
  "le64 n = map (\<lambda>i. char_of (n div 256 ^ i)) [0..<8]"

fun from_le :: "string \<Rightarrow> nat" where
  "from_le [] = 0"
| "from_le (c # cs) = of_char c + 256 * from_le cs"

fun send_all :: "(string \<Rightarrow> 'k \<Rightarrow> int \<times> 'k) \<Rightarrow> string list \<Rightarrow> 'k \<Rightarrow> 'k res option" where
  "send_all put [] k = Some (Inr k)"
| "send_all put (s # ss) k =
     Option.bind (write_out put s 0 k) (\<lambda>(fin, k1). if fin then send_all put ss k1 else Some (Inl (Exit 1)))"

text \<open>
  \<open>on_stats\<close> on a new connection: the size, whose write is not checked, then the header line and the
  line of every thread; any failure ends the process.
\<close>

definition on_stats ::
  "(string \<Rightarrow> 'k \<Rightarrow> int \<times> 'k) \<Rightarrow> bool \<Rightarrow> perf_thread list \<Rightarrow> 'k \<Rightarrow> 'k res option" where
  "on_stats put accepted ts k =
     (if \<not> accepted then Some (Inl (Exit 1))
      else case write_perf_stats ts of
        Inl e \<Rightarrow> Some (Inl e)
      | Inr lines \<Rightarrow>
          (let sz = length stats_header + sum_list (map length lines);
               (_, k1) = put (le64 sz) k
           in send_all put (stats_header # lines) k1))"

section \<open>The error port\<close>

definition ERR_BUF_SZ :: nat where "ERR_BUF_SZ = 8192"

definition err_str :: "string list" where
  "err_str = [''CONNECTING'', ''WAITING'', ''READING'', ''WRITING'', ''CLOSING'']"

definition error_header :: string where
  "error_header = ''FD'' @ tab # ''PORT'' @ tab # ''STATE'' @ tab # ''CURSOR'' @ tab # ''EVENT_COUNT'' @ [newline]"

definition error_line :: "nat \<Rightarrow> connection \<Rightarrow> string" where
  "error_line i c = show_nat i @ tab # show_nat (cn_port c) @ tab # err_str ! nat (cn_state c) @ tab #
     show_nat (cn_cursor c) @ tab # show_nat (cn_event_count c) @ [newline]"

text \<open>
  The loop over the table: \<open>cursor\<close> counts what \<open>snprintf\<close> would have written, while the buffer
  keeps what fits; the loop stops when fewer than 32 characters are left.
\<close>

fun error_scan :: "(nat \<Rightarrow> connection option) \<Rightarrow> nat list \<Rightarrow> bool \<times> string \<times> nat \<Rightarrow> bool \<times> string \<times> nat" where
  "error_scan tbl [] st = st"
| "error_scan tbl (i # is) (dangling, out, cursor) =
     (case tbl i of
        None \<Rightarrow> error_scan tbl is (dangling, out, cursor)
      | Some c \<Rightarrow>
          (let (out, cursor) = (if dangling then (out, cursor) else (error_header, length error_header));
               line = error_line i c;
               out1 = out @ take (ERR_BUF_SZ - cursor - 1) line;
               cursor1 = cursor + length line
           in if cursor1 > ERR_BUF_SZ - 32 then (True, out1, cursor1)
              else error_scan tbl is (True, out1, cursor1)))"

text \<open>
  \<open>on_error\<close>: nothing is sent when no connection is open; else the size, which counts the NUL, and
  that many bytes of the buffer, where reading behind its end is undefined behaviour.
\<close>

definition on_error ::
  "(string \<Rightarrow> 'k \<Rightarrow> int \<times> 'k) \<Rightarrow> bool \<Rightarrow> (nat \<Rightarrow> connection option) \<Rightarrow> nat \<Rightarrow> 'k \<Rightarrow> 'k res option" where
  "on_error put accepted tbl mx k =
     (if \<not> accepted then Some (Inr k)
      else let (dangling, out, cursor) = error_scan tbl [3..<mx] (False, [], 0) in
        if \<not> dangling then Some (Inr k)
        else let sz = cursor + 1; (_, k1) = put (le64 sz) k in
          if ERR_BUF_SZ < sz then Some (Inl (Fault OutOfBounds))
          else Option.bind (write_out put (out @ [CHR 0x00]) 0 k1) (\<lambda>(fin, k2).
            if fin then Some (Inr k2) else Some (Inl (Exit 1))))"

section \<open>The control loop\<close>

text \<open>
  \<open>main\<close>'s loop over the events of the control sockets, each as its error flag and its descriptor;
  the list ends when \<open>epoll_wait\<close> fails.  The value is what \<open>main\<close> returns.
\<close>

fun control_loop ::
  "int \<Rightarrow> int \<Rightarrow> ('k \<Rightarrow> 'k res option) \<Rightarrow> ('k \<Rightarrow> 'k res option) \<Rightarrow> (int \<Rightarrow> 'k \<Rightarrow> 'k) \<Rightarrow> (bool \<times> int) list \<Rightarrow> 'k \<Rightarrow> (int \<times> 'k) res option" where
  "control_loop sfd efd stats errs close_fd [] k = Some (Inr (- 1, k))"
| "control_loop sfd efd stats errs close_fd ((err, fd) # evs) k =
     (if err then
        if fd = sfd then Some (Inr (- 1, k))
        else if fd = efd then Some (Inr (- 1, k))
        else control_loop sfd efd stats errs close_fd evs (close_fd fd k)
      else if fd = sfd then
        Option.bind (stats k) (\<lambda>r. case r of Inl e \<Rightarrow> Some (Inl e) | Inr k1 \<Rightarrow> control_loop sfd efd stats errs close_fd evs k1)
      else if fd = efd then
        Option.bind (errs k) (\<lambda>r. case r of Inl e \<Rightarrow> Some (Inl e) | Inr k1 \<Rightarrow> control_loop sfd efd stats errs close_fd evs k1)
      else control_loop sfd efd stats errs close_fd evs k)"

section \<open>What is sent\<close>

lemma from_le64: "n < 2 ^ 64 \<Longrightarrow> from_le (le64 n) = n"
proof -
  have le: "from_le (map (\<lambda>i. char_of (m div 256 ^ i)) [0..<k]) = m mod 256 ^ k" for m k :: nat
  proof (induction k arbitrary: m)
    case (Suc k)
    have "map (\<lambda>i. char_of (m div 256 ^ i)) [0..<Suc k] =
        char_of m # map (\<lambda>i. char_of (m div 256 div 256 ^ i)) [0..<k]"
      by (simp add: upt_conv_Cons map_Suc_upt[symmetric] div_mult2_eq del: upt_Suc)
    then have "from_le (map (\<lambda>i. char_of (m div 256 ^ i)) [0..<Suc k]) = m mod 256 + 256 * (m div 256 mod 256 ^ k)"
      by (simp add: Suc.IH of_char_of take_bit_nat_def del: upt_Suc)
    also have "\<dots> = m mod 256 ^ Suc k" by (simp add: mod_mult2_eq)
    finally show ?case .
  qed simp
  assume "n < 2 ^ 64"
  then show ?thesis by (simp add: le64_def le)
qed

lemma length_le64 [simp]: "length (le64 n) = 8"
  by (simp add: le64_def)

text \<open>A pipe never refuses, so a loop that writes to it gets through.\<close>

lemma pipe_put_pos: "bs \<noteq> [] \<Longrightarrow> 0 < fst (pipe_put bs p)"
  using pipe_limit_pos[of "length bs" p] by (simp add: pipe_put_def Let_def)

lemma pipe_write_out: "cursor < length buf \<Longrightarrow> \<exists>p'. write_out pipe_put buf cursor p = Some (True, p')"
proof (induction "length buf - cursor" arbitrary: cursor p rule: less_induct)
  case less
  obtain n p1 where p: "pipe_put (drop cursor buf) p = (n, p1)" by force
  then have n: "0 < n" using pipe_put_pos[of "drop cursor buf" p] less.prems by simp
  show ?case
  proof (cases "cursor + nat n < length buf")
    case True
    then have "length buf - (cursor + nat n) < length buf - cursor" using n by auto
    from less.hyps[OF this True] True p n show ?thesis by (subst write_out.simps) simp
  next
    case False
    then show ?thesis using p n by (subst write_out.simps) simp
  qed
qed

lemma pipe_write_all:
  assumes "buf \<noteq> []"
  shows "\<exists>p'. write_out pipe_put buf 0 p = Some (True, p') \<and> pi_bytes p' = pi_bytes p @ buf"
  using pipe_write_out[of 0 buf p] pipe.write_out_all[of buf p] assms by auto

lemma pipe_write_some:
  assumes "buf \<noteq> []"
  shows "\<exists>p'. write_some pipe_put buf 0 p = Some (True, p') \<and> pi_bytes p' = pi_bytes p @ buf"
proof -
  have "cursor < length buf \<Longrightarrow> write_some pipe_put buf cursor p = write_out pipe_put buf cursor p" for cursor p
  proof (induction "length buf - cursor" arbitrary: cursor p rule: less_induct)
    case less
    obtain n p1 where p: "pipe_put (drop cursor buf) p = (n, p1)" by force
    then have n: "0 < n" using pipe_put_pos[of "drop cursor buf" p] less.prems by simp
    show ?case
    proof (cases "cursor + nat n < length buf")
      case True
      then have "length buf - (cursor + nat n) < length buf - cursor" using n by auto
      from less.hyps[OF this True] True p n show ?thesis
        by (subst write_some.simps, subst write_out.simps) simp
    next
      case False
      then show ?thesis using p n by (subst write_some.simps, subst write_out.simps) simp
    qed
  qed
  then show ?thesis using pipe_write_all[OF assms] assms by simp
qed

lemma pipe_send_all:
  "\<forall>s \<in> set ss. s \<noteq> [] \<Longrightarrow> \<exists>p'. send_all pipe_put ss p = Some (Inr p') \<and> pi_bytes p' = pi_bytes p @ concat ss"
proof (induction ss arbitrary: p)
  case (Cons s ss)
  obtain p1 where p1: "write_out pipe_put s 0 p = Some (True, p1)" "pi_bytes p1 = pi_bytes p @ s"
    using pipe_write_all[of s p] Cons.prems by auto
  obtain p2 where "send_all pipe_put ss p1 = Some (Inr p2)" "pi_bytes p2 = pi_bytes p1 @ concat ss"
    using Cons.IH[of p1] Cons.prems by auto
  with p1 show ?case by simp
qed simp

lemma pipe_put_bytes: "pipe_put bs p = (n, p1) \<Longrightarrow> pi_bytes p1 = pi_bytes p @ take (nat n) bs \<and> 0 \<le> n \<and> n \<le> int (length bs)"
  using pipe.put_prefix[of bs p n p1] by (auto simp: pipe_put_def Let_def)

text \<open>The line of a thread has its values, its index and its two counts, and is never cut short.\<close>

lemma show_nat_short: "n < 2 ^ 64 \<Longrightarrow> length (show_nat n) \<le> 20"
  using length_show_nat[of n 19] by simp

definition perf_ok :: "perf_thread \<Rightarrow> bool" where
  "perf_ok t \<longleftrightarrow> pt_index t < 2 ^ 31 \<and> pt_accept_count t < 2 ^ 64 \<and> pt_conn_count t < 2 ^ 64 \<and>
     (\<forall>vs. pt_values t = Some vs \<longrightarrow> (\<forall>x \<in> set vs. fst x < 2 ^ 64))"

lemma note_values_bound:
  "\<forall>v \<in> set pv. v < b \<Longrightarrow> \<forall>x \<in> set vs. fst x < b \<Longrightarrow> (\<forall>v \<in> set (note_values ids vs pv). v < b) \<and> length (note_values ids vs pv) = length pv"
  for b :: nat
proof (induction ids vs pv rule: note_values.induct)
  case (2 ids v i vs pv)
  have "\<forall>w \<in> set (case find_id ids i of None \<Rightarrow> pv | Some j \<Rightarrow> pv[j := v]). w < b"
    using 2(2,3) set_update_subset_insert[of pv _ v] by (auto split: option.splits)
  from 2(1)[OF this] 2(3) show ?case by (auto split: option.splits)
qed simp

lemma perf_line_whole:
  assumes "perf_ok t" and "\<forall>v \<in> set pv. v < 2 ^ 64" and "length pv = TOTAL_EVENTS"
  shows "perf_line t pv = perf_text t pv \<and> perf_text t pv \<noteq> []"
proof -
  obtain a b c d e where pv: "pv = [a, b, c, d, e]"
    using assms(3) by (auto simp: TOTAL_EVENTS_def eval_nat_numeral length_Suc_conv)
  have "length (show_nat (pt_index t)) \<le> 10" using length_show_nat[of "pt_index t" 9] assms(1) by (simp add: perf_ok_def)
  moreover have "length (show_nat a) \<le> 20" "length (show_nat b) \<le> 20" "length (show_nat c) \<le> 20"
    "length (show_nat d) \<le> 20" "length (show_nat e) \<le> 20" "length (show_nat (pt_accept_count t)) \<le> 20"
    "length (show_nat (pt_conn_count t)) \<le> 20"
    using assms(1,2) show_nat_short by (simp_all add: pv perf_ok_def)
  ultimately have "length (perf_text t pv) \<le> PERF_LINE - 1"
    by (simp add: perf_text_def pv PERF_LINE_def TOTAL_EVENTS_def)
  then show ?thesis by (simp add: perf_line_def perf_text_def)
qed

text \<open>The values a thread reports: those it read, and where its group lacks a counter those of the thread before.\<close>

fun reported :: "nat list \<Rightarrow> perf_thread list \<Rightarrow> string list" where
  "reported pv [] = []"
| "reported pv (t # ts) =
     (let pv1 = note_values (pt_ids t) (the (pt_values t)) pv in perf_text t pv1 # reported pv1 ts)"

lemma perf_lines_reported:
  "\<forall>t \<in> set ts. perf_ok t \<and> pt_values t \<noteq> None \<Longrightarrow> \<forall>v \<in> set pv. v < 2 ^ 64 \<Longrightarrow> length pv = TOTAL_EVENTS \<Longrightarrow>
    perf_lines pv ts = Inr (reported pv ts) \<and> (\<forall>s \<in> set (reported pv ts). s \<noteq> [])"
proof (induction ts arbitrary: pv)
  case (Cons t ts)
  then obtain vs where vs: "pt_values t = Some vs" by auto
  have b: "\<forall>x \<in> set vs. fst x < 2 ^ 64" using Cons.prems(1) vs by (simp add: perf_ok_def)
  have nb: "(\<forall>v \<in> set (note_values (pt_ids t) vs pv). v < 2 ^ 64) \<and> length (note_values (pt_ids t) vs pv) = TOTAL_EVENTS"
    using note_values_bound[OF Cons.prems(2) b, of "pt_ids t"] Cons.prems(3) by auto
  then show ?case using Cons.IH[of "note_values (pt_ids t) vs pv"] perf_line_whole[of t "note_values (pt_ids t) vs pv"] Cons.prems(1) vs
    by (simp add: Let_def)
qed simp

definition stats_text :: "perf_thread list \<Rightarrow> string" where
  "stats_text ts = stats_header @ concat (reported (replicate TOTAL_EVENTS 0) ts)"

lemma on_stats_sends:
  assumes "\<forall>t \<in> set ts. perf_ok t \<and> pt_values t \<noteq> None"
  shows "\<exists>p'. on_stats pipe_put True ts p = Some (Inr p') \<and>
    pi_bytes p' = pi_bytes p @ take (pipe_limit p 8) (le64 (length (stats_text ts))) @ stats_text ts"
proof -
  let ?ls = "reported (replicate TOTAL_EVENTS 0) ts"
  have w: "write_perf_stats ts = Inr ?ls" "\<forall>s \<in> set ?ls. s \<noteq> []"
    using perf_lines_reported[OF assms, of "replicate TOTAL_EVENTS 0"] by (auto simp: write_perf_stats_def)
  let ?n = "le64 (length stats_header + sum_list (map length ?ls))"
  have len: "length (stats_text ts) = length stats_header + sum_list (map length ?ls)"
    by (simp add: stats_text_def length_concat)
  obtain n p1 where p1: "pipe_put ?n p = (n, p1)" by force
  have b1: "pi_bytes p1 = pi_bytes p @ take (pipe_limit p 8) ?n"
    using p1 by (auto simp: pipe_put_def Let_def)
  obtain p2 where p2: "send_all pipe_put (stats_header # ?ls) p1 = Some (Inr p2)"
    "pi_bytes p2 = pi_bytes p1 @ concat (stats_header # ?ls)"
    using pipe_send_all[of "stats_header # ?ls" p1] w(2) by (auto simp: stats_header_def)
  have "on_stats pipe_put True ts p = Some (Inr p2)"
    using w(1) p1 p2(1) by (simp add: on_stats_def Let_def del: send_all.simps)
  moreover have "pi_bytes p2 = pi_bytes p @ take (pipe_limit p 8) (le64 (length (stats_text ts))) @ stats_text ts"
    unfolding len using b1 p2(2) by (simp add: stats_text_def)
  ultimately show ?thesis by blast
qed

text \<open>
  The lines an error report has room for: the scan stops behind the first that leaves fewer than 32
  characters.
\<close>

fun fit :: "nat \<Rightarrow> string list \<Rightarrow> string list" where
  "fit n [] = []"
| "fit n (l # ls) = l # (if n + length l > ERR_BUF_SZ - 32 then [] else fit (n + length l) ls)"

definition open_lines :: "(nat \<Rightarrow> connection option) \<Rightarrow> nat list \<Rightarrow> string list" where
  "open_lines tbl is = map (\<lambda>i. error_line i (the (tbl i))) (filter (\<lambda>i. tbl i \<noteq> None) is)"

definition error_text :: "(nat \<Rightarrow> connection option) \<Rightarrow> nat \<Rightarrow> string" where
  "error_text tbl mx = error_header @ concat (fit (length error_header) (open_lines tbl [3..<mx]))"

lemma fit_short:
  "n \<le> ERR_BUF_SZ - 32 \<Longrightarrow> \<forall>l \<in> set ls. length l \<le> 31 \<Longrightarrow> n + length (concat (fit n ls)) < ERR_BUF_SZ"
proof (induction n ls rule: fit.induct)
  case (2 n l ls)
  then show ?case by (cases "n + length l > ERR_BUF_SZ - 32") (auto simp: ERR_BUF_SZ_def not_less)
qed (simp add: ERR_BUF_SZ_def)

lemma error_scan_dangling:
  "n = length out \<Longrightarrow> n \<le> ERR_BUF_SZ - 32 \<Longrightarrow>
    \<exists>out'. error_scan tbl is (True, out, n) = (True, out', n + length (concat (fit n (open_lines tbl is)))) \<and>
      (n + length (concat (fit n (open_lines tbl is))) < ERR_BUF_SZ \<longrightarrow> out' = out @ concat (fit n (open_lines tbl is)))"
proof (induction "is" arbitrary: out n)
  case (Cons i "is")
  show ?case
  proof (cases "tbl i")
    case None
    then show ?thesis using Cons.IH[OF Cons.prems] by (simp add: open_lines_def)
  next
    case (Some c)
    let ?l = "error_line i c"
    have o: "open_lines tbl (i # is) = ?l # open_lines tbl is" using Some by (simp add: open_lines_def)
    show ?thesis
    proof (cases "n + length ?l > ERR_BUF_SZ - 32")
      case True
      then show ?thesis using Some Cons.prems by (auto simp: o Let_def)
    next
      case False
      have t: "take (ERR_BUF_SZ - n - 1) ?l = ?l" using False by (simp add: ERR_BUF_SZ_def)
      have "n + length ?l = length (out @ ?l)" "n + length ?l \<le> ERR_BUF_SZ - 32" using False Cons.prems by simp_all
      from Cons.IH[OF this] False Some t show ?thesis by (auto simp: o Let_def add.assoc)
    qed
  qed
qed (simp add: open_lines_def)

lemma error_scan_first:
  "error_scan tbl is (False, [], 0) =
     (if open_lines tbl is = [] then (False, [], 0) else error_scan tbl is (True, error_header, length error_header))"
proof (induction "is")
  case (Cons i "is")
  then show ?case by (cases "tbl i") (auto simp: open_lines_def Let_def)
qed (simp add: open_lines_def)

text \<open>A report that fits the buffer: its size with the NUL, the text, the NUL.\<close>

lemma on_error_sends:
  assumes o: "open_lines tbl [3..<mx] \<noteq> []" and f: "length (error_text tbl mx) < ERR_BUF_SZ"
  shows "\<exists>p'. on_error pipe_put True tbl mx p = Some (Inr p') \<and> pi_bytes p' = pi_bytes p @
         take (pipe_limit p 8) (le64 (length (error_text tbl mx) + 1)) @ error_text tbl mx @ [CHR 0x00]"
proof -
  let ?h = "length error_header" and ?t = "error_text tbl mx"
  have h: "?h \<le> ERR_BUF_SZ - 32" by (simp add: error_header_def ERR_BUF_SZ_def)
  obtain out where sc: "error_scan tbl [3..<mx] (True, error_header, ?h) = (True, out, length ?t)" "out = ?t"
    using error_scan_dangling[OF refl h, of tbl "[3..<mx]"] f by (auto simp: error_text_def)
  obtain n p1 where p1: "pipe_put (le64 (length ?t + 1)) p = (n, p1)" by force
  have b1: "pi_bytes p1 = pi_bytes p @ take (pipe_limit p 8) (le64 (length ?t + 1))"
    using p1 by (auto simp: pipe_put_def Let_def)
  obtain p2 where p2: "write_out pipe_put (?t @ [CHR 0x00]) 0 p1 = Some (True, p2)" "pi_bytes p2 = pi_bytes p1 @ ?t @ [CHR 0x00]"
    using pipe_write_all[of "?t @ [CHR 0x00]" p1] by auto
  have "on_error pipe_put True tbl mx p = Some (Inr p2)"
    using o f sc p1 p2(1) by (simp add: on_error_def error_scan_first Let_def)
  then show ?thesis using p2(2) b1 by auto
qed

text \<open>The text has no NUL of its own, if the states in the table are ones that have a name.\<close>

lemma show_nat_no_nul: "CHR 0x00 \<notin> set (show_nat n)"
  using show_nat_digits[of n] by (auto simp: list_all_iff is_digit_def)

lemma error_line_no_nul: "0 \<le> cn_state c \<Longrightarrow> cn_state c \<le> CLOSING \<Longrightarrow> CHR 0x00 \<notin> set (error_line i c)"
proof -
  assume "0 \<le> cn_state c" "cn_state c \<le> CLOSING"
  then have "nat (cn_state c) \<in> {0, 1, 2, 3, 4}" by (auto simp: CLOSING_def)
  then have "CHR 0x00 \<notin> set (err_str ! nat (cn_state c))" by (auto simp: err_str_def)
  then show ?thesis by (simp add: error_line_def show_nat_no_nul tab_def newline_def)
qed

lemma set_fit: "set (fit n ls) \<subseteq> set ls"
  by (induction n ls rule: fit.induct) (auto simp: Let_def)

lemma error_text_no_nul:
  assumes "\<forall>i c. tbl i = Some c \<longrightarrow> 0 \<le> cn_state c \<and> cn_state c \<le> CLOSING"
  shows "CHR 0x00 \<notin> set (error_text tbl mx)"
proof -
  have "CHR 0x00 \<notin> set l" if "l \<in> set (open_lines tbl [3..<mx])" for l
    using that assms error_line_no_nul by (fastforce simp: open_lines_def)
  then show ?thesis using set_fit[of "length error_header" "open_lines tbl [3..<mx]"]
    by (auto simp: error_text_def error_header_def tab_def newline_def)
qed

section \<open>Properties\<close>

text \<open>
  C40: What \<open>on_error\<close> sends.  Nothing if no connection is open; otherwise, if the text of the report
  fits the buffer, its length with the final NUL, then the text and the NUL; and if the text does not
  fit, it sends a size larger than the buffer and reads behind its end.  The text fits whenever no
  line is longer than 31 characters.
\<close>

theorem error_report_sent:
  "(open_lines tbl [3..<mx] = [] \<longrightarrow> on_error pipe_put True tbl mx p = Some (Inr p)) \<and>
   (open_lines tbl [3..<mx] \<noteq> [] \<and> length (error_text tbl mx) < ERR_BUF_SZ \<longrightarrow>
      (\<exists>p'. on_error pipe_put True tbl mx p = Some (Inr p') \<and> pi_bytes p' = pi_bytes p @
         take (pipe_limit p 8) (le64 (length (error_text tbl mx) + 1)) @ error_text tbl mx @ [CHR 0x00])) \<and>
   (open_lines tbl [3..<mx] \<noteq> [] \<and> ERR_BUF_SZ \<le> length (error_text tbl mx) \<longrightarrow>
      on_error pipe_put True tbl mx p = Some (Inl (Fault OutOfBounds))) \<and>
   ((\<forall>l \<in> set (open_lines tbl [3..<mx]). length l \<le> 31) \<longrightarrow> length (error_text tbl mx) < ERR_BUF_SZ)"
proof (intro conjI impI)
  let ?ls = "open_lines tbl [3..<mx]" and ?h = "length error_header" and ?t = "error_text tbl mx"
  have h: "?h \<le> ERR_BUF_SZ - 32" by (simp add: error_header_def ERR_BUF_SZ_def)
  obtain out where sc: "error_scan tbl [3..<mx] (True, error_header, ?h) = (True, out, length ?t)"
    "length ?t < ERR_BUF_SZ \<longrightarrow> out = ?t"
    using error_scan_dangling[OF refl h, of tbl "[3..<mx]"] by (auto simp: error_text_def)
  obtain n p1 where p1: "pipe_put (le64 (length ?t + 1)) p = (n, p1)" by force
  show "on_error pipe_put True tbl mx p = Some (Inr p)" if "?ls = []"
    using that by (simp add: on_error_def error_scan_first)
  show "\<exists>p'. on_error pipe_put True tbl mx p = Some (Inr p') \<and> pi_bytes p' = pi_bytes p @
         take (pipe_limit p 8) (le64 (length ?t + 1)) @ ?t @ [CHR 0x00]" if "?ls \<noteq> [] \<and> length ?t < ERR_BUF_SZ"
    using that by (intro on_error_sends) simp_all
  show "on_error pipe_put True tbl mx p = Some (Inl (Fault OutOfBounds))" if a: "?ls \<noteq> [] \<and> ERR_BUF_SZ \<le> length ?t"
    using a sc p1 by (simp add: on_error_def error_scan_first Let_def)
  show "length ?t < ERR_BUF_SZ" if "\<forall>l \<in> set ?ls. length l \<le> 31"
    using fit_short[OF h that] by (simp add: error_text_def)
qed

definition demo_table :: "nat \<Rightarrow> connection option" where
  "demo_table i = (if i = 5 then Some (zero_connection\<lparr>cn_state := READING, cn_cursor := 7\<rparr>) else None)"

theorem error_report_sent_witness:
  "\<exists>p'. on_error pipe_put True demo_table 6 \<lparr>pi_bytes = [], pi_limits = []\<rparr> = Some (Inr p') \<and>
     length (pi_bytes p') = 8 + length error_header + 16 + 1"
proof -
  have o: "open_lines demo_table [3..<6] = [error_line 5 (zero_connection\<lparr>cn_state := READING, cn_cursor := 7\<rparr>)]"
    by (simp add: open_lines_def demo_table_def upt_rec)
  have l: "length (error_line 5 (zero_connection\<lparr>cn_state := READING, cn_cursor := 7\<rparr>)) = 16"
    by code_simp
  have "length (error_text demo_table 6) < ERR_BUF_SZ \<and> length (error_text demo_table 6) = length error_header + 16"
    unfolding error_text_def o using l by (simp add: ERR_BUF_SZ_def error_header_def)
  then show ?thesis
    using error_report_sent[of demo_table 6 "\<lparr>pi_bytes = [], pi_limits = []\<rparr>"] o by (auto simp: pipe_limit_def)
qed

end
