(* ===== verification/Client_Main.thy ===== *)
theory Client_Main
  imports Client_Log Echo_Control
begin

text \<open>
  The main thread of the load generator (\<open>event-tester/tcp_client.c\<close>): its command line, the size of
  the logs, the statistics it fetches from the server (the peer of Echo_Control), the files it writes
  and the report on failure.
\<close>

section \<open>Command line and sizes\<close>

record client_opts =
  co_port :: int
  co_stats :: int
  co_msg_size :: u64
  co_clients :: u64
  co_batch_size :: u64
  co_txn_count :: u64
  co_threads :: u64
  co_out_file :: string
  co_stat_file :: string

definition default_client_opts :: client_opts where
  "default_client_opts = \<lparr>co_port = int DEFAULT_PORT, co_stats = int DEFAULT_STATS,
     co_msg_size = word_of_nat PAYLOAD_SIZE, co_clients = 1, co_batch_size = 1, co_txn_count = 1000,
     co_threads = 0, co_out_file = ''timers.tsv'', co_stat_file = ''perf-stats.tsv''\<rparr>"

text \<open>\<open>(int)strtol(optarg, NULL, 10)\<close>: the low 32 bits, read signed.\<close>

definition to_int32 :: "int \<Rightarrow> int" where
  "to_int32 i = sint (word_of_int i :: u32)"

fun parse_client :: "(char \<times> string) list \<Rightarrow> client_opts \<Rightarrow> int + client_opts" where
  "parse_client [] o1 = Inr o1"
| "parse_client ((c, arg) # cs) o1 =
     (if c = CHR ''?'' \<or> c = CHR ''h'' then Inl 0
      else if c = CHR ''p'' then parse_client cs (o1\<lparr>co_port := to_int32 (strtol10 arg)\<rparr>)
      else if c = CHR ''s'' then parse_client cs (o1\<lparr>co_stats := to_int32 (strtol10 arg)\<rparr>)
      else if c = CHR ''m'' then parse_client cs (o1\<lparr>co_msg_size := word_of_int (strtol10 arg)\<rparr>)
      else if c = CHR ''c'' then parse_client cs (o1\<lparr>co_clients := word_of_int (strtol10 arg)\<rparr>)
      else if c = CHR ''b'' then parse_client cs (o1\<lparr>co_batch_size := word_of_int (strtol10 arg)\<rparr>)
      else if c = CHR ''t'' then parse_client cs (o1\<lparr>co_txn_count := word_of_int (strtol10 arg)\<rparr>)
      else if c = CHR ''T'' then parse_client cs (o1\<lparr>co_threads := word_of_int (strtol10 arg)\<rparr>)
      else if c = CHR ''o'' then parse_client cs (o1\<lparr>co_out_file := arg\<rparr>)
      else if c = CHR ''S'' then parse_client cs (o1\<lparr>co_stat_file := arg\<rparr>)
      else Inl (- 1))"

text \<open>
  The checks, and the number of threads: at most one per processor.  The size of the log comes last;
  a batch size of zero is a division by zero there.
\<close>

definition client_threads :: "u64 \<Rightarrow> u64 \<Rightarrow> u64" where
  "client_threads threads cpus = (if threads = 0 \<or> threads > cpus then cpus else threads)"

definition min_io :: "u64 \<Rightarrow> u64" where
  "min_io msize = 1 + msize div 1380"

definition max_events :: "u64 \<Rightarrow> u64 \<Rightarrow> u64 \<Rightarrow> u64 \<Rightarrow> u64 res" where
  "max_events msize txns batch clients =
     (if batch = 0 then Inl (Fault DivByZero)
      else Inr ((4 * min_io msize * txns + 2 * (1 + txns div batch)) * clients * 8))"

definition entry_size :: "u64 \<Rightarrow> u64" where
  "entry_size events = word_of_nat (TscLogEntrySize 4) * events"

definition client_main_setup ::
  "(char \<times> string) list \<Rightarrow> string list \<Rightarrow> u64 \<Rightarrow> (int + client_opts \<times> string \<times> int \<times> u64 \<times> u64) res" where
  "client_main_setup opts rest cpus =
     (case parse_client opts default_client_opts of
        Inl r \<Rightarrow> Inr (Inl r)
      | Inr o1 \<Rightarrow>
          if co_port o1 \<le> 0 \<or> co_port o1 > 65536 then Inl (Exit 1)
          else if co_stats o1 \<le> 0 \<or> co_stats o1 > 65536 then Inl (Exit 1)
          else if length rest < 2 then Inl (Exit 1)
          else rbind (max_events (co_msg_size o1) (co_txn_count o1) (co_batch_size o1) (co_clients o1)) (\<lambda>ev.
            Inr (Inr (o1, rest ! 0, strtol10 (rest ! 1), client_threads (co_threads o1) cpus, entry_size ev))))"

definition cfg_of :: "client_opts \<Rightarrow> client_cfg" where
  "cfg_of o1 = \<lparr>cf_transaction_count = co_txn_count o1, cf_batch_size = co_batch_size o1,
     cf_msg_size = unat (co_msg_size o1), cf_clients_per_thread = unat (co_clients o1)\<rparr>"

section \<open>Statistics of the server\<close>

text \<open>
  Fetching the statistics: the size, in one \<open>read\<close> that may bring fewer than eight bytes, then the
  text up to that size or the end of the stream, into a zeroed buffer.
\<close>

definition fetch_stats :: "(nat \<Rightarrow> 'k \<Rightarrow> string option \<times> 'k) \<Rightarrow> bool \<Rightarrow> 'k \<Rightarrow> (string \<times> 'k) res option" where
  "fetch_stats get calloc_ok k =
     (case get 8 k of
        (None, k1) \<Rightarrow> Some (Inl (Exit 1))
      | (Some bs, k1) \<Rightarrow>
          if bs = [] then Some (Inl (Exit 1))
          else if \<not> calloc_ok then Some (Inl (Exit 1))
          else Option.bind (read_some get (from_le bs) [] k1) (\<lambda>(fin, got, k2).
            if fin then Some (Inr (got @ replicate (from_le bs - length got) (CHR 0x00), k2))
            else Some (Inl (Exit 1))))"

definition save_stats :: "(string \<Rightarrow> 'f \<Rightarrow> int \<times> 'f) \<Rightarrow> string \<Rightarrow> 'f \<Rightarrow> 'f res option" where
  "save_stats put buf f =
     Option.bind (write_some put buf 0 f) (\<lambda>(fin, f1). if fin then Some (Inr f1) else Some (Inl (Exit 1)))"

section \<open>The transaction log\<close>

definition timers_header :: string where
  "timers_header = ''WORKER'' @ tab # ''CLIENT'' @ tab # ''TRANSACTION ID'' @ tab # ''EVENT ID'' @ tab #
     ''TSC'' @ tab # ''TSC_KHZ'' @ [newline]"

definition timer_line :: "nat \<Rightarrow> nat \<Rightarrow> memory \<Rightarrow> string" where
  "timer_line tsc_khz a m =
     (let v = (\<lambda>i. show_nat (load_le 8 (a + 16 + 8 * i) m))
      in v 0 @ tab # v 1 @ tab # v 2 @ tab # v 3 @ tab # show_nat (load_le 8 (a + 8) m) @ tab #
         show_nat tsc_khz @ [newline])"

text \<open>The loop from the first entry to \<open>cur\<close>, in steps of an entry; it misses \<open>cur\<close> if that is no entry's end.\<close>

partial_function (option) dump_entries :: "nat \<Rightarrow> nat \<Rightarrow> nat \<Rightarrow> memory \<Rightarrow> string list \<Rightarrow> string list option" where
  "dump_entries tsc_khz cursor end1 m out =
     (if cursor = end1 then Some out
      else dump_entries tsc_khz (cursor + TscLogEntrySize 4) end1 m (out @ [timer_line tsc_khz cursor m]))"

primrec dump_workers :: "nat \<Rightarrow> (nat \<times> tsc_log) list \<Rightarrow> string list \<Rightarrow> string list option" where
  "dump_workers tsc_khz [] out = Some out"
| "dump_workers tsc_khz (l # ls) out =
     Option.bind (dump_entries tsc_khz (fst l + CACHE_LINE) (tl_cur (snd l)) (tl_mem (snd l)) out)
       (dump_workers tsc_khz ls)"

definition timers_file :: "nat \<Rightarrow> (nat \<times> tsc_log) list \<Rightarrow> string option" where
  "timers_file tsc_khz lgs = map_option concat (dump_workers tsc_khz lgs [timers_header])"

text \<open>The threads whose log has overflowed, in the warnings before the dump.\<close>

definition overflowed :: "tsc_log list \<Rightarrow> nat list" where
  "overflowed ls = filter (\<lambda>i. tl_overflow (ls ! i)) [0..<length ls]"

section \<open>The report on failure\<close>

text \<open>
  Reading the server's report from its error port, once connected: a size and as much text.  The test
  for a short read compares a signed result with an unsigned size, so a failed read passes it and
  leaves \<open>size\<close> with whatever the variable held, \<open>garbage\<close> here.  A read into the null pointer of a
  failed \<open>calloc\<close> is an error of \<open>read\<close>, and printing a text without a NUL reads behind the buffer.
\<close>

definition fetch_error ::
  "(nat \<Rightarrow> 'k \<Rightarrow> string option \<times> 'k) \<Rightarrow> bool \<Rightarrow> nat \<Rightarrow> 'k \<Rightarrow> string option res option" where
  "fetch_error get calloc_ok garbage k =
     (let (r, k1) = get 8 k;
          want = (case r of Some bs \<Rightarrow> from_le bs | None \<Rightarrow> garbage)
      in if (case r of Some bs \<Rightarrow> length bs < 8 | None \<Rightarrow> False) \<or> \<not> calloc_ok then Some (Inr None)
      else Option.bind (read_full get want [] k1) (\<lambda>(fin, got, k2).
        if \<not> fin then Some (Inr None)
        else if CHR 0x00 \<in> set got then Some (Inr (Some (c_str got)))
        else Some (Inl (Fault OutOfBounds))))"

definition reported_client :: "client \<Rightarrow> bool" where
  "reported_client c \<longleftrightarrow> cl_state c \<notin> {INIT, DONE} \<and> cl_txn_remaining c \<noteq> 0"

fun state_name :: "cstate \<Rightarrow> string" where
  "state_name CONNECTING = ''CONNECTING'' @ [tab]"
| "state_name NEW = ''NEW'' @ [tab]"
| "state_name READY = ''READY'' @ [tab]"
| "state_name SENT = ''SENT'' @ [tab]"
| "state_name INIT = []"
| "state_name DONE = []"

definition client_line :: "(int \<Rightarrow> nat) \<Rightarrow> nat \<Rightarrow> nat \<Rightarrow> client \<Rightarrow> string" where
  "client_line port_of i j c = show_nat i @ tab # show_nat j @ tab # show_nat (port_of (cl_sock c)) @ tab #
     state_name (cl_state c) @ show_nat (cl_cursor c) @ tab # show_nat (unat (cl_txn_remaining c)) @ tab #
     show_nat (unat (cl_batch_remaining c)) @ [newline]"

definition client_report :: "(int \<Rightarrow> nat) \<Rightarrow> cworker list \<Rightarrow> string list" where
  "client_report port_of ws =
     concat (map (\<lambda>i. map (\<lambda>j. client_line port_of i j (client_at (ws ! i) j))
       (filter (\<lambda>j. reported_client (client_at (ws ! i) j)) [0..<length (cw_clients (ws ! i))])) [0..<length ws])"

section \<open>What the client gets and writes\<close>

lemma read_some_pipe:
  assumes "want \<le> length (pi_bytes p)"
  shows "\<exists>p'. read_some pipe_get want [] p = Some (True, take want (pi_bytes p), p') \<and> pi_bytes p' = drop want (pi_bytes p)"
proof -
  obtain fin got p' where r: "read_some pipe_get want [] p = Some (fin, got, p')" "got @ pi_bytes p' = pi_bytes p"
    "fin \<longrightarrow> got = take want (pi_bytes p)"
    using pipe.read_some_spec[of "[]" want p] assms by auto
  moreover have "fin"
  proof -
    have "read_some pipe_get want gs q = Some (b, y) \<Longrightarrow> (\<forall>n k. \<exists>bs k'. pipe_get n k = (Some bs, k')) \<longrightarrow> b" for gs q b y
    proof (induction "want - length gs" arbitrary: gs q rule: less_induct)
      case less
      obtain bs q1 where g: "pipe_get (want - length gs) q = (Some bs, q1)" by (auto simp: pipe_get_def Let_def)
      show ?case
      proof (cases "bs \<noteq> [] \<and> length gs + length bs < want")
        case True
        then have "want - length (gs @ bs) < want - length gs" by (cases bs) auto
        from less.hyps[OF this, of q1] less.prems True g show ?thesis
          by (subst (asm) (2) read_some.simps) simp
      next
        case False
        then show ?thesis using less.prems g by (subst (asm) read_some.simps) auto
      qed
    qed
    then show ?thesis using r(1) by (auto simp: pipe_get_def Let_def)
  qed
  ultimately have "read_some pipe_get want [] p = Some (True, take want (pi_bytes p), p')"
    "take want (pi_bytes p) @ pi_bytes p' = pi_bytes p" by auto
  then show ?thesis by (metis append_take_drop_id same_append_eq)
qed

text \<open>The dump of a log whose entries are all whole.\<close>

lemma dump_entries_all:
  "dump_entries khz a (a + n * TscLogEntrySize 4) m out =
     Some (out @ map (\<lambda>i. timer_line khz (a + i * TscLogEntrySize 4) m) [0..<n])"
proof (induction n arbitrary: a out)
  case 0
  then show ?case by (subst dump_entries.simps) simp
next
  case (Suc n)
  have ne: "a \<noteq> a + Suc n * TscLogEntrySize 4" by (simp add: TscLogEntrySize_def)
  have e: "a + Suc n * TscLogEntrySize 4 = a + TscLogEntrySize 4 + n * TscLogEntrySize 4" by simp
  have "map (\<lambda>i. timer_line khz (a + i * TscLogEntrySize 4) m) [0..<Suc n] =
      timer_line khz a m # map (\<lambda>i. timer_line khz (a + TscLogEntrySize 4 + i * TscLogEntrySize 4) m) [0..<n]"
    by (simp add: upt_conv_Cons map_Suc_upt[symmetric] add.assoc del: upt_Suc)
  then show ?case
    unfolding e using Suc.IH[of "a + TscLogEntrySize 4" "out @ [timer_line khz a m]"] ne[unfolded e]
    by (subst dump_entries.simps) (simp del: upt_Suc)
qed

definition entry_line :: "nat \<Rightarrow> entry \<Rightarrow> string" where
  "entry_line tsc_khz e =
     (let v = (\<lambda>i. show_nat (en_vals e ! i))
      in v 0 @ tab # v 1 @ tab # v 2 @ tab # v 3 @ tab # show_nat (en_tsc e) @ tab # show_nat tsc_khz @ [newline])"

lemma timer_line_entry: "timer_line khz a m = entry_line khz (read_entry 4 a m)"
  by (simp add: timer_line_def entry_line_def read_entry_def Let_def)

text \<open>A log with room for \<open>c\<close> entries that holds the records \<open>rs\<close>, and the lines it gives.\<close>

definition log_holds :: "nat \<Rightarrow> (stamp \<times> u64 list) list \<Rightarrow> nat \<times> tsc_log \<Rightarrow> bool" where
  "log_holds c rs l \<longleftrightarrow> holds 4 (fst l + CACHE_LINE) c (map entry_of rs) (snd l)"

lemma worker_memory_holds:
  assumes "\<forall>r \<in> set (cw_log me). length (snd r) = 4"
  shows "log_holds c (take c (cw_log me))
      (fst (align_log (c * TscLogEntrySize 4) a), worker_memory (c * TscLogEntrySize 4) a me) \<and>
    (tl_overflow (worker_memory (c * TscLogEntrySize 4) a me) \<longleftrightarrow> c < length (cw_log me))"
proof -
  let ?l = "snd (align_log (c * TscLogEntrySize 4) a)" and ?b = "fst (align_log (c * TscLogEntrySize 4) a) + CACHE_LINE"
  have o: "holds 4 ?b c [] ?l" "\<not> tl_overflow ?l" by (simp_all add: holds_def read_log_def align_log_def Let_def)
  show ?thesis using log_all_holds[OF o(1) order_refl assms] o(2) by (simp add: log_holds_def worker_memory_def take_map)
qed

lemma dump_held_log:
  assumes "log_holds c rs l"
  shows "dump_entries khz (fst l + CACHE_LINE) (tl_cur (snd l)) (tl_mem (snd l)) out = Some (out @ map (entry_line khz \<circ> entry_of) rs)"
proof -
  have h: "tl_cur (snd l) = fst l + CACHE_LINE + length rs * TscLogEntrySize 4"
    "read_log 4 (length rs) (fst l + CACHE_LINE) (tl_mem (snd l)) = map entry_of rs"
    using assms by (simp_all add: log_holds_def holds_def)
  have "map (\<lambda>i. timer_line khz (fst l + CACHE_LINE + i * TscLogEntrySize 4) (tl_mem (snd l))) [0..<length rs] =
      map (entry_line khz) (read_log 4 (length rs) (fst l + CACHE_LINE) (tl_mem (snd l)))"
    by (simp add: read_log_def timer_line_entry)
  then show ?thesis unfolding h(1) dump_entries_all h(2) by simp
qed

lemma dump_held_logs:
  "list_all2 (log_holds c) rss ls \<Longrightarrow>
    dump_workers khz ls out = Some (out @ concat (map (map (entry_line khz \<circ> entry_of)) rss))"
proof (induction rss ls arbitrary: out rule: list_all2_induct)
  case (Cons rs rss l ls)
  then show ?case by (simp add: dump_held_log)
qed simp

text \<open>What the log of a finished worker needs, against the size computed for it.\<close>

lemma finished_log_length:
  assumes "worker_setup env cfg rnd idx = Inr me" and "run_clients nt cfg me k = Some (Inr (complete, me', k'))"
    and "\<not> is_dying nt me' k'" and "recv_fits nt"
    and "0 < cf_batch_size cfg" and "0 < cf_msg_size cfg" and "0 < cf_transaction_count cfg"
    and "cf_clients_per_thread cfg * unat (cf_transaction_count cfg) < 2 ^ 64" and "cf_clients_per_thread cfg < 2 ^ 64"
  shows "length (cw_log me') = (\<Sum>j < cf_clients_per_thread cfg.
      2 * ((unat (cf_transaction_count cfg) - 1) div unat (cf_batch_size cfg) + 1) + 2 * unat (cf_transaction_count cfg) +
      2 * length (ids j RECV_DONE (recs me'))) \<and> (\<forall>r \<in> set (cw_log me'). length (snd r) = 4)"
proof (cases "cf_clients_per_thread cfg = 0")
  case True
  have "recs me' = []"
  proof -
    have c: "cfg_ok cfg" using assms(5) by (simp add: cfg_ok_def)
    have ok: "workers_ok cfg me" by (rule setup_workers_ok[OF assms(1,6,7)])
    have "logs_ok cfg me'" by (rule run_clients_logs_ok[OF assms(2,4) c ok setup_logs_ok[OF assms(1,9)]])
    moreover have "length (cw_clients me') = 0"
      using run_clients_accounts[OF assms(2,4) c ok] worker_setup_Inr(1)[OF assms(1)] True by simp
    moreover have "\<not> cw_dying me'" using assms(3) by (simp add: is_dying_def)
    ultimately show ?thesis by (auto simp: logs_ok_def)
  qed
  then show ?thesis using True by (simp add: recs_def)
next
  case False
  have f: "log_inv cfg j me' \<and> cl_state (client_at me' j) = DONE \<and> cl_txn_remaining (client_at me' j) = 0 \<and>
      (\<forall>vs \<in> set (recs me'). \<exists>j < cf_clients_per_thread cfg. tag j vs)" if "j < cf_clients_per_thread cfg" for j
    using finished_state[OF assms that] .
  have "length (recs me') = (\<Sum>j < cf_clients_per_thread cfg. event_count j (recs me'))"
    using f[of 0] False assms(9) by (intro length_recs_sum) auto
  also have "\<dots> = (\<Sum>j < cf_clients_per_thread cfg.
      2 * ((unat (cf_transaction_count cfg) - 1) div unat (cf_batch_size cfg) + 1) + 2 * unat (cf_transaction_count cfg) +
      2 * length (ids j RECV_DONE (recs me')))"
    by (rule sum.cong[OF refl]) (use f finished_event_count in auto)
  finally have "length (cw_log me') = (\<Sum>j < cf_clients_per_thread cfg.
      2 * ((unat (cf_transaction_count cfg) - 1) div unat (cf_batch_size cfg) + 1) + 2 * unat (cf_transaction_count cfg) +
      2 * length (ids j RECV_DONE (recs me')))" by (simp add: recs_def)
  moreover have "\<forall>vs \<in> set (recs me'). length vs = 4" using f[of 0] False by (auto simp: tag_def)
  ultimately show ?thesis by (simp add: recs_def)
qed

lemma log_room: "t \<le> mt \<Longrightarrow> r \<le> 15 * mt \<Longrightarrow> d1 \<le> d \<Longrightarrow> 2 * (d1 + 1) + 2 * t + 2 * r \<le> (4 * mt + 2 * (1 + d)) * 8"
  for t mt r d d1 :: nat
  by (simp add: distrib_left distrib_right)

lemma min_io_pos: "1 \<le> unat (min_io msize)"
proof -
  have "unat msize < 2 ^ 64" using unsigned_less[of msize, where 'a = nat] by simp
  then have "unat (msize div 1380) < 2 ^ 64 - 1" by (simp add: unat_div)
  then have lt: "1 + unat (msize div 1380) < 2 ^ 64" by simp
  have "min_io msize = word_of_nat (1 + unat (msize div 1380))" by (simp add: min_io_def)
  then show ?thesis using unat_of_nat64[OF lt] by simp
qed

lemma max_events_exact:
  assumes "max_events msize txns batch clients = Inr ev"
    and "(4 * unat (min_io msize) * unat txns + 2 * (1 + unat txns div unat batch)) * unat clients * 8 < 2 ^ 64"
  shows "unat ev = (4 * unat (min_io msize) * unat txns + 2 * (1 + unat txns div unat batch)) * unat clients * 8"
proof -
  have "ev = (4 * min_io msize * txns + 2 * (1 + txns div batch)) * clients * 8"
    using assms(1) by (auto simp: max_events_def split: if_splits)
  also have "\<dots> = word_of_nat ((4 * unat (min_io msize) * unat txns + 2 * (1 + unat txns div unat batch)) * unat clients * 8)"
    by (simp only: of_nat_mult of_nat_add of_nat_numeral of_nat_1 word_arith_nat_div of_nat_unat ucast_id)
  finally have e: "ev = word_of_nat ((4 * unat (min_io msize) * unat txns + 2 * (1 + unat txns div unat batch)) * unat clients * 8)" .
  show ?thesis unfolding e by (rule unat_of_nat64[OF assms(2)])
qed

section \<open>Properties\<close>



definition demo_perf_thread :: perf_thread where
  "demo_perf_thread = \<lparr>pt_index = 0, pt_ids = [11, 12, 13, 14, 15], pt_accept_count = 2, pt_conn_count = 1,
     pt_values = Some [(7, 11), (9, 13)]\<rparr>"

definition demo_pipe :: "char pipe" where
  "demo_pipe = \<lparr>pi_bytes = [], pi_limits = [8, 30, 1]\<rparr>"



end
