(* ===== verification/Client_Run.thy ===== *)
theory Client_Run
  imports Client_Main Hang_Barrier
begin

text \<open>
  The load generator from the start of its threads to its end (\<open>main\<close> and \<open>do_error_report\<close> of
  \<open>event-tester/tcp_client.c\<close>): the workers behind the barrier, what \<open>main\<close> makes of them once it has
  joined all, and the files it leaves.
\<close>

section \<open>The end of main\<close>

text \<open>
  The calls \<open>main\<close> makes after the joins.  \<open>ms_connect\<close> connects to a port of the server,
  \<open>ms_port_of\<close> is what \<open>getsockname\<close> and \<open>ntohs\<close> say of a socket, \<open>ms_calloc\<close> whether the buffer for what
  is fetched is granted; the result of \<open>dprintf\<close> is not looked at.
\<close>

record 'k main_sys =
  ms_open :: "string \<Rightarrow> 'k \<Rightarrow> int \<times> 'k"
  ms_socket :: "'k \<Rightarrow> int \<times> 'k"
  ms_reuseport :: "int \<Rightarrow> 'k \<Rightarrow> bool \<times> 'k"
  ms_connect :: "int \<Rightarrow> int \<Rightarrow> 'k \<Rightarrow> conn_reply \<times> 'k"
  ms_read :: "int \<Rightarrow> nat \<Rightarrow> 'k \<Rightarrow> string option \<times> 'k"
  ms_write :: "int \<Rightarrow> string \<Rightarrow> 'k \<Rightarrow> int \<times> 'k"
  ms_dprintf :: "int \<Rightarrow> string \<Rightarrow> 'k \<Rightarrow> 'k"
  ms_shutdown :: "int \<Rightarrow> 'k \<Rightarrow> 'k"
  ms_close :: "int \<Rightarrow> 'k \<Rightarrow> 'k"
  ms_port_of :: "int \<Rightarrow> nat"
  ms_calloc :: bool

definition report_header :: string where
  "report_header = ''THREAD'' @ tab # ''CLIENT'' @ tab # ''PORT'' @ tab # ''STATE'' @ tab # ''CURSOR'' @ tab #
     ''TXN_REMAIN'' @ tab # ''BATCH_REMAIN'' @ [newline]"

text \<open>
  What \<open>do_error_report\<close> prints before it exits: the server's report if it can be had, then the
  client's own.
\<close>

definition server_report :: "'k main_sys \<Rightarrow> nat \<Rightarrow> 'k \<Rightarrow> string option res option" where
  "server_report ms garbage k =
     (let (fd, k1) = ms_socket ms k;
          (ok1, k2) = ms_reuseport ms fd k1
      in if \<not> ok1 then Some (Inr None)
      else let (c, k3) = ms_connect ms fd (int DEFAULT_ERROR) k2
      in if c \<noteq> Connect_Ok then Some (Inr None)
      else fetch_error (ms_read ms fd) (ms_calloc ms) garbage k3)"

definition do_error_report :: "'k main_sys \<Rightarrow> nat \<Rightarrow> cworker list \<Rightarrow> 'k \<Rightarrow> string res option" where
  "do_error_report ms garbage ws k =
     map_option (\<lambda>r. rbind r (\<lambda>t.
       Inr ((case t of None \<Rightarrow> [] | Some s \<Rightarrow> s @ [newline, newline]) @
            report_header @ concat (client_report (ms_port_of ms) ws))))
       (server_report ms garbage k)"

text \<open>The logs of the workers in memory, worker \<open>i\<close>'s block at \<open>at i\<close>.\<close>

definition worker_logs :: "nat \<Rightarrow> (nat \<Rightarrow> nat) \<Rightarrow> cworker list \<Rightarrow> (nat \<times> tsc_log) list" where
  "worker_logs esz at ws =
     map (\<lambda>i. (fst (align_log esz (at i)), worker_memory esz (at i) (ws ! i))) [0..<length ws]"

definition write_timers :: "'k main_sys \<Rightarrow> string \<Rightarrow> nat \<Rightarrow> (nat \<times> tsc_log) list \<Rightarrow> 'k \<Rightarrow> 'k res option" where
  "write_timers ms name khz lgs k =
     (let (fd, k1) = ms_open ms name k
      in if fd < 0 then Some (Inl (Exit 1))
      else map_option (\<lambda>ls. Inr (ms_close ms fd (fold (ms_dprintf ms fd) ls k1))) (dump_workers khz lgs [timers_header]))"

definition collect_stats :: "'k main_sys \<Rightarrow> string \<Rightarrow> int \<Rightarrow> 'k \<Rightarrow> 'k res option" where
  "collect_stats ms name port k =
     (let (fd, k1) = ms_open ms name k
      in if fd < 0 then Some (Inl (Exit 1))
      else let (sock, k2) = ms_socket ms k1
      in if sock < 0 then Some (Inl (Exit 1))
      else let (ok1, k3) = ms_reuseport ms sock k2
      in if \<not> ok1 then Some (Inl (Exit 1))
      else let (c, k4) = ms_connect ms sock port k3
      in if c \<noteq> Connect_Ok then Some (Inl (Exit 1))
      else Option.bind (fetch_stats (ms_read ms sock) (ms_calloc ms) k4) (\<lambda>r.
        case r of Inl e \<Rightarrow> Some (Inl e) | Inr (buf, k5) \<Rightarrow>
          Option.bind (save_stats (ms_write ms fd) buf (ms_close ms sock (ms_shutdown ms sock k5))) (\<lambda>r.
            case r of Inl e \<Rightarrow> Some (Inl e) | Inr k6 \<Rightarrow> Some (Inr (ms_close ms fd k6)))))"

text \<open>
  \<open>main\<close> after it has joined the workers \<open>ws\<close>: \<open>Reported\<close> is the exit at the end of \<open>do_error_report\<close>
  with what it has printed, \<open>Finished\<close> a return of 0.  \<open>set_dying\<close> of any thread raises the flag of all.
\<close>

datatype 'k client_end = Reported string | Finished 'k

definition client_finish ::
  "'k main_sys \<Rightarrow> client_opts \<Rightarrow> nat \<Rightarrow> nat \<Rightarrow> (nat \<Rightarrow> nat) \<Rightarrow> nat \<Rightarrow> cworker list \<Rightarrow> 'k \<Rightarrow> 'k client_end res option" where
  "client_finish ms o1 khz esz at garbage ws k =
     (if list_ex cw_dying ws then map_option (\<lambda>r. rbind r (\<lambda>t. Inr (Reported t))) (do_error_report ms garbage ws k)
      else Option.bind (collect_stats ms (co_stat_file o1) (co_stats o1) k) (\<lambda>r.
        case r of Inl e \<Rightarrow> Some (Inl e) | Inr k1 \<Rightarrow>
          map_option (\<lambda>r. rbind r (\<lambda>k2. Inr (Finished k2)))
            (write_timers ms (co_out_file o1) khz (worker_logs esz at ws) k1)))"

section \<open>The start of the workers\<close>

text \<open>What the calls of \<open>main\<close> and of the set-up of the workers return.\<close>

definition client_start ::
  "int \<Rightarrow> (nat \<Rightarrow> int) \<Rightarrow> (nat \<Rightarrow> int) \<Rightarrow> (nat \<Rightarrow> worker_env) \<Rightarrow> client_cfg \<Rightarrow> (nat \<Rightarrow> nat \<Rightarrow> nat \<Rightarrow> byte) \<Rightarrow> hang_env" where
  "client_start attr affinity create we cfg rnd =
     \<lparr>he_attr = (attr = 0), he_create = (\<lambda>i. affinity i = 0 \<and> create i = 0),
      he_setup = (\<lambda>i. ok (worker_setup (we i) cfg (rnd i) i))\<rparr>"

text \<open>
  Worker \<open>i\<close> as \<open>main\<close> finds it after the join, \<open>raised\<close> saying whether any thread has called
  \<open>set_dying\<close>: only then may the worker have seen its flag raised by another one.
\<close>

definition joined :: "'k net_sys \<Rightarrow> client_cfg \<Rightarrow> cworker \<Rightarrow> 'k \<Rightarrow> bool \<Rightarrow> cworker \<Rightarrow> bool" where
  "joined nt cfg me k raised w \<longleftrightarrow> (\<exists>complete w1 k1.
     run_clients nt cfg me k = Some (Inr (complete, w1, k1)) \<and> (ns_dying nt k1 \<longrightarrow> raised) \<and>
     (\<exists>k2. worker_func nt cfg me k = Some (Inr (w, k2))))"

section \<open>A host with files and connections\<close>

text \<open>
  Files by name and sockets by descriptor, each a pipe that moves any part of what it is asked to; a
  port without a peer refuses.
\<close>

record host =
  ho_files :: "string \<Rightarrow> char pipe"
  ho_names :: "int \<Rightarrow> string"
  ho_socks :: "int \<Rightarrow> char pipe"
  ho_peers :: "int \<Rightarrow> char pipe option"
  ho_next :: int

definition file_of :: "int \<Rightarrow> host \<Rightarrow> char pipe" where
  "file_of fd h = ho_files h (ho_names h fd)"

definition set_file :: "int \<Rightarrow> char pipe \<Rightarrow> host \<Rightarrow> host" where
  "set_file fd p h = h\<lparr>ho_files := (ho_files h)(ho_names h fd := p)\<rparr>"

definition set_sock :: "int \<Rightarrow> char pipe \<Rightarrow> host \<Rightarrow> host" where
  "set_sock fd p h = h\<lparr>ho_socks := (ho_socks h)(fd := p)\<rparr>"

definition host_open :: "string \<Rightarrow> host \<Rightarrow> int \<times> host" where
  "host_open name h =
     (ho_next h, h\<lparr>ho_files := (ho_files h)(name := (ho_files h name)\<lparr>pi_bytes := []\<rparr>),
                   ho_names := (ho_names h)(ho_next h := name), ho_next := ho_next h + 1\<rparr>)"

definition host_connect :: "int \<Rightarrow> int \<Rightarrow> host \<Rightarrow> conn_reply \<times> host" where
  "host_connect fd port h =
     (case ho_peers h port of None \<Rightarrow> (Connect_Error, h) | Some p \<Rightarrow> (Connect_Ok, set_sock fd p h))"

definition host_read :: "int \<Rightarrow> nat \<Rightarrow> host \<Rightarrow> string option \<times> host" where
  "host_read fd n h = (let (r, p) = pipe_get n (ho_socks h fd) in (r, set_sock fd p h))"

definition host_write :: "int \<Rightarrow> string \<Rightarrow> host \<Rightarrow> int \<times> host" where
  "host_write fd bs h = (let (n, p) = pipe_put bs (file_of fd h) in (n, set_file fd p h))"

definition host_dprintf :: "int \<Rightarrow> string \<Rightarrow> host \<Rightarrow> host" where
  "host_dprintf fd bs h = set_file fd ((file_of fd h)\<lparr>pi_bytes := pi_bytes (file_of fd h) @ bs\<rparr>) h"

definition host_calls :: "(int \<Rightarrow> nat) \<Rightarrow> host main_sys" where
  "host_calls port_of = \<lparr>ms_open = host_open, ms_socket = (\<lambda>h. (ho_next h, h\<lparr>ho_next := ho_next h + 1\<rparr>)),
     ms_reuseport = (\<lambda>fd h. (True, h)), ms_connect = host_connect, ms_read = host_read, ms_write = host_write,
     ms_dprintf = host_dprintf, ms_shutdown = (\<lambda>fd h. h), ms_close = (\<lambda>fd h. h), ms_port_of = port_of, ms_calloc = True\<rparr>"

definition file_text :: "string \<Rightarrow> host \<Rightarrow> string" where
  "file_text name h = pi_bytes (ho_files h name)"

lemma set_file_simps [simp]:
  "file_of fd (set_file fd p h) = p" "set_file fd p (set_file fd q h) = set_file fd p h"
  "ho_names (set_file fd p h) = ho_names h" "ho_next (set_file fd p h) = ho_next h"
  "file_text f (set_file fd p h) = (if f = ho_names h fd then pi_bytes p else file_text f h)"
  by (simp_all add: file_of_def set_file_def file_text_def)

lemma set_sock_simps [simp]:
  "ho_socks (set_sock fd p h) fd = p" "set_sock fd p (set_sock fd q h) = set_sock fd p h"
  "ho_names (set_sock fd p h) = ho_names h" "ho_next (set_sock fd p h) = ho_next h"
  "file_text f (set_sock fd p h) = file_text f h" "file_of gd (set_sock fd p h) = file_of gd h"
  by (simp_all add: file_of_def set_sock_def file_text_def)

text \<open>A loop on a descriptor of the host is the loop on its pipe.\<close>

lemma host_write_some:
  "write_some pipe_put buf i (file_of fd h) = Some (b, p) \<Longrightarrow> write_some (host_write fd) buf i h = Some (b, set_file fd p h)"
  by (rule write_some_lift[where g = "file_of fd" and u = "set_file fd"]) (auto simp: host_write_def split_def Let_def)

lemma host_read_some:
  "read_some pipe_get want got (ho_socks h fd) = Some (b, gs, p) \<Longrightarrow>
     read_some (host_read fd) want got h = Some (b, gs, set_sock fd p h)"
  by (rule read_some_lift[where g = "\<lambda>h. ho_socks h fd" and u = "set_sock fd"]) (auto simp: host_read_def split_def Let_def)

lemma host_read_full:
  "read_full pipe_get want got (ho_socks h fd) = Some (b, gs, p) \<Longrightarrow>
     read_full (host_read fd) want got h = Some (b, gs, set_sock fd p h)"
  by (rule read_full_lift[where g = "\<lambda>h. ho_socks h fd" and u = "set_sock fd"]) (auto simp: host_read_def split_def Let_def)

lemma host_dprintf_all:
  "fold (host_dprintf fd) ls h = set_file fd ((file_of fd h)\<lparr>pi_bytes := pi_bytes (file_of fd h) @ concat ls\<rparr>) h"
proof (induction ls arbitrary: h)
  case Nil
  then show ?case by (simp add: set_file_def file_of_def)
qed (simp add: host_dprintf_def)


section \<open>What the files hold\<close>

lemma collect_stats_host:
  assumes p: "ho_peers h port = Some p" "pi_bytes p = le64 (length t) @ t" "pipe_limit p 8 = 8"
    and t: "length t < 2 ^ 31" "t \<noteq> []" and nn: "0 \<le> ho_next h"
  shows "\<exists>h'. collect_stats (host_calls po) name port h = Some (Inr h') \<and> file_text name h' = t \<and> 0 \<le> ho_next h' \<and>
    (\<forall>f. f \<noteq> name \<longrightarrow> file_text f h' = file_text f h)"
proof -
  obtain fd h1 where o: "host_open name h = (fd, h1)" by force
  let ?h2 = "h1\<lparr>ho_next := ho_next h1 + 1\<rparr>" and ?sock = "ho_next h1"
  have h1: "ho_names h1 fd = name" "ho_peers h1 = ho_peers h" "pi_bytes (file_of fd h1) = []"
    "f \<noteq> name \<Longrightarrow> file_text f h1 = file_text f h" for f
    using o by (auto simp: host_open_def file_text_def file_of_def)
  have c: "host_connect ?sock port ?h2 = (Connect_Ok, set_sock ?sock p ?h2)" using p(1) h1(2) by (simp add: host_connect_def)
  obtain p1 where p1: "pipe_get 8 p = (Some (le64 (length t)), p1)" "pi_bytes p1 = t"
    using p(2,3) by (simp add: pipe_get_def Let_def)
  obtain p2 where p2: "read_some pipe_get (length t) [] p1 = Some (True, t, p2)"
    using read_some_pipe[of "length t" p1] p1(2) by auto
  have r1: "host_read ?sock 8 (set_sock ?sock p ?h2) = (Some (le64 (length t)), set_sock ?sock p1 ?h2)"
    using p1(1) by (simp add: host_read_def)
  have r2: "read_some (host_read ?sock) (length t) [] (set_sock ?sock p1 ?h2) = Some (True, t, set_sock ?sock p2 ?h2)"
    using host_read_some[of "length t" "[]" "set_sock ?sock p1 ?h2" ?sock True t p2] p2 by simp
  have sz: "from_le (le64 (length t)) = length t" using from_le64[of "length t"] t(1) by simp
  have ne: "le64 (length t) \<noteq> []" by (metis length_le64 list.size(3) zero_neq_numeral)
  let ?h3 = "set_sock ?sock p2 ?h2"
  have f: "fetch_stats (host_read ?sock) True (set_sock ?sock p ?h2) = Some (Inr (t, ?h3))"
    using r1 r2 sz ne by (simp add: fetch_stats_def)
  have f3: "pi_bytes (file_of fd ?h3) = []" using h1(3) by (simp add: file_of_def set_sock_def)
  obtain q where q: "write_some pipe_put t 0 (file_of fd ?h3) = Some (True, q)" "pi_bytes q = t"
    using pipe_write_some[OF t(2), of "file_of fd ?h3"] f3 by auto
  have s: "save_stats (host_write fd) t ?h3 = Some (Inr (set_file fd q ?h3))"
    using host_write_some[OF q(1)] by (simp add: save_stats_def)
  have n: "ho_names ?h3 fd = name" using h1(1) by simp
  have keep: "file_text f ?h3 = file_text f h1" for f by (simp add: file_text_def set_sock_def)
  have "0 \<le> fd" "0 \<le> ?sock" using o nn by (auto simp: host_open_def)
  then have "collect_stats (host_calls po) name port h = Some (Inr (set_file fd q ?h3))"
    using o c f s by (simp add: collect_stats_def host_calls_def)
  moreover have "0 \<le> ho_next ?h3" using o nn by (auto simp: host_open_def set_sock_def)
  ultimately show ?thesis using n q(2) keep h1(4) by (intro exI[of _ "set_file fd q ?h3"]) simp
qed

lemma write_timers_host:
  assumes "dump_workers khz lgs [timers_header] = Some ls" and "0 \<le> ho_next h"
  shows "\<exists>h'. write_timers (host_calls po) name khz lgs h = Some (Inr h') \<and> file_text name h' = concat ls \<and>
    (\<forall>f. f \<noteq> name \<longrightarrow> file_text f h' = file_text f h)"
proof -
  obtain fd h1 where o: "host_open name h = (fd, h1)" by force
  have h1: "ho_names h1 fd = name" "pi_bytes (file_of fd h1) = []" "0 \<le> fd"
    "f \<noteq> name \<Longrightarrow> file_text f h1 = file_text f h" for f
    using o assms(2) by (auto simp: host_open_def file_text_def file_of_def)
  have "write_timers (host_calls po) name khz lgs h = Some (Inr (fold (host_dprintf fd) ls h1))"
    using o h1(3) assms(1) by (simp add: write_timers_def host_calls_def)
  then show ?thesis using h1 by (simp add: host_dprintf_all)
qed

text \<open>A worker that has joined while nobody is dying has finished, and its log is still there.\<close>

lemma joined_finished:
  assumes "joined nt cfg me k False w" and "\<not> cw_dying w"
  shows "\<exists>complete w1 k1. run_clients nt cfg me k = Some (Inr (complete, w1, k1)) \<and> \<not> is_dying nt w1 k1 \<and> cw_log w = cw_log w1"
proof -
  obtain n w1 k1 k2 where r: "run_clients nt cfg me k = Some (Inr (n, w1, k1))" "\<not> ns_dying nt k1"
    "worker_func nt cfg me k = Some (Inr (w, k2))" using assms(1) unfolding joined_def by blast
  then have w: "(w, k2) = (if is_dying nt w1 k1 then (w1, k1) else cleanup nt w1 k1)" by (simp add: worker_func_def)
  have "\<not> is_dying nt w1 k1" using w r(2) assms(2) by (auto simp: is_dying_def split: if_splits)
  then show ?thesis using r(1) w by (auto simp: cleanup_def Let_def)
qed

lemma dump_worker_logs:
  assumes "\<forall>w \<in> set ws. \<forall>r \<in> set (cw_log w). length (snd r) = 4"
  shows "dump_workers khz (worker_logs (c * TscLogEntrySize 4) at ws) [timers_header] =
    Some (timers_header # concat (map (\<lambda>w. map (entry_line khz \<circ> entry_of) (take c (cw_log w))) ws))"
proof -
  let ?log = "\<lambda>i. (fst (align_log (c * TscLogEntrySize 4) (at i)), worker_memory (c * TscLogEntrySize 4) (at i) (ws ! i))"
  have "log_holds c (take c (cw_log (ws ! i))) (?log i)" if "i < length ws" for i
  proof -
    have "\<forall>r \<in> set (cw_log (ws ! i)). length (snd r) = 4" by (rule bspec[OF assms nth_mem[OF that]])
    from conjunct1[OF worker_memory_holds[OF this]] show ?thesis .
  qed
  then have "list_all2 (log_holds c) (map (\<lambda>i. take c (cw_log (ws ! i))) [0..<length ws]) (map ?log [0..<length ws])"
    by (simp add: list_all2_conv_all_nth)
  from dump_held_logs[OF this, of khz "[timers_header]"]
  have "dump_workers khz (worker_logs (c * TscLogEntrySize 4) at ws) [timers_header] =
      Some (timers_header # concat (map (map (entry_line khz \<circ> entry_of)) (map (\<lambda>i. take c (cw_log (ws ! i))) [0..<length ws])))"
    by (simp add: worker_logs_def)
  moreover have "map (map (entry_line khz \<circ> entry_of)) (map (\<lambda>i. take c (cw_log (ws ! i))) [0..<length ws]) =
      map (\<lambda>w. map (entry_line khz \<circ> entry_of) (take c (cw_log w))) ws"
    by (rule nth_equalityI) simp_all
  ultimately show ?thesis by simp
qed

section \<open>Properties\<close>

text \<open>
  C17: A run of the load generator that ends well.  If \<open>main\<close> got past the barrier, all workers have
  joined, none has called \<open>set_dying\<close>, and the statistics port sends a table, then \<open>main\<close> returns 0; the statistics file holds
  exactly that table, the timers file the header and, worker after worker, a line for each record
  that fitted the worker's log (\<open>c\<close> entries); and every client of every worker has sent all its
  transactions, in order, before.
\<close>

theorem client_run_complete:
  assumes "reach hang_init (hang_any (client_start attr affinity create we cfg rnd) n) s" and "h_main s = H_Ret"
    and "length ws = n" and "\<forall>i < n. \<forall>me. worker_setup (we i) cfg (rnd i) i = Inr me \<longrightarrow>
      recv_fits (nt i) \<and> joined (nt i) cfg me (k i) (list_ex cw_dying ws) (ws ! i)" and "\<not> list_ex cw_dying ws"
    and "0 < cf_batch_size cfg" and "0 < cf_msg_size cfg" and "0 < cf_transaction_count cfg"
    and "cf_clients_per_thread cfg * unat (cf_transaction_count cfg) < 2 ^ 64" and "cf_clients_per_thread cfg < 2 ^ 64"
    and "ho_peers h (co_stats o1) = Some p" and "pi_bytes p = le64 (length t) @ t" and "pipe_limit p 8 = 8"
    and "length t < 2 ^ 31" and "t \<noteq> []" and "0 \<le> ho_next h" and "co_stat_file o1 \<noteq> co_out_file o1"
  shows "(\<exists>h'. client_finish (host_calls po) o1 khz (c * TscLogEntrySize 4) at garbage ws h = Some (Inr (Finished h')) \<and>
      file_text (co_stat_file o1) h' = t \<and>
      file_text (co_out_file o1) h' = timers_header @
        concat (concat (map (\<lambda>w. map (entry_line khz \<circ> entry_of) (take c (cw_log w))) ws))) \<and>
    (\<forall>i < n. \<forall>j < cf_clients_per_thread cfg.
      ids j SEND_START (recs (ws ! i)) = map word_of_nat [0..<unat (cf_transaction_count cfg)] \<and>
      ids j SEND_DONE (recs (ws ! i)) = map word_of_nat [0..<unat (cf_transaction_count cfg)])"
proof -
  have run: "\<exists>me complete w1 k1. worker_setup (we i) cfg (rnd i) i = Inr me \<and> recv_fits (nt i) \<and>
      run_clients (nt i) cfg me (k i) = Some (Inr (complete, w1, k1)) \<and>
      \<not> is_dying (nt i) w1 k1 \<and> cw_log (ws ! i) = cw_log w1" if i: "i < n" for i
  proof -
    have "he_setup (client_start attr affinity create we cfg rnd) i" using started_all_setup[OF assms(1) _ i] assms(2) by simp
    then obtain me where me: "worker_setup (we i) cfg (rnd i) i = Inr me" unfolding client_start_def by (auto elim: okE)
    have "list_ex cw_dying ws = False" using assms(5) by simp
    from assms(4)[unfolded this] me i have j: "recv_fits (nt i)" "joined (nt i) cfg me (k i) False (ws ! i)" by blast+
    have "\<not> cw_dying (ws ! i)" using assms(3,5) i by (simp add: list_ex_length)
    from joined_finished[OF j(2) this] me j(1) show ?thesis by blast
  qed
  have four: "\<forall>r \<in> set (cw_log (ws ! i)). length (snd r) = 4" if i: "i < n" for i
    using run[OF i] finished_log_length[OF _ _ _ _ assms(6-10)] by metis
  have sends: "ids j SEND_START (recs (ws ! i)) = map word_of_nat [0..<unat (cf_transaction_count cfg)] \<and>
      ids j SEND_DONE (recs (ws ! i)) = map word_of_nat [0..<unat (cf_transaction_count cfg)]"
    if i: "i < n" and j: "j < cf_clients_per_thread cfg" for i j
  proof -
    from run[OF i] obtain me cc w1 k1 where r: "worker_setup (we i) cfg (rnd i) i = Inr me" "recv_fits (nt i)"
      "run_clients (nt i) cfg me (k i) = Some (Inr (cc, w1, k1))" "\<not> is_dying (nt i) w1 k1" "cw_log (ws ! i) = cw_log w1"
      by blast
    have "log_inv cfg j w1" "cl_state (client_at w1 j) = DONE" "cl_txn_remaining (client_at w1 j) = 0"
      using finished_state[OF r(1,3,4,2) assms(6-10) j] by blast+
    moreover have "recs (ws ! i) = recs w1" using r(5) by (simp add: recs_def)
    ultimately show ?thesis by (simp add: log_inv_def done_txns_def Let_def)
  qed
  obtain h1 where h1: "collect_stats (host_calls po) (co_stat_file o1) (co_stats o1) h = Some (Inr h1)"
    "file_text (co_stat_file o1) h1 = t" "0 \<le> ho_next h1"
    using collect_stats_host[OF assms(11-16)] by blast
  have "\<forall>w \<in> set ws. \<forall>r \<in> set (cw_log w). length (snd r) = 4" using four assms(3) by (metis in_set_conv_nth)
  from write_timers_host[OF dump_worker_logs[OF this] h1(3)] obtain h2 where
    "write_timers (host_calls po) (co_out_file o1) khz (worker_logs (c * TscLogEntrySize 4) at ws) h1 = Some (Inr h2)"
    "file_text (co_out_file o1) h2 = timers_header @
        concat (concat (map (\<lambda>w. map (entry_line khz \<circ> entry_of) (take c (cw_log w))) ws))"
    "file_text (co_stat_file o1) h2 = t"
    using h1(2) assms(17) by (metis concat.simps(2))
  then show ?thesis using h1(1) assms(5) sends by (simp add: client_finish_def)
qed


lemma read_full_pipe:
  "length got < want \<Longrightarrow> want - length got \<le> length (pi_bytes p) \<Longrightarrow>
    \<exists>p'. read_full pipe_get want got p = Some (True, got @ take (want - length got) (pi_bytes p), p')"
proof (induction "want - length got" arbitrary: got p rule: less_induct)
  case less
  let ?n = "want - length got" and ?m = "pipe_limit p (want - length got)"
  have m: "0 < ?m" "?m \<le> ?n" using pipe_limit_pos[of ?n p] pipe_limit_le[of p ?n] less.prems(1) by simp_all
  obtain p1 where g: "pipe_get ?n p = (Some (take ?m (pi_bytes p)), p1)" "pi_bytes p1 = drop ?m (pi_bytes p)"
    by (simp add: pipe_get_def Let_def)
  have l: "length (take ?m (pi_bytes p)) = ?m" using m less.prems(2) by simp
  then have ne: "take ?m (pi_bytes p) \<noteq> []" using m(1) by (metis length_greater_0_conv)
  show ?case
  proof (cases "?m < ?n")
    case True
    let ?got = "got @ take ?m (pi_bytes p)"
    have r: "want - length ?got = ?n - ?m" using l by simp
    have le: "want - length ?got < ?n" unfolding r using m True by linarith
    have lt: "length ?got < want" unfolding length_append l using True by linarith
    have room: "want - length ?got \<le> length (pi_bytes p1)" unfolding r g(2) using less.prems(2) m by simp
    from less.hyps[OF le lt room] obtain p2 where
      "read_full pipe_get want ?got p1 = Some (True, ?got @ take (?n - ?m) (pi_bytes p1), p2)" unfolding r by blast
    moreover have "take ?m (pi_bytes p) @ take (?n - ?m) (pi_bytes p1) = take ?n (pi_bytes p)"
      using take_add[of ?m "?n - ?m" "pi_bytes p"] unfolding g(2) le_add_diff_inverse[OF m(2)] by (rule sym)
    ultimately show ?thesis using g(1) ne l True by (subst read_full.simps) (simp del: diff_diff_left)
  next
    case False
    then have "?m = ?n" using m(2) by simp
    then show ?thesis using g(1) ne l by (subst read_full.simps) simp
  qed
qed

text \<open>What the client reads from an error port that has sent a text with its size and its NUL.\<close>

lemma fetch_error_host:
  assumes p: "ho_socks h fd = p" "pi_bytes p = le64 (length t + 1) @ t @ [CHR 0x00]" "pipe_limit p 8 = 8"
    and t: "length t + 1 < 2 ^ 64" "CHR 0x00 \<notin> set t"
  shows "fetch_error (host_read fd) True garbage h = Some (Inr (Some t))"
proof -
  let ?s = "t @ [CHR 0x00]"
  obtain p1 where p1: "pipe_get 8 p = (Some (le64 (length t + 1)), p1)" "pi_bytes p1 = ?s"
    using p(2,3) by (simp add: pipe_get_def Let_def)
  have r1: "host_read fd 8 h = (Some (le64 (length t + 1)), set_sock fd p1 h)" using p1(1) p(1) by (simp add: host_read_def)
  obtain p2 where p2: "read_full pipe_get (length t + 1) [] p1 = Some (True, ?s, p2)"
    using read_full_pipe[of "[]" "length t + 1" p1] p1(2) by auto
  have r2: "read_full (host_read fd) (length t + 1) [] (set_sock fd p1 h) = Some (True, ?s, set_sock fd p2 h)"
    using host_read_full[of "length t + 1" "[]" "set_sock fd p1 h" fd True ?s p2] p2 by simp
  have sz: "from_le (le64 (length t + 1)) = length t + 1" by (rule from_le64[OF t(1)])
  have "c_str ?s = t" using t(2) unfolding c_str_def by (subst takeWhile_append2) auto
  then show ?thesis using r1 r2 sz by (simp add: fetch_error_def)
qed



definition demo_host :: "char pipe option \<Rightarrow> char pipe option \<Rightarrow> host" where
  "demo_host stats err = \<lparr>ho_files = (\<lambda>_. \<lparr>pi_bytes = ''old'', pi_limits = [2, 1]\<rparr>), ho_names = (\<lambda>_. []),
     ho_socks = (\<lambda>_. \<lparr>pi_bytes = [], pi_limits = []\<rparr>),
     ho_peers = (\<lambda>port. if port = int DEFAULT_STATS then stats else if port = int DEFAULT_ERROR then err else None), ho_next = 3\<rparr>"

theorem client_run_complete_witness:
  "\<exists>w h'. client_finish (host_calls (\<lambda>_. 0)) default_client_opts 2000 (9 * TscLogEntrySize 4) (\<lambda>_. 1000) 0 [w]
       (demo_host (Some \<lparr>pi_bytes = le64 5 @ ''A B C'', pi_limits = [8, 2]\<rparr>) None) = Some (Inr (Finished h')) \<and>
     file_text ''perf-stats.tsv'' h' = ''A B C'' \<and> ids 0 SEND_START (recs w) = [0, 1, 2]"
proof -
  let ?rnd = "\<lambda>_ _ i. word_of_nat (i + 65) :: byte" and ?zero = "\<lambda>_ :: nat. 0 :: int"
  let ?v = "client_start 0 ?zero ?zero (\<lambda>_. demo_client_env) demo_cfg ?rnd"
  let ?p = "\<lparr>pi_bytes = le64 5 @ ''A B C'', pi_limits = [8, 2]\<rparr>"
  have ok: "all_succeed ?v 1" using demo_cworker_setup by (simp add: all_succeed_def client_start_def)
  obtain s where s: "(hang_step ?v 1)\<^sup>*\<^sup>* hang_start s" "started ?v 1 s"
    using hang.runs_to_end[OF hang.reach_inv[OF hang_start_reach]] by blast
  have r: "reach hang_init (hang_any ?v 1) s" by (rule hang.reach_own[OF s(1) hang_start_reach])
  have m: "h_main s = H_Ret" using s(2) ok by (auto simp: started_def split: if_splits)
  obtain n w1 k1 where run: "run_clients loopback demo_cfg demo_cworker (3, []) = Some (Inr (n, w1, k1))" "\<not> is_dying loopback w1 k1"
    using demo_run by blast
  obtain w k2 where w: "cleanup loopback w1 k1 = (w, k2)" by (cases "cleanup loopback w1 k1")
  have f: "worker_func loopback demo_cfg demo_cworker (3, []) = Some (Inr (w, k2))" using run w by (simp add: worker_func_def)
  have d: "\<not> list_ex cw_dying [w]" using run(2) w by (auto simp: cleanup_def Let_def is_dying_def)
  have j: "\<forall>i < 1. \<forall>me. worker_setup demo_client_env demo_cfg (?rnd i) i = Inr me \<longrightarrow>
      recv_fits loopback \<and> joined loopback demo_cfg me (3, []) (list_ex cw_dying [w]) ([w] ! i)"
    using run f demo_cworker_setup loopback_fits by (auto simp: joined_def is_dying_def)
  have three: "map word_of_nat [0..<unat (3::u64)] = [0, 1, 2 :: u64]" by code_simp
  let ?h = "demo_host (Some ?p) None"
  have c: "0 < cf_batch_size demo_cfg" "0 < cf_msg_size demo_cfg" "0 < cf_transaction_count demo_cfg"
    "cf_clients_per_thread demo_cfg * unat (cf_transaction_count demo_cfg) < 2 ^ 64" "cf_clients_per_thread demo_cfg < 2 ^ 64"
    by (simp_all add: demo_cfg_def)
  have "length ''A B C'' = 5" by simp
  then have b: "pi_bytes ?p = le64 (length ''A B C'') @ ''A B C''" by (simp only: pipe.simps)
  have p: "ho_peers ?h (co_stats default_client_opts) = Some ?p"
    "pipe_limit ?p 8 = 8" "length ''A B C'' < 2 ^ 31" "''A B C'' \<noteq> []" "0 \<le> ho_next ?h"
    "co_stat_file default_client_opts \<noteq> co_out_file default_client_opts"
    by (simp_all add: demo_host_def default_client_opts_def pipe_limit_def)
  have "length [w] = 1" by simp
  note t = client_run_complete[OF r m this j d c p(1) b p(2-), where po = "\<lambda>_. 0" and khz = 2000 and c = 9 and at = "\<lambda>_. 1000" and garbage = 0]
  have "ids 0 SEND_START (recs w) = [0, 1, 2]" using conjunct2[OF t] three by (simp add: demo_cfg_def)
  moreover have "co_stat_file default_client_opts = ''perf-stats.tsv''" by (simp add: default_client_opts_def)
  ultimately show ?thesis using conjunct1[OF t] by (intro exI[of _ w]) metis
qed


end
