(* ===== verification/Spec2Isabelle.thy ===== *)
theory Spec2Isabelle
  imports Upcall_Queue Batch_Stats Event_Loop Worker_Barrier Buffer_Cache Echo_Core Worker_Setup Echo_Upcall
    Echo_System Tsc_Log Sched_Latency
    Echo_Epoll Epoll_Service Echo_Threads Echo_Uring Uring_System Uring_Service Servers_Agree Hang_Barrier Server_Startup
    Server_Rounds Latency_Run Client_Run
    Tcp_Client Client_Log Io_Loops Echo_Control Client_Main
begin

text \<open>
  A verification development for \<^bold>\<open>upcalls\<close>: the library libupcall, the TCP echo server that is built on
  it and on three other ways of waiting for the network, the load generator that measures the
  server, and a benchmark of scheduler latency.

  \<^bold>\<open>The program.\<close>  A process opens an upcall descriptor and registers worker threads
  (\<open>libupcall/upcall.c\<close>).  A worker collects requests (read, write, accept, close) in an array, its
  batch; the event loop hands the batch to the kernel with one \<open>upcall_submit\<close> and gets back an array
  of completions, each of which names the callback to run.  The echo server
  (\<open>event-tester/tcp_echo.c\<close>) sets up a table of connections and per-thread object caches, starts one
  of four services and then answers on two control ports.  The services are \<open>upcall.c\<close> (callbacks of
  the library), \<open>epoll.c\<close>, \<open>iouring.c\<close> (completions of io_uring; accepted connections may be handed to
  another thread) and \<open>threads.c\<close> (a thread for each connection).  The load generator
  (\<open>event-tester/tcp_client.c\<close>) runs a state machine for each client, logs time stamps
  (\<open>tsc_logger.h\<close>), fetches the server's counters and writes both to files.

  \<^bold>\<open>How C is read.\<close>  A thread-local or global is a field of a record that is passed and returned; an
  array is the list of its cells; memory with aliasing (the entries of the caches, the bytes of the
  log) is an explicit heap.  A function that may stop the process or run into undefined behaviour
  returns a sum whose left side says why (\<open>stop\<close> in Upcall_Prelude).  A loop that may run for ever is
  a partial function with an option result: \<open>None\<close> means that it does not return.  Integers are 32- or
  64-bit words where they can wrap, and naturals with the bound in a hypothesis or invariant where
  they cannot.  System calls are arguments: a record of functions on a kernel state (\<open>ep_sys\<close>,
  \<open>mem_env\<close>, \<open>net\<close>), a list of replies, or the nondeterministic steps of a relation.

  \<^bold>\<open>The library.\<close>
  \<^item> Upcall_Prelude: outcomes, C integers, decimal printing, and the locales for step systems (an
    inductive invariant; a measure that shows that the threads' own steps end).
  \<^item> Upcall_Queue: the batch, the received events and the buffer pool (\<open>struct worker\<close>,
    \<open>upcall_worker_setup\<close>, \<open>add_read\<close>, \<open>add_write\<close>, \<open>add_accept\<close>, \<open>add_close\<close>, \<open>return_buffer\<close>).  The batch
    is an implementation of a queue of requests; a request is dropped or faults exactly when memory
    or descriptor rules say so.
  \<^item> Event_Loop: \<open>run_event_loop\<close> over an arbitrary \<open>upcall_submit\<close> and arbitrary callbacks, one round and
    the first \<open>m\<close> rounds of the endless loop; the ledger that says where each pool buffer is.
  \<^item> Batch_Stats: counter slots, histograms, the monitor thread and the control file.
  \<^item> Worker_Barrier: the results of \<open>upcall_init\<close>, and main thread and workers as an interleaving, with
    the lock and both condition variables.

  \<^bold>\<open>The echo server.\<close>
  \<^item> Buffer_Cache and Echo_Core: \<open>init_cache\<close>, \<open>cache_alloc\<close>, \<open>cache_free\<close>, the table \<open>conns\<close>, \<open>new_conn\<close>.
  \<^item> Worker_Setup, Hang_Barrier and Server_Startup: \<open>setup_perf\<close>, the listening socket, \<open>init_threads\<close> of
    the three servers that do not use the library, and what their workers start from.
  \<^item> Echo_Spec: the abstract server that all four implement.  A session is a message and a cursor; an
    event of the network changes the session of its descriptor and arms the next request.
  \<^item> Echo_Upcall and Echo_System: the callbacks, \<open>on_close\<close>, and the server closed with a kernel that
    completes submitted requests in any order.  Server_Rounds: a worker from its set-up through any
    number of rounds of the library's loop.
  \<^item> Echo_Epoll and Epoll_Service: the handlers, the event loop, and a worker on a simulated network.
  \<^item> Echo_Uring, Uring_System and Uring_Service: requests with their \<open>req_info\<close>, the completion handlers,
    and the worker closed with the kernel and the other threads.
  \<^item> Echo_Threads: the blocking handler.  Servers_Agree: all four send the same bytes.
  \<^item> Io_Loops and Echo_Control: loops over short reads and writes, command line, the two control ports.

  \<^bold>\<open>The measuring programs.\<close>
  \<^item> Tsc_Log: entries in bytes, the functions that write them, and the compare-and-swap that reserves
    them as a step system.
  \<^item> Tcp_Client, Client_Log, Client_Main and Client_Run: the clients' state machine and the workers, what
    they log, command line and files, and the whole of \<open>main\<close> from the start of the threads on.
  \<^item> Sched_Latency and Latency_Run: two threads that wake each other through event descriptors, the
    table of latencies, and the three runs of \<open>main\<close> with their logs in bytes.

  \<^bold>\<open>What is shown.\<close>  The four servers refine the abstract server (C2, C3, C4) and so agree (C1) and echo
  (C5, C11, C12); the systems closed with a kernel keep at most one request in flight for each
  connection and handle every completion that can come (C6 to C10).connection and handle every completion that can come (C6 to C10).  The start-up of both kinds of
  server always ends and lets no thread serve too early (C13, C14, C16 and the safety claims beside
  them).  A worker of the upcall server cannot go wrong in any number of rounds (C15); buffers are
  neither lost nor handed out twice; requests keep their order.  The load generator counts its
  transactions exactly, its log has room for a finished run, its files hold what the server printed
  and what the workers logged (C17 to C20).  The remaining claims are the error behaviour, the branches
  in which the code overruns a buffer, dereferences a null pointer or never returns included: they
  state when that happens.

  \<^bold>\<open>Bounds and fuel.\<close>  The caches have 1024 (messages, connections) and 2048 (\<open>req_info\<close>) entries at
  set-up and grow by allocation, the submission ring has \<open>QUEUE_DEPTH\<close> entries and the pool 32
  buffers for a batch: the numbers are the code's.  There is no fuel in the functions.  The servers' outer
  loops have no exit, so their claims hold for every number \<open>m\<close> of rounds (\<open>serve_rounds\<close>,
  \<open>worker_rounds\<close>) or for every reachable state of a step relation.  A bound \<open>2 ^ 64\<close> or \<open>2 ^ 31\<close> in a
  hypothesis is the range of the C type.

  \<^bold>\<open>Not modelled.\<close>  The autotools files, the scripts that build the guest image and start qemu, the
  kernel configuration, the rules that fetch memcached and iperf, and the plotting script have no
  logic of the program.  Of the C code: usage texts and messages on standard error, the call of
  \<open>getaddrinfo\<close> and the other conversions of addresses, the seed of \<open>srandom\<close>, the processor sets
  built for \<open>pthread_attr_setaffinity_np\<close> (only the call's result matters to the program), the empty
  \<open>dummy_thread\<close>, \<open>tsc_buffer_try_set\<close> (never called), and the kernel's side of the
  upcall system calls, which is not in the repository.
\<close>

end
